(* ===== verification/Prelude.thy ===== *)
theory Prelude
  imports Main "HOL-Library.Word"
begin

text \<open>
  Shared vocabulary of the development: how Rust's values are represented and the
  facts about them that every component uses.

  \<^item> A byte is an \<open>8 word\<close>, a buffer or a file is a list of bytes.
  \<^item> A Rust \<open>String\<close> is the list of its UTF-8 bytes, one HOL \<open>char\<close> per byte.
  \<^item> The unsigned integers \<open>u16\<close>, \<open>u32\<close>, \<open>u64\<close> and \<open>usize\<close> are \<open>nat\<close>; where an
    operation of the source can leave the width, the wrap-around of a release build
    is written out with \<open>u64_add\<close>, \<open>u64_sub\<close>, \<open>u64_mul\<close> and \<open>as_u32\<close>.
  \<^item> A Rust \<open>Result\<close> is a sum, \<open>Inl\<close> the error.
  \<^item> An operation that can panic (a slice out of range, a failed assertion) returns
    an \<open>outcome\<close>.
\<close>

named_theorems wire \<open>lengths and round trips of encodings\<close>

type_synonym byte = "8 word"
type_synonym bytes = "byte list"

datatype 'a outcome = Done 'a | Panic

section \<open>Fixed-width arithmetic\<close>

definition u64_add :: "nat \<Rightarrow> nat \<Rightarrow> nat" where
  "u64_add a b = (a + b) mod 2 ^ 64"

definition u64_sub :: "nat \<Rightarrow> nat \<Rightarrow> nat" where
  "u64_sub a b = (2 ^ 64 + a - b) mod 2 ^ 64"

definition u64_mul :: "nat \<Rightarrow> nat \<Rightarrow> nat" where
  "u64_mul a b = (a * b) mod 2 ^ 64"

definition as_u16 :: "nat \<Rightarrow> nat" where
  "as_u16 n = n mod 2 ^ 16"

definition as_u32 :: "nat \<Rightarrow> nat" where
  "as_u32 n = n mod 2 ^ 32"

text \<open>\<open>checked_add\<close> and \<open>div_ceil\<close> of the standard library.\<close>

definition checked_add :: "nat \<Rightarrow> nat \<Rightarrow> nat option" where
  "checked_add a b = (if a + b < 2 ^ 64 then Some (a + b) else None)"

definition div_ceil :: "nat \<Rightarrow> nat \<Rightarrow> nat" where
  "div_ceil a b = (if a mod b = 0 then a div b else a div b + 1)"

lemma u64_add_exact [simp]: "a + b < 2 ^ 64 \<Longrightarrow> u64_add a b = a + b"
  by (simp add: u64_add_def)

lemma u64_sub_exact [simp]: "b \<le> a \<Longrightarrow> a < 2 ^ 64 \<Longrightarrow> u64_sub a b = a - b"
proof -
  assume le: "b \<le> a" and lt: "a < 2 ^ 64"
  then have "2 ^ 64 + a - b = (a - b) + 2 ^ 64" by simp
  then have "u64_sub a b = (a - b) mod 2 ^ 64" by (simp only: u64_sub_def mod_add_self2)
  with lt show ?thesis by simp
qed

lemma u64_mul_exact [simp]: "a * b < 2 ^ 64 \<Longrightarrow> u64_mul a b = a * b"
  by (simp add: u64_mul_def)

lemma as_u32_exact [simp]: "n < 2 ^ 32 \<Longrightarrow> as_u32 n = n"
  by (simp add: as_u32_def)

lemma as_u16_exact [simp]: "n < 2 ^ 16 \<Longrightarrow> as_u16 n = n"
  by (simp add: as_u16_def)

lemma div_ceil_lower: "0 < b \<Longrightarrow> a \<le> div_ceil a b * b"
proof -
  assume b: "0 < b"
  have d: "a = b * (a div b) + a mod b" by simp
  have m: "a mod b < b" using b by simp
  show ?thesis
  proof (cases "a mod b = 0")
    case True
    then show ?thesis using d by (simp add: div_ceil_def algebra_simps)
  next
    case False
    then have "div_ceil a b * b = b * (a div b) + b" by (simp add: div_ceil_def algebra_simps)
    with d m show ?thesis by linarith
  qed
qed

lemma div_ceil_upper: "0 < b \<Longrightarrow> div_ceil a b * b < a + b"
proof -
  assume b: "0 < b"
  have d: "a = b * (a div b) + a mod b" by simp
  show ?thesis
  proof (cases "a mod b = 0")
    case True
    then have "div_ceil a b * b = a" using d by (simp add: div_ceil_def algebra_simps)
    with b show ?thesis by simp
  next
    case False
    then have "div_ceil a b * b = b * (a div b) + b" by (simp add: div_ceil_def algebra_simps)
    with d False show ?thesis by linarith
  qed
qed

lemma div_ceil_le_iff:
  assumes b: "0 < b"
  shows "div_ceil a b \<le> n \<longleftrightarrow> a \<le> n * b"
proof
  assume "div_ceil a b \<le> n"
  then have "div_ceil a b * b \<le> n * b" by (rule mult_le_mono1)
  with div_ceil_lower [OF b, of a] show "a \<le> n * b" by linarith
next
  assume a: "a \<le> n * b"
  show "div_ceil a b \<le> n"
  proof (rule ccontr)
    assume "\<not> div_ceil a b \<le> n"
    then have "(n + 1) * b \<le> div_ceil a b * b" by (intro mult_le_mono1) simp
    with div_ceil_upper [OF b, of a] a show False by (simp add: algebra_simps)
  qed
qed

section \<open>Little-endian integers\<close>

fun le_bytes :: "nat \<Rightarrow> nat \<Rightarrow> bytes" where
  "le_bytes 0 n = []"
| "le_bytes (Suc k) n = word_of_nat n # le_bytes k (n div 256)"

fun from_le :: "bytes \<Rightarrow> nat" where
  "from_le [] = 0"
| "from_le (b # bs) = unat b + 256 * from_le bs"

lemma length_le_bytes [simp, wire]: "length (le_bytes k n) = k"
  by (induction k arbitrary: n) auto

lemma le_bytes_not_Nil [simp]: "0 < k \<Longrightarrow> le_bytes k n \<noteq> []"
  by (cases k) auto

lemma from_le_le_bytes [simp, wire]: "from_le (le_bytes k n) = n mod 256 ^ k"
proof (induction k arbitrary: n)
  case 0
  then show ?case by simp
next
  case (Suc k)
  have "n mod 256 ^ Suc k = 256 * (n div 256 mod 256 ^ k) + n mod 256"
    by (simp add: mod_mult2_eq)
  then show ?case by (simp add: Suc.IH unat_of_nat)
qed

lemma from_le_bound: "from_le bs < 256 ^ length bs"
proof (induction bs)
  case Nil
  then show ?case by simp
next
  case (Cons b bs)
  have "unat b < 256" using unsigned_less [of b] by simp
  then show ?case using Cons.IH by simp
qed

lemma le_bytes_from_le: "length bs = k \<Longrightarrow> le_bytes k (from_le bs) = bs"
proof (induction bs arbitrary: k)
  case Nil
  then show ?case by simp
next
  case (Cons b bs)
  have ub: "unat b < 256" using unsigned_less [of b] by simp
  obtain k' where k: "k = Suc k'" "length bs = k'" using Cons.prems by (cases k) auto
  have "(unat b + 256 * from_le bs) div 256 = from_le bs" using ub by simp
  moreover have "(word_of_nat (unat b + 256 * from_le bs) :: byte) = b"
  proof -
    have "unat (word_of_nat (unat b + 256 * from_le bs) :: byte) = unat b"
      using ub by (simp only: unat_of_nat) simp
    then show ?thesis by (simp only: word_unat_eq_iff)
  qed
  ultimately show ?case using k Cons.IH by simp
qed

lemma le_bytes_mod: "le_bytes k (n mod 256 ^ k) = le_bytes k n"
  by (metis from_le_le_bytes le_bytes_from_le length_le_bytes)

section \<open>Buffers\<close>

text \<open>\<open>xs[off..off + data.len()].copy_from_slice(data)\<close>, in range.\<close>

definition overlay :: "nat \<Rightarrow> 'a list \<Rightarrow> 'a list \<Rightarrow> 'a list" where
  "overlay off data xs = take off xs @ data @ drop (off + length data) xs"

text \<open>\<open>&xs[a..b]\<close>: \<open>None\<close> where Rust panics.\<close>

definition slice_of :: "nat \<Rightarrow> nat \<Rightarrow> 'a list \<Rightarrow> 'a list option" where
  "slice_of a b xs = (if a \<le> b \<and> b \<le> length xs then Some (take (b - a) (drop a xs)) else None)"

text \<open>\<open>Vec::resize\<close> and \<open>BytesMut::resize\<close>.\<close>

definition resize :: "nat \<Rightarrow> 'a \<Rightarrow> 'a list \<Rightarrow> 'a list" where
  "resize n v xs = take n xs @ replicate (n - length xs) v"

lemma length_overlay [simp]:
  "off + length data \<le> length xs \<Longrightarrow> length (overlay off data xs) = length xs"
  by (simp add: overlay_def)

lemma nth_overlay:
  assumes "off + length data \<le> length xs" "i < length xs"
  shows "overlay off data xs ! i =
    (if off \<le> i \<and> i < off + length data then data ! (i - off) else xs ! i)"
  using assms by (auto simp: overlay_def nth_append)

lemma overlay_Nil [simp]: "overlay off [] xs = xs"
  by (simp add: overlay_def)

lemma overlay_whole [simp]: "length data = length xs \<Longrightarrow> overlay 0 data xs = data"
  by (simp add: overlay_def)

lemma length_resize [simp]: "length (resize n v xs) = n"
  by (simp add: resize_def)

lemma resize_same [simp]: "length xs = n \<Longrightarrow> resize n v xs = xs"
  by (simp add: resize_def)

lemma nth_resize:
  "i < n \<Longrightarrow> resize n v xs ! i = (if i < length xs then xs ! i else v)"
  by (auto simp: resize_def nth_append)

lemma slice_of_Some:
  "a \<le> b \<Longrightarrow> b \<le> length xs \<Longrightarrow> slice_of a b xs = Some (take (b - a) (drop a xs))"
  by (simp add: slice_of_def)

lemma slice_of_append [simp]:
  "slice_of (length xs) (length xs + length ys) (xs @ ys @ zs) = Some ys"
  by (simp add: slice_of_def)

section \<open>Results\<close>

text \<open>The question mark operator and \<open>Result::and_then\<close>.\<close>

definition and_then :: "'e + 'a \<Rightarrow> ('a \<Rightarrow> 'e + 'b) \<Rightarrow> 'e + 'b" where
  "and_then r f = (case r of Inl e \<Rightarrow> Inl e | Inr a \<Rightarrow> f a)"

lemma and_then_Inl [simp]: "and_then (Inl e) f = Inl e"
  by (simp add: and_then_def)

lemma and_then_Inr [simp]: "and_then (Inr a) f = f a"
  by (simp add: and_then_def)

lemma and_then_eq_Inr_iff: "and_then r f = Inr b \<longleftrightarrow> (\<exists>a. r = Inr a \<and> f a = Inr b)"
  by (cases r) auto

lemma and_then_cong [fundef_cong]:
  "r = r' \<Longrightarrow> (\<And>a. r' = Inr a \<Longrightarrow> f a = g a) \<Longrightarrow> and_then r f = and_then r' g"
  by (cases r') auto

section \<open>Readers\<close>

text \<open>
  \<open>Read::read_exact\<close> on bytes held in memory, and the positional \<open>read_exact_at\<close> of
  \<open>log_tail.rs\<close>: both fail past the end.
\<close>

datatype io_fault = UnexpectedEof

definition read_exact :: "nat \<Rightarrow> bytes \<Rightarrow> io_fault + (bytes \<times> bytes)" where
  "read_exact n r = (if n \<le> length r then Inr (take n r, drop n r) else Inl UnexpectedEof)"

lemma read_exact_append [simp, wire]: "length xs = n \<Longrightarrow> read_exact n (xs @ r) = Inr (xs, r)"
  by (simp add: read_exact_def)

lemma read_exact_eq_Inr_iff:
  "read_exact n r = Inr (xs, r') \<longleftrightarrow> r = xs @ r' \<and> length xs = n"
  by (auto simp: read_exact_def)

section \<open>Strings\<close>

text \<open>\<open>String::as_bytes\<close>, and the bytes of a string taken as they are.\<close>

definition as_bytes :: "string \<Rightarrow> bytes" where
  "as_bytes s = map (\<lambda>c. word_of_nat (of_char c)) s"

definition bytes_to_string :: "bytes \<Rightarrow> string" where
  "bytes_to_string bs = map (\<lambda>b. char_of (unat b)) bs"

text \<open>
  Well-formed UTF-8, as \<open>core::str::from_utf8\<close> checks it: no overlong form, no surrogate,
  nothing past U+10FFFF.
\<close>

definition utf8_cont :: "byte \<Rightarrow> bool" where
  "utf8_cont b \<longleftrightarrow> 128 \<le> unat b \<and> unat b \<le> 191"

definition utf8_second :: "byte \<Rightarrow> byte \<Rightarrow> bool" where
  "utf8_second a b \<longleftrightarrow>
     (if a = 224 then 160 \<le> unat b \<and> unat b \<le> 191
      else if a = 237 then 128 \<le> unat b \<and> unat b \<le> 159
      else if a = 240 then 144 \<le> unat b \<and> unat b \<le> 191
      else if a = 244 then 128 \<le> unat b \<and> unat b \<le> 143
      else utf8_cont b)"

fun utf8_tail :: "nat \<Rightarrow> bytes \<Rightarrow> bytes option" where
  "utf8_tail 0 bs = Some bs"
| "utf8_tail (Suc n) [] = None"
| "utf8_tail (Suc n) (b # bs) = (if utf8_cont b then utf8_tail n bs else None)"

lemma utf8_tail_length: "utf8_tail n bs = Some r \<Longrightarrow> length r \<le> length bs"
  by (induction n bs rule: utf8_tail.induct) (auto split: if_splits)

definition utf8_char_len :: "byte \<Rightarrow> nat" where
  "utf8_char_len a =
     (let n = unat a in
      if n < 128 then 1
      else if 194 \<le> n \<and> n \<le> 223 then 2
      else if 224 \<le> n \<and> n \<le> 239 then 3
      else if 240 \<le> n \<and> n \<le> 244 then 4
      else 0)"

function utf8_valid :: "bytes \<Rightarrow> bool" where
  "utf8_valid [] = True"
| "utf8_valid (a # bs) =
     (if utf8_char_len a = 0 then False
      else if utf8_char_len a = 1 then utf8_valid bs
      else case bs of
             [] \<Rightarrow> False
           | b # cs \<Rightarrow>
               if utf8_second a b then
                 (case utf8_tail (utf8_char_len a - 2) cs of
                    None \<Rightarrow> False
                  | Some r \<Rightarrow> utf8_valid r)
               else False)"
  by pat_completeness auto
termination
  by (relation "measure length") (auto dest: utf8_tail_length)

text \<open>\<open>String::from_utf8\<close>: \<open>None\<close> where it fails.\<close>

definition from_utf8 :: "bytes \<Rightarrow> string option" where
  "from_utf8 bs = (if utf8_valid bs then Some (bytes_to_string bs) else None)"

definition is_string :: "string \<Rightarrow> bool" where
  "is_string s \<longleftrightarrow> utf8_valid (as_bytes s)"

lemma length_as_bytes [simp, wire]: "length (as_bytes s) = length s"
  by (simp add: as_bytes_def)

lemma bytes_to_string_as_bytes [simp]: "bytes_to_string (as_bytes s) = s"
  by (simp add: as_bytes_def bytes_to_string_def comp_def unat_of_nat map_idI)

lemma as_bytes_bytes_to_string [simp]: "as_bytes (bytes_to_string bs) = bs"
proof -
  have "word_of_nat (of_char (char_of (unat b) :: char)) = b" for b :: byte
  proof -
    have "unat b < 2 ^ LENGTH(8)" by (rule unsigned_less)
    then show ?thesis by simp
  qed
  then show ?thesis by (simp add: as_bytes_def bytes_to_string_def comp_def map_idI)
qed

lemma from_utf8_as_bytes [simp, wire]: "is_string s \<Longrightarrow> from_utf8 (as_bytes s) = Some s"
  by (simp add: from_utf8_def is_string_def)

lemma from_utf8_eq_Some_iff: "from_utf8 bs = Some s \<longleftrightarrow> bs = as_bytes s \<and> is_string s"
  by (auto simp: from_utf8_def is_string_def)

lemma utf8_valid_ascii: "list_all (\<lambda>b. unat b < 128) bs \<Longrightarrow> utf8_valid bs"
  by (induction bs) (auto simp: utf8_char_len_def Let_def)

end
