(* ===== verification/Chunk_Map.thy ===== *)
theory Chunk_Map
  imports Prelude
begin

text \<open>
  The chunk mapping of block volumes (\<open>crates/block/src/chunk.rs\<close>): a volume is cut
  into chunks of one power-of-two size, and a byte range of the volume is cut at the
  chunk boundaries. The lemmas show that the pieces tile the range in order, each
  inside its chunk, as long as the end of the last chunk fits in a \<open>u64\<close>, and that
  the object key of a chunk names one volume and one chunk.
\<close>

definition LBA_SIZE :: nat where
  "LBA_SIZE = 512"

definition DEFAULT_CHUNK_SIZE :: nat where
  "DEFAULT_CHUNK_SIZE = 4 * 1024 * 1024"

record chunk_range =
  chunk_id :: nat
  offset_in_chunk :: nat
  range_length :: nat

record chunk_mapper =
  mapper_chunk_size :: nat

fun is_power_of_two :: "nat \<Rightarrow> bool" where
  "is_power_of_two n =
     (if n = 0 then False else if n = 1 then True else even n \<and> is_power_of_two (n div 2))"

declare is_power_of_two.simps [simp del]

definition chunk_mapper_new :: "nat \<Rightarrow> chunk_mapper outcome" where
  "chunk_mapper_new cs =
     (if \<not> 0 < cs then Panic
      else if \<not> is_power_of_two cs then Panic
      else Done \<lparr>mapper_chunk_size = cs\<rparr>)"

definition chunk_mapper_default :: chunk_mapper where
  "chunk_mapper_default = \<lparr>mapper_chunk_size = DEFAULT_CHUNK_SIZE\<rparr>"

definition lbas_per_chunk :: "chunk_mapper \<Rightarrow> nat" where
  "lbas_per_chunk m = mapper_chunk_size m div LBA_SIZE"

definition byte_offset_to_chunk_id :: "chunk_mapper \<Rightarrow> nat \<Rightarrow> nat" where
  "byte_offset_to_chunk_id m byte_offset = byte_offset div mapper_chunk_size m"

definition lba_to_chunk_id :: "chunk_mapper \<Rightarrow> nat \<Rightarrow> nat" where
  "lba_to_chunk_id m lba = byte_offset_to_chunk_id m (u64_mul lba LBA_SIZE)"

text \<open>The body of the loop: the part of \<open>[start_byte, end_byte)\<close> inside one chunk.\<close>

definition range_in_chunk :: "chunk_mapper \<Rightarrow> nat \<Rightarrow> nat \<Rightarrow> nat \<Rightarrow> chunk_range" where
  "range_in_chunk m start_byte end_byte c =
     (let chunk_start = u64_mul c (mapper_chunk_size m);
          chunk_end = u64_add chunk_start (mapper_chunk_size m);
          range_start = max start_byte chunk_start;
          range_end = min end_byte chunk_end
      in \<lparr>chunk_id = c,
          offset_in_chunk = u64_sub range_start chunk_start,
          range_length = u64_sub range_end range_start\<rparr>)"

definition byte_range_to_chunks :: "chunk_mapper \<Rightarrow> nat \<Rightarrow> nat \<Rightarrow> chunk_range list" where
  "byte_range_to_chunks m start_byte len =
     (if len = 0 then []
      else
        let end_byte = u64_add start_byte len;
            start_chunk = start_byte div mapper_chunk_size m;
            end_chunk = u64_sub end_byte 1 div mapper_chunk_size m
        in map (range_in_chunk m start_byte end_byte) [start_chunk ..< Suc end_chunk])"

definition lba_range_to_chunks :: "chunk_mapper \<Rightarrow> nat \<Rightarrow> nat \<Rightarrow> chunk_range list" where
  "lba_range_to_chunks m start_lba lba_count =
     byte_range_to_chunks m (u64_mul start_lba LBA_SIZE) (u64_mul lba_count LBA_SIZE)"

text \<open>Lower-case hexadecimal, and the format directive \<open>08x\<close>.\<close>

definition hex_digit :: "nat \<Rightarrow> char" where
  "hex_digit d = ''0123456789abcdef'' ! (d mod 16)"

fun hex_lower :: "nat \<Rightarrow> string" where
  "hex_lower n = (if n < 16 then [hex_digit n] else hex_lower (n div 16) @ [hex_digit n])"

declare hex_lower.simps [simp del]

definition format_08x :: "nat \<Rightarrow> string" where
  "format_08x n = replicate (8 - length (hex_lower n)) (CHR ''0'') @ hex_lower n"

definition chunk_key :: "string \<Rightarrow> nat \<Rightarrow> string" where
  "chunk_key volume_id c = ''vol_'' @ volume_id @ ''/chunk_'' @ format_08x c"

definition chunks_for_size :: "chunk_mapper \<Rightarrow> nat \<Rightarrow> nat" where
  "chunks_for_size m size_bytes = div_ceil size_bytes (mapper_chunk_size m)"

definition aligned_size :: "chunk_mapper \<Rightarrow> nat \<Rightarrow> nat" where
  "aligned_size m size_bytes = u64_mul (chunks_for_size m size_bytes) (mapper_chunk_size m)"

section \<open>Powers of two\<close>

lemma is_power_of_two_iff: "is_power_of_two n \<longleftrightarrow> (\<exists>k. n = 2 ^ k)"
proof (induction n rule: is_power_of_two.induct)
  case (1 n)
  consider "n = 0" | "n = 1" | "1 < n" by linarith
  then show ?case
  proof cases
    case 1
    then show ?thesis by (simp add: is_power_of_two.simps)
  next
    case 2
    then show ?thesis by (simp add: is_power_of_two.simps) (rule exI [of _ 0], simp)
  next
    case 3
    have "(\<exists>k. n = 2 ^ k) \<longleftrightarrow> even n \<and> (\<exists>k. n div 2 = 2 ^ k)"
    proof
      assume "\<exists>k. n = 2 ^ k"
      then obtain k where "n = 2 ^ k" ..
      with 3 show "even n \<and> (\<exists>k. n div 2 = 2 ^ k)" by (cases k) auto
    next
      assume "even n \<and> (\<exists>k. n div 2 = 2 ^ k)"
      then obtain k where "even n" "n div 2 = 2 ^ k" by blast
      then have "n = 2 ^ Suc k" by auto
      then show "\<exists>k. n = 2 ^ k" ..
    qed
    with 3 "1.IH" show ?thesis by (subst is_power_of_two.simps) auto
  qed
qed

section \<open>The pieces tile the range\<close>

text \<open>
  \<open>tiles cs p e rs\<close>: the pieces \<open>rs\<close>, read in order, cover \<open>[p, e)\<close> without gap
  or overlap, and none crosses a chunk boundary.
\<close>

fun tiles :: "nat \<Rightarrow> nat \<Rightarrow> nat \<Rightarrow> chunk_range list \<Rightarrow> bool" where
  "tiles cs p e [] \<longleftrightarrow> p = e"
| "tiles cs p e (r # rs) \<longleftrightarrow>
     chunk_id r * cs + offset_in_chunk r = p \<and> 0 < range_length r \<and>
     offset_in_chunk r + range_length r \<le> cs \<and> tiles cs (p + range_length r) e rs"

text \<open>The volume offsets a piece covers.\<close>

definition covered :: "nat \<Rightarrow> chunk_range \<Rightarrow> nat list" where
  "covered cs r =
     [chunk_id r * cs + offset_in_chunk r ..<
      chunk_id r * cs + offset_in_chunk r + range_length r]"

lemma tiles_le: "tiles cs p e rs \<Longrightarrow> p \<le> e"
  by (induction rs arbitrary: p) (auto, fastforce)

lemma tiles_covered: "tiles cs p e rs \<Longrightarrow> concat (map (covered cs) rs) = [p ..< e]"
proof (induction rs arbitrary: p)
  case Nil
  then show ?case by simp
next
  case (Cons r rs)
  then have eq: "chunk_id r * cs + offset_in_chunk r = p"
    and rest: "tiles cs (p + range_length r) e rs" by simp_all
  have "[p ..< e] = [p ..< p + range_length r] @ [p + range_length r ..< e]"
    using tiles_le [OF rest] upt_add_eq_append [of p "p + range_length r" "e - (p + range_length r)"]
    by simp
  with Cons.IH [OF rest] eq show ?case by (simp add: covered_def)
qed

lemma tiles_bounds:
  "tiles cs p e rs \<Longrightarrow> r \<in> set rs \<Longrightarrow>
   0 < range_length r \<and> offset_in_chunk r + range_length r \<le> cs"
  by (induction rs arbitrary: p) auto

lemma range_in_chunk_exact:
  assumes cs: "mapper_chunk_size m = cs" and e: "e < 2 ^ 64" and c: "c * cs + cs < 2 ^ 64"
    and lo: "s < c * cs + cs" and hi: "c * cs < e" and se: "s < e"
  shows "range_in_chunk m s e c =
    \<lparr>chunk_id = c, offset_in_chunk = max s (c * cs) - c * cs,
     range_length = min e (c * cs + cs) - max s (c * cs)\<rparr>"
proof -
  have cs0: "c * cs < 2 ^ 64" using c by simp
  have "max s (c * cs) \<le> min e (c * cs + cs)" using lo hi se by simp
  moreover have "max s (c * cs) < 2 ^ 64" "min e (c * cs + cs) < 2 ^ 64" using e se cs0 by auto
  ultimately show ?thesis
    using c cs0 by (simp add: range_in_chunk_def Let_def cs del: max_less_iff_conj min_less_iff_conj)
qed

lemma div_mult_bounds:
  fixes s cs :: nat
  assumes "0 < cs"
  shows "s div cs * cs \<le> s" and "s < s div cs * cs + cs"
proof -
  have "s = s div cs * cs + s mod cs" by simp
  moreover have "s mod cs < cs" using assms by simp
  ultimately show "s div cs * cs \<le> s" "s < s div cs * cs + cs" by linarith+
qed

lemma last_chunk_bounds:
  fixes e cs :: nat
  assumes "0 < cs" and "s < e"
  shows "(e - 1) div cs * cs < e" and "e \<le> (e - 1) div cs * cs + cs"
  using div_mult_bounds [OF assms(1), of "e - 1"] assms(2) by linarith+

lemma tiles_from:
  assumes cs: "mapper_chunk_size m = cs" "0 < cs" and se: "s < e"
    and fits: "(e - 1) div cs * cs + cs < 2 ^ 64"
    and c: "s div cs \<le> c" "c \<le> (e - 1) div cs"
  shows "tiles cs (max s (c * cs)) e
           (map (range_in_chunk m s e) [c ..< Suc ((e - 1) div cs)])"
  using c
proof (induction "(e - 1) div cs - c" arbitrary: c)
  case (0 c)
  define l where "l = (e - 1) div cs"
  with 0 have cl: "c = l" by simp
  have e: "l * cs < e" "e \<le> l * cs + cs" "e < 2 ^ 64"
    using last_chunk_bounds [OF cs(2) se] fits unfolding l_def by linarith+
  have lo: "s < c * cs + cs"
    using div_mult_bounds(2) [OF cs(2), of s] mult_le_mono1 [OF 0(2), of cs] by linarith
  have "range_in_chunk m s e l =
    \<lparr>chunk_id = l, offset_in_chunk = max s (l * cs) - l * cs,
     range_length = min e (l * cs + cs) - max s (l * cs)\<rparr>"
    using range_in_chunk_exact [OF cs(1) e(3) _ _ e(1) se] fits lo cl by (simp add: l_def)
  moreover have "[c ..< Suc ((e - 1) div cs)] = [l]" using cl by (simp add: l_def)
  ultimately show ?case using e lo cl se by auto
next
  case (Suc n c)
  define l where "l = (e - 1) div cs"
  have cl: "c < l" using Suc.hyps(2) by (simp add: l_def)
  have e: "l * cs < e" "e < 2 ^ 64"
    using last_chunk_bounds [OF cs(2) se] fits unfolding l_def by linarith+
  have next_le: "c * cs + cs \<le> l * cs" using mult_le_mono1 [OF Suc_leI [OF cl], of cs] by simp
  have lo: "s < c * cs + cs"
    using div_mult_bounds(2) [OF cs(2), of s] mult_le_mono1 [OF Suc.prems(1), of cs] by linarith
  have r: "range_in_chunk m s e c =
    \<lparr>chunk_id = c, offset_in_chunk = max s (c * cs) - c * cs,
     range_length = (c * cs + cs) - max s (c * cs)\<rparr>"
    using range_in_chunk_exact [OF cs(1) e(2) _ lo _ se, of ] next_le e fits
    by (simp add: l_def)
  have IH: "tiles cs (max s (Suc c * cs)) e
      (map (range_in_chunk m s e) [Suc c ..< Suc ((e - 1) div cs)])"
    by (rule Suc.hyps(1)) (use Suc.hyps(2) Suc.prems cl in \<open>auto simp: l_def\<close>)
  have "[c ..< Suc ((e - 1) div cs)] = c # [Suc c ..< Suc ((e - 1) div cs)]"
    using cl by (simp add: upt_conv_Cons l_def)
  moreover have "max s (c * cs) + (c * cs + cs - max s (c * cs)) = max s (Suc c * cs)"
    using lo by simp
  ultimately show ?case using IH r lo cs(2) by (simp add: add.commute del: upt_Suc)
qed

lemma byte_range_to_chunks_tiles:
  assumes "0 < mapper_chunk_size m"
    and "start_byte + len + mapper_chunk_size m \<le> 2 ^ 64"
  shows "tiles (mapper_chunk_size m) start_byte (start_byte + len)
           (byte_range_to_chunks m start_byte len)"
proof (cases "len = 0")
  case True
  then show ?thesis by (simp add: byte_range_to_chunks_def)
next
  case False
  let ?cs = "mapper_chunk_size m" and ?e = "start_byte + len"
  have e: "?e < 2 ^ 64" and se: "start_byte < ?e" using assms False by auto
  have last: "(?e - 1) div ?cs * ?cs \<le> ?e - 1" by (rule div_mult_bounds(1) [OF assms(1)])
  then have fits: "(?e - 1) div ?cs * ?cs + ?cs < 2 ^ 64" using assms(2) se by linarith
  have c: "start_byte div ?cs \<le> (?e - 1) div ?cs" using False by (intro div_le_mono) simp
  have "max start_byte (start_byte div ?cs * ?cs) = start_byte"
    using div_mult_bounds(1) [OF assms(1), of start_byte] by simp
  with tiles_from [OF refl assms(1) se fits order_refl c] e se False show ?thesis
    by (simp add: byte_range_to_chunks_def Let_def del: upt_Suc)
qed

lemma byte_range_chunk_ids:
  "map chunk_id (byte_range_to_chunks m start_byte len) =
     (if len = 0 then []
      else [start_byte div mapper_chunk_size m ..<
            Suc (u64_sub (u64_add start_byte len) 1 div mapper_chunk_size m)])"
  by (simp add: byte_range_to_chunks_def range_in_chunk_def Let_def comp_def del: upt_Suc)

text \<open>
  C15. Cutting a byte range at the chunk boundaries loses nothing: the pieces, in order, cover
  exactly the offsets of the range, none is empty, none crosses a chunk boundary, and no chunk
  has two of them. It holds whenever one chunk past the range still fits in a \<open>u64\<close>.
\<close>

theorem byte_range_to_chunks_partition:
  assumes "chunk_mapper_new cs = Done m" and "start_byte + len + cs \<le> 2 ^ 64"
  shows "concat (map (covered cs) (byte_range_to_chunks m start_byte len)) =
           [start_byte ..< start_byte + len] \<and>
         list_all (\<lambda>r. 0 < range_length r \<and> offset_in_chunk r + range_length r \<le> cs)
           (byte_range_to_chunks m start_byte len) \<and>
         distinct (map chunk_id (byte_range_to_chunks m start_byte len))"
proof -
  have m: "mapper_chunk_size m = cs" "0 < cs"
    using assms(1) by (auto simp: chunk_mapper_new_def split: if_splits)
  then have t: "tiles cs start_byte (start_byte + len) (byte_range_to_chunks m start_byte len)"
    using byte_range_to_chunks_tiles [of m start_byte len] assms(2) by simp
  show ?thesis
    using tiles_covered [OF t] tiles_bounds [OF t]
    by (auto simp: list_all_iff byte_range_chunk_ids simp del: upt_Suc)
qed

theorem byte_range_to_chunks_partition_witness:
  "byte_range_to_chunks \<lparr>mapper_chunk_size = 4\<rparr> 3 6 =
     [\<lparr>chunk_id = 0, offset_in_chunk = 3, range_length = 1\<rparr>,
      \<lparr>chunk_id = 1, offset_in_chunk = 0, range_length = 4\<rparr>,
      \<lparr>chunk_id = 2, offset_in_chunk = 0, range_length = 1\<rparr>] \<and>
   concat (map (covered 4) (byte_range_to_chunks \<lparr>mapper_chunk_size = 4\<rparr> 3 6)) = [3 ..< 3 + 6]"
proof -
  have "chunk_mapper_new 4 = Done \<lparr>mapper_chunk_size = 4\<rparr>"
    by (simp add: chunk_mapper_new_def is_power_of_two.simps)
  from byte_range_to_chunks_partition [OF this, of 3 6]
  have "concat (map (covered 4) (byte_range_to_chunks \<lparr>mapper_chunk_size = 4\<rparr> 3 6)) =
    [3 ..< 3 + 6]" by simp
  moreover have upt_2: "[0 ..< 2] = [0, Suc 0]" by (simp add: numeral_2_eq_2)
  have "byte_range_to_chunks \<lparr>mapper_chunk_size = 4\<rparr> 3 6 =
     [\<lparr>chunk_id = 0, offset_in_chunk = 3, range_length = 1\<rparr>,
      \<lparr>chunk_id = 1, offset_in_chunk = 0, range_length = 4\<rparr>,
      \<lparr>chunk_id = 2, offset_in_chunk = 0, range_length = 1\<rparr>]"
    by (simp add: byte_range_to_chunks_def range_in_chunk_def Let_def upt_2)
  ultimately show ?thesis by blast
qed

section \<open>Object keys\<close>

definition hex_pos :: "char \<Rightarrow> nat" where
  "hex_pos c = length (takeWhile (\<lambda>d. d \<noteq> c) ''0123456789abcdef'')"

fun hex_value :: "nat \<Rightarrow> string \<Rightarrow> nat" where
  "hex_value acc [] = acc"
| "hex_value acc (c # cs) =
     hex_value (16 * acc + hex_pos c) cs"

lemma hex_value_append: "hex_value acc (xs @ ys) = hex_value (hex_value acc xs) ys"
  by (induction acc xs rule: hex_value.induct) simp_all

lemma hex_digit_value: "hex_pos (hex_digit n) = n mod 16"
proof -
  have "\<forall>d \<in> set [0 ..< 16]. hex_pos (''0123456789abcdef'' ! d) = d"
    by code_simp
  then show ?thesis by (simp add: hex_digit_def)
qed

lemma hex_pos_0: "hex_pos (CHR ''0'') = 0"
  by (simp add: hex_pos_def)

lemma hex_digit_not_slash: "hex_digit n \<noteq> CHR ''/''"
proof -
  have "\<forall>d \<in> set [0 ..< 16]. ''0123456789abcdef'' ! d \<noteq> CHR ''/''"
    by code_simp
  then show ?thesis by (simp add: hex_digit_def)
qed

lemma hex_value_lower: "hex_value 0 (hex_lower n) = n"
proof (induction n rule: hex_lower.induct)
  case (1 n)
  show ?case
    using "1.IH" by (subst hex_lower.simps) (simp add: hex_value_append hex_digit_value)
qed

lemma hex_lower_no_slash: "CHR ''/'' \<notin> set (hex_lower n)"
proof (induction n rule: hex_lower.induct)
  case (1 n)
  show ?case
    using "1.IH" hex_digit_not_slash by (subst hex_lower.simps) (auto dest: sym)
qed

lemma hex_value_zeros: "hex_value 0 (replicate k (CHR ''0'') @ s) = hex_value 0 s"
  by (induction k) (simp_all add: hex_pos_0)

lemma format_08x_value: "hex_value 0 (format_08x n) = n"
  by (simp add: format_08x_def hex_value_zeros hex_value_lower)

lemma format_08x_no_slash: "CHR ''/'' \<notin> set (format_08x n)"
  using hex_lower_no_slash by (simp add: format_08x_def)

lemma split_at_last_slash:
  assumes "xs @ CHR ''/'' # ys = xs' @ CHR ''/'' # ys'"
    and "CHR ''/'' \<notin> set ys" and "CHR ''/'' \<notin> set ys'"
  shows "xs = xs' \<and> ys = ys'"
  using assms append_eq_append_conv2 [of xs "CHR ''/'' # ys" xs' "CHR ''/'' # ys'"]
  by (auto simp: Cons_eq_append_conv append_eq_Cons_conv)

text \<open>
  C16. A chunk's object key names its volume and its chunk: two chunks have the same key only
  if they are the same chunk of the same volume, whatever the volume ids are.
\<close>

theorem chunk_key_injective:
  "chunk_key v c = chunk_key v' c' \<longleftrightarrow> v = v' \<and> c = c'"
proof
  assume "chunk_key v c = chunk_key v' c'"
  then have "v @ CHR ''/'' # (''chunk_'' @ format_08x c) = v' @ CHR ''/'' # (''chunk_'' @ format_08x c')"
    by (simp add: chunk_key_def)
  then have "v = v'" and "format_08x c = format_08x c'"
    using split_at_last_slash [of v "''chunk_'' @ format_08x c" v' "''chunk_'' @ format_08x c'"]
      format_08x_no_slash by auto
  then show "v = v' \<and> c = c'" using format_08x_value by metis
qed simp

lemma chunks_for_size_le_iff:
  "0 < mapper_chunk_size m \<Longrightarrow>
   chunks_for_size m n \<le> k \<longleftrightarrow> n \<le> k * mapper_chunk_size m"
  by (simp add: chunks_for_size_def div_ceil_le_iff)

end
