(* ===== verification/Btree_Map.thy ===== *)
theory Btree_Map
  imports Prelude "HOL-Library.List_Lexorder" "HOL-Library.Char_ord" "HOL-Library.Product_Lexorder"
begin

text \<open>
  \<open>BTreeMap\<close> and \<open>HashMap\<close> of the standard library as association lists sorted by key: the
  operations the program uses, and the interface \<open>keyed_map\<close> with the laws its clients rely on,
  interpreted on them. A sorted list of the string keys is in the order of their bytes, as in
  Rust.
\<close>

definition bt_get :: "'k \<Rightarrow> ('k \<times> 'v) list \<Rightarrow> 'v option" where
  "bt_get k m = map_of m k"

fun bt_put :: "'k :: linorder \<Rightarrow> 'v \<Rightarrow> ('k \<times> 'v) list \<Rightarrow> ('k \<times> 'v) list" where
  "bt_put k v [] = [(k, v)]"
| "bt_put k v ((k', v') # m) =
     (if k < k' then (k, v) # (k', v') # m
      else if k = k' then (k, v) # m
      else (k', v') # bt_put k v m)"

definition bt_del :: "'k \<Rightarrow> ('k \<times> 'v) list \<Rightarrow> ('k \<times> 'v) list" where
  "bt_del k m = filter (\<lambda>p. fst p \<noteq> k) m"

definition bt_has :: "'k \<Rightarrow> ('k \<times> 'v) list \<Rightarrow> bool" where
  "bt_has k m \<longleftrightarrow> bt_get k m \<noteq> None"

definition bt_sorted :: "('k :: linorder \<times> 'v) list \<Rightarrow> bool" where
  "bt_sorted m \<longleftrightarrow> sorted_wrt (<) (map fst m)"

section \<open>The interface\<close>

locale keyed_map =
  fixes ok :: "'m \<Rightarrow> bool"
    and get :: "'k \<Rightarrow> 'm \<Rightarrow> 'v option"
    and put :: "'k \<Rightarrow> 'v \<Rightarrow> 'm \<Rightarrow> 'm"
    and del :: "'k \<Rightarrow> 'm \<Rightarrow> 'm"
    and items :: "'m \<Rightarrow> ('k \<times> 'v) list"
  assumes get_put: "ok m \<Longrightarrow> get k' (put k v m) = (if k' = k then Some v else get k' m)"
    and get_del: "ok m \<Longrightarrow> get k' (del k m) = (if k' = k then None else get k' m)"
    and ok_put: "ok m \<Longrightarrow> ok (put k v m)"
    and ok_del: "ok m \<Longrightarrow> ok (del k m)"
    and get_items: "ok m \<Longrightarrow> get k m = Some v \<longleftrightarrow> (k, v) \<in> set (items m)"
    and items_distinct: "ok m \<Longrightarrow> distinct (map fst (items m))"
begin

lemma put_twice: "ok m \<Longrightarrow> get k' (put k v (put k w m)) = get k' (put k v m)"
  by (simp add: get_put ok_put)

lemma del_put: "ok m \<Longrightarrow> get k' (del k (put k v m)) = get k' (del k m)"
  by (simp add: get_put get_del ok_put)

lemma get_None_items: "ok m \<Longrightarrow> get k m = None \<longleftrightarrow> k \<notin> fst ` set (items m)"
  using get_items [of m k] by (cases "get k m") force+

lemma set_items_put:
  "ok m \<Longrightarrow> set (items (put k v m)) = insert (k, v) {p \<in> set (items m). fst p \<noteq> k}"
  by (auto simp: get_items [symmetric] ok_put get_put split: if_splits)

lemma set_items_del: "ok m \<Longrightarrow> set (items (del k m)) = {p \<in> set (items m). fst p \<noteq> k}"
  by (auto simp: get_items [symmetric] ok_del get_del split: if_splits)

lemma distinct_items: "ok m \<Longrightarrow> distinct (items m)"
  using items_distinct by (auto simp: distinct_map)

text \<open>A sum over the values moves by what an operation puts and takes.\<close>

lemma sum_put:
  assumes "ok m"
  shows "(\<Sum>p\<in>set (items (put k v m)). w (snd p)) + (case get k m of None \<Rightarrow> 0 | Some u \<Rightarrow> w u) =
    (\<Sum>p\<in>set (items m). w (snd p)) + (w v :: nat)"
proof -
  let ?r = "{p \<in> set (items m). fst p \<noteq> k}"
  have fin: "finite ?r" by simp
  have put: "(\<Sum>p\<in>set (items (put k v m)). w (snd p)) = w v + (\<Sum>p\<in>?r. w (snd p))"
    by (simp add: set_items_put [OF assms] sum.insert)
  have "(\<Sum>p\<in>set (items m). w (snd p)) = (case get k m of None \<Rightarrow> 0 | Some u \<Rightarrow> w u) + (\<Sum>p\<in>?r. w (snd p))"
  proof (cases "get k m")
    case None
    then have "?r = set (items m)" using get_None_items [OF assms] by force
    with None show ?thesis by simp
  next
    case (Some u)
    then have mem: "(k, u) \<in> set (items m)" by (simp add: get_items [OF assms])
    have "set (items m) = insert (k, u) ?r"
      using mem items_distinct [OF assms] by (auto simp: eq_key_imp_eq_value)
    then have "(\<Sum>p\<in>set (items m). w (snd p)) = (\<Sum>p\<in>insert (k, u) ?r. w (snd p))" by simp
    also have "\<dots> = w u + (\<Sum>p\<in>?r. w (snd p))" by (simp add: sum.insert)
    finally show ?thesis using Some by simp
  qed
  with put show ?thesis by simp
qed

lemma sum_del:
  fixes w :: "'v \<Rightarrow> nat"
  assumes "ok m"
  shows "(\<Sum>p\<in>set (items (del k m)). w (snd p)) + (case get k m of None \<Rightarrow> 0 | Some u \<Rightarrow> w u) =
    (\<Sum>p\<in>set (items m). w (snd p))"
proof -
  have "(\<Sum>p\<in>set (items (del k m)). w (snd p)) = (\<Sum>p\<in>{p \<in> set (items m). fst p \<noteq> k}. w (snd p))"
    by (simp add: set_items_del [OF assms])
  moreover have "(\<Sum>p\<in>set (items (put k v m)). w (snd p)) =
      w v + (\<Sum>p\<in>{p \<in> set (items m). fst p \<noteq> k}. w (snd p))" for v
    by (simp add: set_items_put [OF assms] sum.insert)
  ultimately show ?thesis using sum_put [OF assms, of w k undefined] by simp
qed

end

section \<open>The sorted association list\<close>

lemma bt_get_put [simp]: "bt_get k' (bt_put k v m) = (if k' = k then Some v else bt_get k' m)"
  by (induction k v m rule: bt_put.induct) (auto simp: bt_get_def)

lemma bt_get_del [simp]: "bt_get k' (bt_del k m) = (if k' = k then None else bt_get k' m)"
  by (induction m) (auto simp: bt_get_def bt_del_def)

lemma bt_get_Nil [simp]: "bt_get k [] = None"
  by (simp add: bt_get_def)

lemma bt_keys_put: "fst ` set (bt_put k v m) = insert k (fst ` set m)"
  by (induction k v m rule: bt_put.induct) auto

lemma bt_sorted_put [simp]: "bt_sorted m \<Longrightarrow> bt_sorted (bt_put k v m)"
proof (induction k v m rule: bt_put.induct)
  case (1 k v)
  then show ?case by (simp add: bt_sorted_def)
next
  case (2 k v k' v' m)
  then show ?case using bt_keys_put [of k v m] by (auto simp: bt_sorted_def)
qed

lemma bt_sorted_del [simp]: "bt_sorted m \<Longrightarrow> bt_sorted (bt_del k m)"
  by (induction m) (auto simp: bt_sorted_def bt_del_def)

lemma bt_sorted_Nil [simp]: "bt_sorted []"
  by (simp add: bt_sorted_def)

lemma bt_sorted_distinct: "bt_sorted m \<Longrightarrow> distinct (map fst m)"
  by (simp add: bt_sorted_def strict_sorted_iff)

lemma bt_get_items: "bt_sorted m \<Longrightarrow> bt_get k m = Some v \<longleftrightarrow> (k, v) \<in> set m"
  by (simp add: bt_get_def bt_sorted_distinct map_of_eq_Some_iff)

interpretation bt: keyed_map bt_sorted bt_get bt_put bt_del "\<lambda>m. m"
  by unfold_locales (simp_all add: bt_sorted_distinct bt_get_items)

lemma card_bt: "bt_sorted m \<Longrightarrow> card (set m) = length m"
  by (rule distinct_card [OF bt.distinct_items])

lemma length_bt_put:
  "bt_sorted m \<Longrightarrow> length (bt_put k v m) = (if bt_has k m then length m else Suc (length m))"
  using bt.sum_put [of m "\<lambda>_. 1" k v] card_bt [of m] card_bt [of "bt_put k v m"]
  by (auto simp: bt_has_def)

lemma length_bt_del:
  "bt_sorted m \<Longrightarrow> length (bt_del k m) = (if bt_has k m then length m - 1 else length m)"
  using bt.sum_del [of m "\<lambda>_. 1" k] card_bt [of m] card_bt [of "bt_del k m"]
  by (auto simp: bt_has_def)

end
