(* ===== verification/Log_Tail.thy ===== *)
theory Log_Tail
  imports Prelude
begin

text \<open>
  Telling the torn tail of a log from damage inside it
  (\<open>crates/common/src/log_tail.rs\<close>). The search of \<open>whole_record_after\<close> reads the file
  through a sliding window; its lemmas show that it finds exactly the first offset at which
  the naive search over the whole file would stop.

  The locale \<open>record_log\<close> is the interface the logs of the program share (the block
  gateway's write journal and the metadata log of an OSD): a record codec and a scan that
  reads records until one does not parse. What its clients need is proved once: a scan
  returns the records that were written, whatever follows them, and a torn tail hides none.
\<close>

section \<open>Positional reads\<close>

definition read_exact_at :: "bytes \<Rightarrow> nat \<Rightarrow> nat \<Rightarrow> io_fault + bytes" where
  "read_exact_at src n offset =
     (if offset + n \<le> length src then Inr (take n (drop offset src)) else Inl UnexpectedEof)"

lemma read_exact_at_ok:
  "offset + n \<le> length src \<Longrightarrow> read_exact_at src n offset = Inr (take n (drop offset src))"
  by (simp add: read_exact_at_def)

lemma read_exact_at_append [wire]:
  "length xs = offset \<Longrightarrow> length ys = n \<Longrightarrow> read_exact_at (xs @ ys @ zs) n offset = Inr ys"
  by (auto simp: read_exact_at_def)

section \<open>The windowed search\<close>

definition WINDOW :: nat where
  "WINDOW = 2 ^ 20"

text \<open>
  The body of the loop over one window: the candidate at index \<open>i\<close> of the window that starts
  at \<open>start\<close>. \<open>Inr True\<close> when a whole record starts there.
\<close>

definition candidate ::
  "bytes \<Rightarrow> nat \<Rightarrow> nat \<Rightarrow> (nat \<Rightarrow> bytes \<Rightarrow> nat option) \<Rightarrow> (nat \<Rightarrow> bytes \<Rightarrow> bool) \<Rightarrow>
   bytes \<Rightarrow> nat \<Rightarrow> nat \<Rightarrow> io_fault + bool" where
  "candidate src len probe_len probe whole window start i =
     (let at = start + i;
          head = take (min (length window) (i + probe_len) - i) (drop i window)
      in case probe at head of
           None \<Rightarrow> Inr False
         | Some record_len \<Rightarrow>
             if record_len = 0 \<or> record_len > len - at then Inr False
             else if i + record_len \<le> length window
               then Inr (whole at (take record_len (drop i window)))
             else and_then (read_exact_at src record_len at) (\<lambda>record. Inr (whole at record)))"

fun search_window ::
  "bytes \<Rightarrow> nat \<Rightarrow> nat \<Rightarrow> (nat \<Rightarrow> bytes \<Rightarrow> nat option) \<Rightarrow> (nat \<Rightarrow> bytes \<Rightarrow> bool) \<Rightarrow>
   bytes \<Rightarrow> nat \<Rightarrow> nat list \<Rightarrow> io_fault + nat option" where
  "search_window src len probe_len probe whole window start [] = Inr None"
| "search_window src len probe_len probe whole window start (i # is) =
     and_then (candidate src len probe_len probe whole window start i) (\<lambda>ok.
       if ok then Inr (Some (start + i))
       else search_window src len probe_len probe whole window start is)"

function search_from ::
  "bytes \<Rightarrow> nat \<Rightarrow> nat \<Rightarrow> (nat \<Rightarrow> bytes \<Rightarrow> nat option) \<Rightarrow> (nat \<Rightarrow> bytes \<Rightarrow> bool) \<Rightarrow>
   nat \<Rightarrow> io_fault + nat option" where
  "search_from src len probe_len probe whole start =
     (if \<not> start < len then Inr None
      else
        let have' = len - start;
            candidates = min have' WINDOW
        in and_then (read_exact_at src (min have' (WINDOW + probe_len)) start) (\<lambda>window.
           and_then (search_window src len probe_len probe whole window start [0 ..< candidates])
             (\<lambda>found. case found of
                Some at \<Rightarrow> Inr (Some at)
              | None \<Rightarrow> search_from src len probe_len probe whole (start + candidates))))"
  by pat_completeness auto
termination
  by (relation "measure (\<lambda>(src, len, probe_len, probe, whole, start). len - start)")
    (auto simp: WINDOW_def)

declare search_from.simps [simp del]

definition whole_record_after ::
  "bytes \<Rightarrow> nat \<Rightarrow> nat \<Rightarrow> nat \<Rightarrow> (nat \<Rightarrow> bytes \<Rightarrow> nat option) \<Rightarrow> (nat \<Rightarrow> bytes \<Rightarrow> bool) \<Rightarrow>
   io_fault + nat option" where
  "whole_record_after src bad len probe_len probe whole =
     search_from src len probe_len probe whole (min (bad + 1) (2 ^ 64 - 1))"

section \<open>The search without windows\<close>

text \<open>A whole record starts at \<open>at\<close>: the specification of a candidate.\<close>

definition record_starts ::
  "bytes \<Rightarrow> nat \<Rightarrow> nat \<Rightarrow> (nat \<Rightarrow> bytes \<Rightarrow> nat option) \<Rightarrow> (nat \<Rightarrow> bytes \<Rightarrow> bool) \<Rightarrow> nat \<Rightarrow> bool" where
  "record_starts src len probe_len probe whole at =
     (case probe at (take probe_len (drop at (take len src))) of
        None \<Rightarrow> False
      | Some n \<Rightarrow> 0 < n \<and> n \<le> len - at \<and> whole at (take n (drop at src)))"

lemma take_drop_window:
  assumes "i + n \<le> k"
  shows "take n (drop i (take k xs)) = take n (drop i xs)"
  using assms by (simp add: drop_take min_def)

lemma candidate_correct:
  assumes len: "len \<le> length src" and start: "start < len" and i: "i < min (len - start) WINDOW"
    and w: "window = take (min (len - start) (WINDOW + probe_len)) (drop start src)"
  shows "candidate src len probe_len probe whole window start i =
    Inr (record_starts src len probe_len probe whole (start + i))"
proof -
  have lw: "length window = min (len - start) (WINDOW + probe_len)" using w len by simp
  have head: "take (min (length window) (i + probe_len) - i) (drop i window) =
      take probe_len (drop (start + i) (take len src))"
  proof -
    have "take (min (length window) (i + probe_len) - i) (drop i window) =
        take (min (len - start - i) probe_len) (drop (start + i) src)"
    proof -
      have n: "min (length window) (i + probe_len) - i = min (len - start - i) probe_len"
        using i unfolding lw by (auto simp: min_def)
      have "i + min (len - start - i) probe_len \<le> min (len - start) (WINDOW + probe_len)"
        using i by linarith
      then show ?thesis unfolding n unfolding w
        by (subst take_drop_window) (simp_all add: add.commute)
    qed
    also have "\<dots> = take probe_len (drop (start + i) (take len src))"
      by (simp add: drop_take take_take min.commute diff_diff_left)
    finally show ?thesis .
  qed
  have in_window: "take n (drop i window) = take n (drop (start + i) src)"
    if "i + n \<le> length window" for n
    using that unfolding lw unfolding w by (subst take_drop_window) (auto simp: add.commute)
  have at_file: "read_exact_at src n (start + i) = Inr (take n (drop (start + i) src))"
    if "n \<le> len - (start + i)" for n
    using that len i by (intro read_exact_at_ok) auto
  show ?thesis
    using in_window at_file
    by (auto simp: candidate_def record_starts_def head Let_def not_less split: option.split)
qed

lemma search_window_correct:
  assumes "\<And>i. i \<in> set is \<Longrightarrow>
    candidate src len probe_len probe whole window start i = Inr (Q (start + i))"
  shows "search_window src len probe_len probe whole window start is =
    Inr (find Q (map ((+) start) is))"
  using assms by (induction "is") auto

lemma map_plus_upt: "map ((+) s) [0 ..< n] = [s ..< s + n]"
  by (induction n) simp_all

lemma find_append: "find P (xs @ ys) = (case find P xs of None \<Rightarrow> find P ys | Some x \<Rightarrow> Some x)"
  by (induction xs) auto

lemma search_from_correct:
  assumes "len \<le> length src"
  shows "search_from src len probe_len probe whole start =
    Inr (find (record_starts src len probe_len probe whole) [start ..< len])"
  using assms
proof (induction "len - start" arbitrary: start rule: less_induct)
  case less
  show ?case
  proof (cases "start < len")
    case False
    then show ?thesis by (simp add: search_from.simps)
  next
    case True
    define c where "c = min (len - start) WINDOW"
    define window where "window = take (min (len - start) (WINDOW + probe_len)) (drop start src)"
    have c: "0 < c" "start + c \<le> len" using True by (auto simp: c_def WINDOW_def)
    have read: "read_exact_at src (min (len - start) (WINDOW + probe_len)) start = Inr window"
      unfolding window_def using True less.prems by (intro read_exact_at_ok) auto
    have win: "search_window src len probe_len probe whole window start [0 ..< c] =
        Inr (find (record_starts src len probe_len probe whole) [start ..< start + c])"
      using search_window_correct [of "[0 ..< c]" src len probe_len probe whole window start
          "record_starts src len probe_len probe whole"]
        candidate_correct [OF less.prems True _ window_def]
      by (simp add: c_def map_plus_upt)
    have rest: "search_from src len probe_len probe whole (start + c) =
        Inr (find (record_starts src len probe_len probe whole) [start + c ..< len])"
      using less.hyps [of "start + c"] c True less.prems by simp
    have "[start ..< len] = [start ..< start + c] @ [start + c ..< len]"
      using upt_add_eq_append [of start "start + c" "len - (start + c)"] c by simp
    then show ?thesis
      using True read win rest
      by (subst search_from.simps) (simp add: Let_def c_def [symmetric] find_append split: option.split)
  qed
qed

lemma whole_record_after_correct:
  assumes "len \<le> length src" and "bad + 1 < 2 ^ 64"
  shows "whole_record_after src bad len probe_len probe whole =
    Inr (find (record_starts src len probe_len probe whole) [bad + 1 ..< len])"
  using assms by (simp add: whole_record_after_def search_from_correct min_def)

section \<open>Logs of records\<close>

text \<open>
  What the bytes at some place of a log are: nothing that parses, a whole record of a kind this
  release does not know, or a whole record and its length.
\<close>

datatype 'r parsed = Torn | Foreign | Whole 'r nat

text \<open>
  Reading records until one does not parse: the records, the bytes they take, and whether it
  was an unknown record that ended the scan.
\<close>

function scan_records :: "(bytes \<Rightarrow> 'r parsed) \<Rightarrow> bytes \<Rightarrow> 'r list \<times> nat \<times> bool" where
  "scan_records parse bs =
     (case parse bs of
        Torn \<Rightarrow> ([], 0, False)
      | Foreign \<Rightarrow> ([], 0, True)
      | Whole r n \<Rightarrow>
          if n = 0 \<or> length bs < n then ([], 0, False)
          else (case scan_records parse (drop n bs) of (rs, m, foreign) \<Rightarrow> (r # rs, n + m, foreign)))"
  by pat_completeness auto
termination
  by (relation "measure (\<lambda>(parse, bs). length bs)") auto

declare scan_records.simps [simp del]

locale record_log =
  fixes parse :: "bytes \<Rightarrow> 'r parsed"
    and enc :: "'r \<Rightarrow> bytes"
    and wf :: "'r \<Rightarrow> bool"
  assumes parse_enc: "wf r \<Longrightarrow> parse (enc r @ rest) = Whole r (length (enc r))"
    and parse_Whole:
      "parse bs = Whole r n \<Longrightarrow> 0 < n \<and> n \<le> length bs \<and> wf r \<and> enc r = take n bs"
    and parse_Foreign: "parse bs = Foreign \<Longrightarrow> parse (bs @ rest) = Foreign"
begin

lemma enc_not_Nil: "wf r \<Longrightarrow> enc r \<noteq> []"
  using parse_Whole [of "enc r" r "length (enc r)"] parse_enc [of r "[]"] by auto

lemma scan_Cons:
  assumes "wf r"
  shows "scan_records parse (enc r @ bs) =
    (case scan_records parse bs of (rs, m, foreign) \<Rightarrow> (r # rs, length (enc r) + m, foreign))"
  using assms parse_enc enc_not_Nil by (subst scan_records.simps) simp

lemma scan_written:
  assumes "list_all wf rs"
  shows "scan_records parse (concat (map enc rs) @ bs) =
    (case scan_records parse bs of
       (rs', m, foreign) \<Rightarrow> (rs @ rs', length (concat (map enc rs)) + m, foreign))"
  using assms
proof (induction rs)
  case Nil
  then show ?case by (simp split: prod.split)
next
  case (Cons r rs)
  then show ?case by (simp add: scan_Cons split: prod.split)
qed

lemma scan_sound:
  "scan_records parse bs = (rs, m, foreign) \<Longrightarrow>
   list_all wf rs \<and> m \<le> length bs \<and> concat (map enc rs) = take m bs"
proof (induction "length bs" arbitrary: bs rs m rule: less_induct)
  case less
  show ?case
  proof (cases "parse bs")
    case (Whole r n)
    then have n: "0 < n" "n \<le> length bs" "wf r" "enc r = take n bs" using parse_Whole by blast+
    obtain rs' m' where rest: "scan_records parse (drop n bs) = (rs', m', foreign)"
      and rs: "rs = r # rs'" "m = n + m'"
      using less.prems Whole n by (subst (asm) scan_records.simps) (auto split: prod.splits)
    have "list_all wf rs' \<and> m' \<le> length (drop n bs) \<and> concat (map enc rs') = take m' (drop n bs)"
      by (rule less.hyps [OF _ rest]) (use n in auto)
    then show ?thesis using n rs by (auto simp: take_add)
  qed (use less.prems in \<open>subst (asm) scan_records.simps, auto\<close>)+
qed

lemma scan_ends:
  assumes "scan_records parse bs = (rs, m, foreign)"
  shows "parse (drop m bs) = (if foreign then Foreign else Torn)"
  using assms
proof (induction "length bs" arbitrary: bs rs m rule: less_induct)
  case less
  show ?case
  proof (cases "parse bs")
    case (Whole r n)
    then have n: "0 < n" "n \<le> length bs" using parse_Whole by blast+
    obtain rs' m' where rest: "scan_records parse (drop n bs) = (rs', m', foreign)"
      and rs: "m = n + m'"
      using less.prems Whole n by (subst (asm) scan_records.simps) (auto split: prod.splits)
    show ?thesis using less.hyps [OF _ rest] n rs by (simp add: add.commute)
  qed (use less.prems in \<open>subst (asm) scan_records.simps, auto\<close>)+
qed

text \<open>A file that keeps the bytes of the written records keeps the records.\<close>

lemma scan_prefix:
  assumes "list_all wf rs" and "take (length (concat (map enc rs))) bs = concat (map enc rs)"
  shows "\<exists>rs' m foreign. scan_records parse bs = (rs @ rs', m, foreign) \<and>
    length (concat (map enc rs)) \<le> m"
proof -
  have "bs = concat (map enc rs) @ drop (length (concat (map enc rs))) bs"
    using append_take_drop_id [of "length (concat (map enc rs))" bs] assms(2) by simp
  with scan_written [OF assms(1), of "drop (length (concat (map enc rs))) bs"] show ?thesis
    by (cases "scan_records parse (drop (length (concat (map enc rs))) bs)") auto
qed

text \<open>A record cut short is never taken for a whole or an unknown one.\<close>

lemma parse_torn:
  assumes "wf r" and "k < length (enc r)"
  shows "parse (take k (enc r)) = Torn"
proof (cases "parse (take k (enc r))")
  case (Whole r' n)
  then have r': "n \<le> length (take k (enc r))" "wf r'" "enc r' = take n (take k (enc r))"
    using parse_Whole by blast+
  then have "parse (enc r' @ drop (length (enc r')) (enc r)) = Whole r' (length (enc r'))"
    by (intro parse_enc)
  moreover have "enc r' @ drop (length (enc r')) (enc r) = enc r"
    using r' assms(2) by (auto simp: min_def)
  ultimately have "length (enc r') = length (enc r)"
    using parse_enc [OF assms(1), of "[]"] by simp
  then show ?thesis using r' assms(2) by simp
next
  case Foreign
  then have "parse (take k (enc r) @ drop k (enc r)) = Foreign" by (rule parse_Foreign)
  then show ?thesis using parse_enc [OF assms(1), of "[]"] by simp
qed

lemma scan_torn:
  assumes "list_all wf rs" and "wf r" and "k < length (enc r)"
  shows "scan_records parse (concat (map enc rs) @ take k (enc r)) =
    (rs, length (concat (map enc rs)), False)"
  using scan_written [OF assms(1), of "take k (enc r)"] parse_torn [OF assms(2,3)]
  by (simp add: scan_records.simps [of parse "take k (enc r)"])

lemma scan_whole:
  assumes "list_all wf rs" and "parse [] = Torn"
  shows "scan_records parse (concat (map enc rs)) = (rs, length (concat (map enc rs)), False)"
  using scan_written [OF assms(1), of "[]"] assms(2) by (simp add: scan_records.simps [of parse "[]"])

end

end
