(* ===== verification/Block_Journal.thy ===== *)
theory Block_Journal
  imports Log_Tail
begin

text \<open>
  The write-ahead journal of the block gateway (\<open>crates/block/src/journal.rs\<close>): the entry
  codec, the scan that reads a journal back, opening it after a crash, appending to it, group
  commit and rotation. The checksum \<open>crc32c\<close> comes from a third-party crate and is the
  parameter \<open>crc\<close> of every definition that computes one.
\<close>

section \<open>Entries\<close>

definition JOURNAL_MAGIC :: nat where
  "JOURNAL_MAGIC = 0x4F424A5F4A524E4C"

definition JOURNAL_VERSION :: nat where
  "JOURNAL_VERSION = 1"

datatype entry_type = EtWrite | EtFlush | EtCheckpoint

fun entry_type_byte :: "entry_type \<Rightarrow> byte" where
  "entry_type_byte EtWrite = 1"
| "entry_type_byte EtFlush = 2"
| "entry_type_byte EtCheckpoint = 3"

datatype journal_fault =
    Journal_io io_fault
  | Invalid_entry_type byte
  | Invalid_volume_id
  | Unknown_entry nat byte
  | Damaged nat nat
  | Not_whole nat
  | Invalid_magic
  | Unsupported_version nat
  | Entry_too_large
  | Journal_closed
  | Takes_no_writes
  | Write_failed
  | No_room
  | Sync_failed
  | Os_failed

definition entry_type_try_from :: "byte \<Rightarrow> journal_fault + entry_type" where
  "entry_type_try_from v =
     (if v = 1 then Inr EtWrite
      else if v = 2 then Inr EtFlush
      else if v = 3 then Inr EtCheckpoint
      else Inl (Invalid_entry_type v))"

record journal_entry =
  je_sequence :: nat
  je_entry_type :: entry_type
  je_volume_id :: string
  je_chunk_id :: nat
  je_offset :: nat
  je_data :: "bytes option"
  je_checksum :: nat

definition checksum_with_type :: "(bytes \<Rightarrow> 32 word) \<Rightarrow> journal_entry \<Rightarrow> byte \<Rightarrow> nat" where
  "checksum_with_type crc e t =
     unat (crc (le_bytes 8 (je_sequence e) @ [t] @ as_bytes (je_volume_id e) @
                le_bytes 8 (je_chunk_id e) @ le_bytes 8 (je_offset e) @
                (case je_data e of None \<Rightarrow> [] | Some d \<Rightarrow> d)))"

definition compute_checksum :: "(bytes \<Rightarrow> 32 word) \<Rightarrow> journal_entry \<Rightarrow> nat" where
  "compute_checksum crc e = checksum_with_type crc e (entry_type_byte (je_entry_type e))"

definition verify :: "(bytes \<Rightarrow> 32 word) \<Rightarrow> journal_entry \<Rightarrow> bool" where
  "verify crc e \<longleftrightarrow> je_checksum e = compute_checksum crc e"

definition write_entry ::
  "(bytes \<Rightarrow> 32 word) \<Rightarrow> nat \<Rightarrow> string \<Rightarrow> nat \<Rightarrow> nat \<Rightarrow> bytes \<Rightarrow> journal_entry" where
  "write_entry crc sequence volume_id chunk_id offset data =
     (let e = \<lparr>je_sequence = sequence, je_entry_type = EtWrite, je_volume_id = volume_id,
               je_chunk_id = chunk_id, je_offset = offset, je_data = Some data, je_checksum = 0\<rparr>
      in e\<lparr>je_checksum := compute_checksum crc e\<rparr>)"

definition flush_entry :: "(bytes \<Rightarrow> 32 word) \<Rightarrow> nat \<Rightarrow> string \<Rightarrow> nat \<Rightarrow> journal_entry" where
  "flush_entry crc sequence volume_id chunk_id =
     (let e = \<lparr>je_sequence = sequence, je_entry_type = EtFlush, je_volume_id = volume_id,
               je_chunk_id = chunk_id, je_offset = 0, je_data = None, je_checksum = 0\<rparr>
      in e\<lparr>je_checksum := compute_checksum crc e\<rparr>)"

definition checkpoint_entry :: "(bytes \<Rightarrow> 32 word) \<Rightarrow> nat \<Rightarrow> journal_entry" where
  "checkpoint_entry crc sequence =
     (let e = \<lparr>je_sequence = sequence, je_entry_type = EtCheckpoint, je_volume_id = [],
               je_chunk_id = 0, je_offset = 0, je_data = None, je_checksum = 0\<rparr>
      in e\<lparr>je_checksum := compute_checksum crc e\<rparr>)"

definition serialize :: "journal_entry \<Rightarrow> bytes" where
  "serialize e =
     le_bytes 8 (je_sequence e) @ [entry_type_byte (je_entry_type e)] @
     le_bytes 2 (as_u16 (length (as_bytes (je_volume_id e)))) @ as_bytes (je_volume_id e) @
     le_bytes 8 (je_chunk_id e) @ le_bytes 8 (je_offset e) @
     (case je_data e of
        Some data \<Rightarrow> le_bytes 4 (as_u32 (length data)) @ data
      | None \<Rightarrow> le_bytes 4 0) @
     le_bytes 4 (je_checksum e)"

text \<open>\<open>read_exact\<close> with the error wrapped as the reader wraps it.\<close>

definition read_field :: "nat \<Rightarrow> bytes \<Rightarrow> (bytes \<Rightarrow> bytes \<Rightarrow> journal_fault + 'a) \<Rightarrow> journal_fault + 'a" where
  "read_field n r k =
     (case read_exact n r of Inl e \<Rightarrow> Inl (Journal_io e) | Inr (buf, r') \<Rightarrow> k buf r')"

text \<open>
  The type byte, the entry (its own type a placeholder), and what is left of the reader.
\<close>

definition read_raw :: "bytes \<Rightarrow> journal_fault + (byte \<times> journal_entry \<times> bytes)" where
  "read_raw r =
     read_field 8 r (\<lambda>seq_buf r.
     read_field 1 r (\<lambda>type_buf r.
     read_field 2 r (\<lambda>vol_len_buf r.
     read_field (from_le vol_len_buf) r (\<lambda>vol_buf r.
     case from_utf8 vol_buf of
       None \<Rightarrow> Inl Invalid_volume_id
     | Some volume_id \<Rightarrow>
         read_field 8 r (\<lambda>chunk_buf r.
         read_field 8 r (\<lambda>offset_buf r.
         read_field 4 r (\<lambda>data_len_buf r.
         let data_len = from_le data_len_buf;
             finish = (\<lambda>data r. read_field 4 r (\<lambda>crc_buf r.
               Inr (hd type_buf,
                    \<lparr>je_sequence = from_le seq_buf, je_entry_type = EtWrite,
                     je_volume_id = volume_id, je_chunk_id = from_le chunk_buf,
                     je_offset = from_le offset_buf, je_data = data,
                     je_checksum = from_le crc_buf\<rparr>, r)))
         in if 0 < data_len then read_field data_len r (\<lambda>data_buf r. finish (Some data_buf) r)
            else finish None r)))))))"

definition deserialize :: "bytes \<Rightarrow> journal_fault + (journal_entry \<times> bytes)" where
  "deserialize r =
     and_then (read_raw r) (\<lambda>(t, e, r'). and_then (entry_type_try_from t) (\<lambda>ty.
       Inr (e\<lparr>je_entry_type := ty\<rparr>, r')))"

section \<open>Sizes\<close>

definition HEADER_LEN :: nat where
  "HEADER_LEN = 8 + 4 + 8 + 8"

definition ENTRY_PREFIX :: nat where
  "ENTRY_PREFIX = 8 + 1 + 2"

definition ENTRY_MIDDLE :: nat where
  "ENTRY_MIDDLE = 8 + 8 + 4"

definition MIN_ENTRY :: nat where
  "MIN_ENTRY = ENTRY_PREFIX + ENTRY_MIDDLE + 4"

definition MAX_ENTRY_DATA :: nat where
  "MAX_ENTRY_DATA = 64 * 2 ^ 20"

definition PROBE_LEN :: nat where
  "PROBE_LEN = ENTRY_PREFIX + 65535 + ENTRY_MIDDLE"

definition entry_len_at :: "bytes \<Rightarrow> nat \<Rightarrow> nat \<Rightarrow> io_fault + nat option" where
  "entry_len_at src offset remaining =
     (if remaining < MIN_ENTRY then Inr None
      else
        and_then (read_exact_at src ENTRY_PREFIX offset) (\<lambda>prefix.
          let vol_len = from_le [prefix ! 9, prefix ! 10];
              data_len_at = ENTRY_PREFIX + ENTRY_MIDDLE - 4 + vol_len
          in if data_len_at + 8 > remaining then Inr None
             else
               and_then (read_exact_at src 4 (offset + data_len_at)) (\<lambda>buf.
                 let data_len = from_le buf;
                     total = data_len_at + 4 + data_len + 4
                 in if data_len > MAX_ENTRY_DATA then Inr None
                    else Inr (if total \<le> remaining then Some total else None))))"

lemmas journal_sizes =
  HEADER_LEN_def ENTRY_PREFIX_def ENTRY_MIDDLE_def MIN_ENTRY_def PROBE_LEN_def

lemma entry_len_at_bounds:
  "entry_len_at src offset remaining = Inr (Some n) \<Longrightarrow> MIN_ENTRY \<le> n \<and> n \<le> remaining"
  by (auto simp: entry_len_at_def and_then_eq_Inr_iff Let_def journal_sizes split: if_splits)

section \<open>The codec\<close>

definition entry_payload :: "journal_entry \<Rightarrow> bytes" where
  "entry_payload e = (case je_data e of None \<Rightarrow> [] | Some d \<Rightarrow> d)"

text \<open>The bytes of an entry with a type byte of any value.\<close>

definition entry_bytes :: "byte \<Rightarrow> journal_entry \<Rightarrow> bytes" where
  "entry_bytes t e =
     le_bytes 8 (je_sequence e) @ [t] @ le_bytes 2 (length (je_volume_id e)) @
     as_bytes (je_volume_id e) @ le_bytes 8 (je_chunk_id e) @ le_bytes 8 (je_offset e) @
     le_bytes 4 (length (entry_payload e)) @ entry_payload e @ le_bytes 4 (je_checksum e)"

text \<open>The values the fields of an entry read from bytes can have.\<close>

definition entry_fields_ok :: "journal_entry \<Rightarrow> bool" where
  "entry_fields_ok e \<longleftrightarrow>
     je_sequence e < 2 ^ 64 \<and> je_chunk_id e < 2 ^ 64 \<and> je_offset e < 2 ^ 64 \<and>
     je_checksum e < 2 ^ 32 \<and> length (je_volume_id e) < 2 ^ 16 \<and> is_string (je_volume_id e) \<and>
     je_data e \<noteq> Some [] \<and> length (entry_payload e) < 2 ^ 32"

text \<open>An entry that \<open>append\<close> takes and the scan returns.\<close>

definition entry_ok :: "(bytes \<Rightarrow> 32 word) \<Rightarrow> journal_entry \<Rightarrow> bool" where
  "entry_ok crc e \<longleftrightarrow>
     entry_fields_ok e \<and> length (entry_payload e) \<le> MAX_ENTRY_DATA \<and> verify crc e"

lemma serialize_entry_bytes:
  assumes "length (je_volume_id e) < 2 ^ 16" and "length (entry_payload e) < 2 ^ 32"
  shows "serialize e = entry_bytes (entry_type_byte (je_entry_type e)) e"
  using assms by (auto simp: serialize_def entry_bytes_def entry_payload_def split: option.split)

lemma length_entry_bytes [wire]:
  "length (entry_bytes t e) = MIN_ENTRY + length (je_volume_id e) + length (entry_payload e)"
  by (simp add: entry_bytes_def journal_sizes)

lemma read_field_append [wire]: "length xs = n \<Longrightarrow> read_field n (xs @ r) k = k xs r"
  by (simp add: read_field_def)

lemma read_field_eq_Inr_iff:
  "read_field n r k = Inr x \<longleftrightarrow> (\<exists>xs r'. r = xs @ r' \<and> length xs = n \<and> k xs r' = Inr x)"
proof
  assume "read_field n r k = Inr x"
  then show "\<exists>xs r'. r = xs @ r' \<and> length xs = n \<and> k xs r' = Inr x"
    by (intro exI [of _ "take n r"] exI [of _ "drop n r"])
      (auto simp: read_field_def read_exact_def split: if_splits)
qed (auto simp: read_field_append)

lemma read_raw_entry_bytes:
  assumes "entry_fields_ok e"
  shows "read_raw (entry_bytes t e @ r) = Inr (t, e\<lparr>je_entry_type := EtWrite\<rparr>, r)"
proof -
  have one: "read_field (Suc 0) (t # r) k = k [t] r"
    for r and k :: "bytes \<Rightarrow> bytes \<Rightarrow> journal_fault + (byte \<times> journal_entry \<times> bytes)"
    using read_field_append [of "[t]" "Suc 0" r k] by simp
  show ?thesis
  proof (cases "je_data e")
    case None
    with assms show ?thesis
      by (simp add: read_raw_def entry_bytes_def read_field_append one entry_fields_ok_def
          entry_payload_def Let_def)
  next
    case (Some d)
    with assms show ?thesis
      by (simp add: read_raw_def entry_bytes_def read_field_append one entry_fields_ok_def
          entry_payload_def Let_def)
  qed
qed

lemma le_bytes_of:
  "length bs = k \<Longrightarrow> le_bytes k (from_le bs) = bs \<and> from_le bs < 256 ^ k"
  using le_bytes_from_le from_le_bound by blast

lemma read_raw_Inr:
  assumes "read_raw bs = Inr (t, e, r)"
  shows "bs = entry_bytes t e @ r \<and> entry_fields_ok e \<and> je_entry_type e = EtWrite"
proof -
  obtain s ty vl vb c ob dl q v where
    bs: "bs = s @ ty @ vl @ vb @ c @ ob @ dl @ q" and
    len: "length s = 8" "length ty = 1" "length vl = 2" "length vb = from_le vl"
      "length c = 8" "length ob = 8" "length dl = 4" and
    v: "from_utf8 vb = Some v" and
    q: "(if 0 < from_le dl then read_field (from_le dl) q (\<lambda>d q. read_field 4 q (\<lambda>x q.
           Inr (hd ty, \<lparr>je_sequence = from_le s, je_entry_type = EtWrite, je_volume_id = v,
             je_chunk_id = from_le c, je_offset = from_le ob, je_data = Some d,
             je_checksum = from_le x\<rparr>, q)))
         else read_field 4 q (\<lambda>x q.
           Inr (hd ty, \<lparr>je_sequence = from_le s, je_entry_type = EtWrite, je_volume_id = v,
             je_chunk_id = from_le c, je_offset = from_le ob, je_data = None,
             je_checksum = from_le x\<rparr>, q))) = Inr (t, e, r)"
    using assms unfolding read_raw_def Let_def
    by (auto simp: read_field_eq_Inr_iff split: option.splits)
  have vb: "vb = as_bytes v" "is_string v" using v by (auto simp: from_utf8_eq_Some_iff)
  have ty: "ty = [hd ty]" using len(2) by (cases ty) auto
  have le: "le_bytes 8 (from_le s) = s" "le_bytes 8 (from_le c) = c" "le_bytes 8 (from_le ob) = ob"
    "le_bytes 4 (from_le dl) = dl" "le_bytes 2 (length v) = vl"
    using len vb le_bytes_of by (metis length_as_bytes)+
  have bound: "from_le s < 2 ^ 64" "from_le c < 2 ^ 64" "from_le ob < 2 ^ 64"
    "from_le dl < 2 ^ 32" "length v < 2 ^ 16"
    using from_le_bound [of s] from_le_bound [of c] from_le_bound [of ob] from_le_bound [of dl]
      from_le_bound [of vl] len vb by (simp_all)
  show ?thesis
  proof (cases "0 < from_le dl")
    case True
    then obtain d x where "q = d @ x @ r" "length d = from_le dl" "length x = 4" and
      "t = hd ty" "e = \<lparr>je_sequence = from_le s, je_entry_type = EtWrite, je_volume_id = v,
        je_chunk_id = from_le c, je_offset = from_le ob, je_data = Some d, je_checksum = from_le x\<rparr>"
      using q by (auto simp: read_field_eq_Inr_iff)
    then show ?thesis
      using bs ty le bound vb True le_bytes_of [of x 4]
      by (auto simp: entry_bytes_def entry_fields_ok_def entry_payload_def)
  next
    case False
    then obtain x where "q = x @ r" "length x = 4" and
      "t = hd ty" "e = \<lparr>je_sequence = from_le s, je_entry_type = EtWrite, je_volume_id = v,
        je_chunk_id = from_le c, je_offset = from_le ob, je_data = None, je_checksum = from_le x\<rparr>"
      using q by (auto simp: read_field_eq_Inr_iff)
    then show ?thesis
      using bs ty le bound vb False le_bytes_of [of x 4]
      by (auto simp: entry_bytes_def entry_fields_ok_def entry_payload_def)
  qed
qed

text \<open>\<open>entry_len_at\<close> sees only the bytes it is told remain.\<close>

lemma entry_len_at_shift:
  assumes "offset + remaining \<le> length src"
  shows "entry_len_at src offset remaining =
    entry_len_at (take remaining (drop offset src)) 0 (length (take remaining (drop offset src)))"
proof -
  let ?b = "take remaining (drop offset src)"
  have len: "length ?b = remaining" using assms by simp
  have rd: "read_exact_at src n (offset + k) = read_exact_at ?b n k" if "k + n \<le> remaining" for k n
    using that assms
    by (simp add: read_exact_at_def take_drop_window add.commute add.left_commute)
  have "read_exact_at src ENTRY_PREFIX offset = read_exact_at ?b ENTRY_PREFIX 0"
    if "MIN_ENTRY \<le> remaining"
    using rd [of 0 ENTRY_PREFIX] that by (simp add: journal_sizes)
  then show ?thesis
    unfolding entry_len_at_def len
    by (intro if_cong refl and_then_cong) (auto simp: Let_def rd intro!: and_then_cong)
qed

lemma entry_len_at_entry_bytes:
  assumes "length (je_volume_id e) < 2 ^ 16" and "length (entry_payload e) < 2 ^ 32"
    and bs: "bs = entry_bytes t e @ r"
  shows "entry_len_at bs 0 (length bs) =
    Inr (if length (entry_payload e) \<le> MAX_ENTRY_DATA then Some (length (entry_bytes t e)) else None)"
proof -
  let ?v = "length (je_volume_id e)" and ?p = "length (entry_payload e)"
  have len: "length bs = 35 + ?v + ?p + length r" by (simp add: bs length_entry_bytes journal_sizes)
  have bs': "bs = (le_bytes 8 (je_sequence e) @ [t] @ le_bytes 2 ?v) @
      (as_bytes (je_volume_id e) @ le_bytes 8 (je_chunk_id e) @ le_bytes 8 (je_offset e) @
      le_bytes 4 ?p @ entry_payload e @ le_bytes 4 (je_checksum e) @ r)"
    by (simp add: bs entry_bytes_def)
  have prefix: "read_exact_at bs 11 0 = Inr (le_bytes 8 (je_sequence e) @ [t] @ le_bytes 2 ?v)"
    unfolding bs' by (simp add: read_exact_at_def)
  have vol: "from_le [(le_bytes 8 (je_sequence e) @ [t] @ le_bytes 2 ?v) ! 9,
      (le_bytes 8 (je_sequence e) @ [t] @ le_bytes 2 ?v) ! 10] = ?v"
  proof -
    have "[le_bytes 2 ?v ! 0, le_bytes 2 ?v ! 1] = le_bytes 2 ?v"
      by (simp add: numeral_2_eq_2)
    then have "from_le [le_bytes 2 ?v ! 0, le_bytes 2 ?v ! 1] = ?v" using assms(1) by simp
    then show ?thesis by (simp add: nth_append)
  qed
  have bs'': "bs = (le_bytes 8 (je_sequence e) @ [t] @ le_bytes 2 ?v @ as_bytes (je_volume_id e) @
      le_bytes 8 (je_chunk_id e) @ le_bytes 8 (je_offset e)) @
      le_bytes 4 ?p @ entry_payload e @ le_bytes 4 (je_checksum e) @ r"
    by (simp add: bs entry_bytes_def)
  have dlen: "read_exact_at bs 4 (27 + ?v) = Inr (le_bytes 4 ?p)"
    unfolding bs'' by (rule read_exact_at_append) simp_all
  show ?thesis
    using prefix vol dlen assms(2)
    by (simp add: entry_len_at_def Let_def len journal_sizes length_entry_bytes del: from_le.simps)
qed

text \<open>
  What the scan makes of the bytes at some place of the journal: the specification of one turn
  of its loop.
\<close>

definition journal_parse :: "(bytes \<Rightarrow> 32 word) \<Rightarrow> bytes \<Rightarrow> journal_entry parsed" where
  "journal_parse crc bs =
     (case entry_len_at bs 0 (length bs) of
        Inr (Some n) \<Rightarrow>
          (case read_raw (take n bs) of
             Inl _ \<Rightarrow> Torn
           | Inr (t, e, _) \<Rightarrow>
               if je_checksum e \<noteq> checksum_with_type crc e t then Torn
               else (case entry_type_try_from t of
                       Inl _ \<Rightarrow> Foreign
                     | Inr ty \<Rightarrow> Whole (e\<lparr>je_entry_type := ty\<rparr>) n))
      | _ \<Rightarrow> Torn)"

lemma entry_type_try_from_byte [simp]: "entry_type_try_from (entry_type_byte ty) = Inr ty"
  by (cases ty) (simp_all add: entry_type_try_from_def)

lemma entry_type_try_from_Inr:
  "entry_type_try_from t = Inr ty \<longleftrightarrow> t = entry_type_byte ty"
  by (cases ty) (auto simp: entry_type_try_from_def)

lemma entry_type_update_simps [simp]:
  "entry_payload (e\<lparr>je_entry_type := ty\<rparr>) = entry_payload e"
  "entry_bytes t (e\<lparr>je_entry_type := ty\<rparr>) = entry_bytes t e"
  "checksum_with_type crc (e\<lparr>je_entry_type := ty\<rparr>) t = checksum_with_type crc e t"
  "entry_fields_ok (e\<lparr>je_entry_type := ty\<rparr>) = entry_fields_ok e"
  by (simp_all add: entry_payload_def entry_bytes_def checksum_with_type_def entry_fields_ok_def)

text \<open>The bytes that parse as something are those of one entry.\<close>

lemma journal_parse_bytes:
  assumes "entry_len_at bs 0 (length bs) = Inr (Some n)" and "read_raw (take n bs) = Inr (t, e, r)"
  shows "take n bs = entry_bytes t e \<and> n = length (entry_bytes t e) \<and> n \<le> length bs \<and>
    entry_fields_ok e \<and> length (entry_payload e) \<le> MAX_ENTRY_DATA"
proof -
  have e: "take n bs = entry_bytes t e @ r" "entry_fields_ok e" using read_raw_Inr [OF assms(2)] by auto
  have n: "n \<le> length bs" using entry_len_at_bounds [OF assms(1)] by simp
  have "bs = entry_bytes t e @ r @ drop n bs" using e(1) append_take_drop_id [of n bs] by simp
  then have "entry_len_at bs 0 (length bs) =
    Inr (if length (entry_payload e) \<le> MAX_ENTRY_DATA then Some (length (entry_bytes t e)) else None)"
    using e(2) by (intro entry_len_at_entry_bytes) (auto simp: entry_fields_ok_def)
  with assms(1) have "n = length (entry_bytes t e)" "length (entry_payload e) \<le> MAX_ENTRY_DATA"
    by (auto split: if_splits)
  moreover then have "length r = 0" using e(1) n by (metis add_diff_cancel_left' diff_self_eq_0 length_append length_take min.absorb2)
  ultimately show ?thesis using e n by simp
qed

lemma entry_ok_fields:
  "entry_ok crc e \<Longrightarrow> serialize e = entry_bytes (entry_type_byte (je_entry_type e)) e"
  by (auto simp: entry_ok_def entry_fields_ok_def intro!: serialize_entry_bytes)

lemma journal_parse_serialize:
  assumes ok: "entry_ok crc e"
  shows "journal_parse crc (serialize e @ rest) = Whole e (length (serialize e))"
proof -
  let ?t = "entry_type_byte (je_entry_type e)"
  have ser: "serialize e = entry_bytes ?t e" by (rule entry_ok_fields [OF ok])
  have "entry_len_at (serialize e @ rest) 0 (length (serialize e @ rest)) =
      Inr (Some (length (serialize e)))"
    using ok entry_len_at_entry_bytes [of e "serialize e @ rest" ?t rest]
    by (simp add: ser entry_ok_def entry_fields_ok_def)
  moreover have "read_raw (serialize e) = Inr (?t, e\<lparr>je_entry_type := EtWrite\<rparr>, [])"
    using read_raw_entry_bytes [of e ?t "[]"] ok by (simp add: ser entry_ok_def)
  moreover have "je_checksum e = checksum_with_type crc e ?t"
    using ok by (simp add: entry_ok_def verify_def compute_checksum_def)
  ultimately show ?thesis by (simp add: journal_parse_def)
qed

lemma journal_parse_Whole:
  assumes "journal_parse crc bs = Whole e n"
  shows "0 < n \<and> n \<le> length bs \<and> entry_ok crc e \<and> serialize e = take n bs"
proof -
  obtain t e' r ty where
    p: "entry_len_at bs 0 (length bs) = Inr (Some n)" "read_raw (take n bs) = Inr (t, e', r)"
      "je_checksum e' = checksum_with_type crc e' t" "entry_type_try_from t = Inr ty"
      "e = e'\<lparr>je_entry_type := ty\<rparr>"
    using assms by (auto simp: journal_parse_def split: sum.splits option.splits if_splits prod.splits)
  have b: "take n bs = entry_bytes t e'" "n \<le> length bs" "entry_fields_ok e'"
    "length (entry_payload e') \<le> MAX_ENTRY_DATA"
    using journal_parse_bytes [OF p(1,2)] by auto
  have t: "t = entry_type_byte ty" using p(4) by (simp add: entry_type_try_from_Inr)
  have ok: "entry_ok crc e"
    using b p(3,5) t by (simp add: entry_ok_def verify_def compute_checksum_def)
  moreover have "serialize e = take n bs" using entry_ok_fields [OF ok] b p(5) t by simp
  moreover have "0 < n" using entry_len_at_bounds [OF p(1)] by (simp add: journal_sizes)
  ultimately show ?thesis using b by simp
qed

lemma journal_parse_Foreign:
  assumes "journal_parse crc bs = Foreign"
  shows "journal_parse crc (bs @ rest) = Foreign"
proof -
  obtain n t e r f where
    p: "entry_len_at bs 0 (length bs) = Inr (Some n)" "read_raw (take n bs) = Inr (t, e, r)"
      "je_checksum e = checksum_with_type crc e t" "entry_type_try_from t = Inl f"
    using assms by (auto simp: journal_parse_def split: sum.splits option.splits if_splits prod.splits)
  have b: "take n bs = entry_bytes t e" "n = length (entry_bytes t e)" "n \<le> length bs"
    "entry_fields_ok e" "length (entry_payload e) \<le> MAX_ENTRY_DATA"
    using journal_parse_bytes [OF p(1,2)] by auto
  have "bs @ rest = entry_bytes t e @ drop n bs @ rest"
    using b(1) append_take_drop_id [of n bs] by (metis append.assoc)
  then have "entry_len_at (bs @ rest) 0 (length (bs @ rest)) = Inr (Some n)"
    using b entry_len_at_entry_bytes [of e "bs @ rest" t "drop n bs @ rest"]
    by (simp add: entry_fields_ok_def)
  moreover have "read_raw (take n (bs @ rest)) = Inr (t, e, r)" using p(2) b(3) by simp
  ultimately show ?thesis using p(3,4) by (simp add: journal_parse_def)
qed

interpretation journal: record_log "journal_parse crc" serialize "entry_ok crc"
  by unfold_locales
    (use journal_parse_serialize journal_parse_Whole journal_parse_Foreign in blast)+

section \<open>Reading a journal\<close>

text \<open>
  The scan from \<open>offset\<close> on: the entries given to the callback, in order, and where the last
  whole one ends.
\<close>

function scan_from ::
  "(bytes \<Rightarrow> 32 word) \<Rightarrow> bytes \<Rightarrow> nat \<Rightarrow> nat \<Rightarrow> journal_fault + (journal_entry list \<times> nat)" where
  "scan_from crc file len offset =
     (if \<not> offset < len then Inr ([], min offset len)
      else case entry_len_at file offset (len - offset) of
        Inl e \<Rightarrow> Inl (Journal_io e)
      | Inr None \<Rightarrow> Inr ([], min offset len)
      | Inr (Some entry_len) \<Rightarrow>
          (case read_exact_at file entry_len offset of
             Inl e \<Rightarrow> Inl (Journal_io e)
           | Inr bs \<Rightarrow>
               (case read_raw bs of
                  Inl _ \<Rightarrow> Inr ([], min offset len)
                | Inr (t, entry, _) \<Rightarrow>
                    if je_checksum entry \<noteq> checksum_with_type crc entry t
                    then Inr ([], min offset len)
                    else (case entry_type_try_from t of
                            Inl _ \<Rightarrow> Inl (Unknown_entry (je_sequence entry) t)
                          | Inr ty \<Rightarrow>
                              and_then (scan_from crc file len (offset + entry_len)) (\<lambda>(es, end').
                                Inr (entry\<lparr>je_entry_type := ty\<rparr> # es, end'))))))"
  by pat_completeness auto
termination
  by (relation "measure (\<lambda>(crc, file, len, offset). len - offset)")
    (auto dest!: entry_len_at_bounds simp: journal_sizes)

declare scan_from.simps [simp del]

definition scan ::
  "(bytes \<Rightarrow> 32 word) \<Rightarrow> bytes \<Rightarrow> nat \<Rightarrow> journal_fault + (journal_entry list \<times> nat)" where
  "scan crc file len = scan_from crc file len HEADER_LEN"

definition header_bytes :: "nat \<Rightarrow> nat \<Rightarrow> bytes" where
  "header_bytes sequence checkpoint =
     le_bytes 8 JOURNAL_MAGIC @ le_bytes 4 JOURNAL_VERSION @ le_bytes 8 sequence @
     le_bytes 8 checkpoint"

definition read_header :: "bytes \<Rightarrow> journal_fault + (nat \<times> nat)" where
  "read_header file =
     read_field 8 file (\<lambda>magic_buf r.
     if from_le magic_buf \<noteq> JOURNAL_MAGIC then Inl Invalid_magic
     else read_field 4 r (\<lambda>version_buf r.
     if from_le version_buf \<noteq> JOURNAL_VERSION then Inl (Unsupported_version (from_le version_buf))
     else read_field 8 r (\<lambda>seq_buf r.
     read_field 8 r (\<lambda>checkpoint_buf r.
     Inr (from_le seq_buf, from_le checkpoint_buf)))))"

text \<open>The two closures of \<open>refuse_damage\<close>.\<close>

definition damage_probe :: "nat \<Rightarrow> nat \<Rightarrow> nat \<Rightarrow> bytes \<Rightarrow> nat option" where
  "damage_probe len sequence at head =
     (let most = min (sequence + len div MIN_ENTRY) (2 ^ 64 - 1) in
      if length head < 8 then None
      else
        let seq = from_le (take 8 head) in
        if seq < sequence \<or> seq > most then None
        else (case entry_len_at head 0 (len - at) of Inl _ \<Rightarrow> None | Inr n \<Rightarrow> n))"

definition damage_whole :: "(bytes \<Rightarrow> 32 word) \<Rightarrow> nat \<Rightarrow> bytes \<Rightarrow> bool" where
  "damage_whole crc at bs =
     (case read_raw bs of
        Inl _ \<Rightarrow> False
      | Inr (t, entry, _) \<Rightarrow> je_checksum entry = checksum_with_type crc entry t)"

definition refuse_damage ::
  "(bytes \<Rightarrow> 32 word) \<Rightarrow> bytes \<Rightarrow> nat \<Rightarrow> nat \<Rightarrow> nat \<Rightarrow> journal_fault + unit" where
  "refuse_damage crc file bad len sequence =
     (case whole_record_after file bad len PROBE_LEN (damage_probe len sequence) (damage_whole crc) of
        Inl e \<Rightarrow> Inl (Journal_io e)
      | Inr None \<Rightarrow> Inr ()
      | Inr (Some at) \<Rightarrow> Inl (Damaged bad at))"

text \<open>The callback of \<open>recover\<close>: the writes after the last checkpoint.\<close>

fun keep_unflushed :: "journal_entry list \<Rightarrow> journal_entry \<Rightarrow> journal_entry list" where
  "keep_unflushed entries e =
     (case je_entry_type e of
        EtCheckpoint \<Rightarrow> []
      | EtWrite \<Rightarrow> entries @ [e]
      | EtFlush \<Rightarrow> entries)"

definition unflushed :: "journal_entry list \<Rightarrow> journal_entry list" where
  "unflushed es = foldl keep_unflushed [] es"

section \<open>The file and the disk\<close>

text \<open>
  A file: its bytes as the operating system has them, and how long a prefix of them is on
  stable storage. A handle: where its next write goes, unless it was opened to append.
\<close>

record disk_file =
  df_bytes :: bytes
  df_stable :: nat

record file_handle =
  fh_cursor :: nat
  fh_append :: bool

text \<open>
  The journal's name: the file under it, and the files (or their absence) that a power cut can
  still bring back there, because the directory was not synced since they were replaced.
\<close>

record journal_disk =
  jd_named :: "disk_file option"
  jd_replaced :: "disk_file option list"

definition file_write :: "file_handle \<Rightarrow> bytes \<Rightarrow> disk_file \<Rightarrow> file_handle \<times> disk_file" where
  "file_write h data f =
     (let pos = (if fh_append h then length (df_bytes f) else fh_cursor h);
          bs = df_bytes f @ replicate (pos - length (df_bytes f)) 0
      in (h\<lparr>fh_cursor := pos + length data\<rparr>,
          \<lparr>df_bytes = take pos bs @ data @ drop (pos + length data) bs,
           df_stable = min (df_stable f) pos\<rparr>))"

definition file_set_len :: "nat \<Rightarrow> disk_file \<Rightarrow> disk_file" where
  "file_set_len n f =
     \<lparr>df_bytes = resize n 0 (df_bytes f), df_stable = min (df_stable f) n\<rparr>"

definition file_sync :: "disk_file \<Rightarrow> disk_file" where
  "file_sync f = f\<lparr>df_stable := length (df_bytes f)\<rparr>"

definition disk_rename :: "disk_file \<Rightarrow> journal_disk \<Rightarrow> journal_disk" where
  "disk_rename new d = \<lparr>jd_named = Some new, jd_replaced = jd_named d # jd_replaced d\<rparr>"

definition disk_sync_dir :: "journal_disk \<Rightarrow> journal_disk" where
  "disk_sync_dir d = d\<lparr>jd_replaced := []\<rparr>"

text \<open>
  What a power cut can leave of a file, and under the name: the stable prefix, and anything at
  all after it.
\<close>

definition file_image :: "disk_file option \<Rightarrow> bytes option \<Rightarrow> bool" where
  "file_image f b =
     (case (f, b) of
        (None, None) \<Rightarrow> True
      | (Some f, Some b) \<Rightarrow>
          df_stable f \<le> length b \<and> take (df_stable f) b = take (df_stable f) (df_bytes f)
      | _ \<Rightarrow> False)"

definition crash_image :: "journal_disk \<Rightarrow> bytes option \<Rightarrow> bool" where
  "crash_image d b \<longleftrightarrow> (\<exists>f \<in> set (jd_named d # jd_replaced d). file_image f b)"

text \<open>The disk as the machine finds it when it comes up again.\<close>

definition disk_after_crash :: "bytes option \<Rightarrow> journal_disk" where
  "disk_after_crash b =
     \<lparr>jd_named = map_option (\<lambda>bs. \<lparr>df_bytes = bs, df_stable = length bs\<rparr>) b, jd_replaced = []\<rparr>"

section \<open>The scan reads the entries back\<close>

lemma scan_from_step:
  assumes "len \<le> length file" and "offset < len"
  shows "scan_from crc file len offset =
    (case entry_len_at (drop offset (take len file)) 0 (length (drop offset (take len file))) of
       Inl e \<Rightarrow> Inl (Journal_io e)
     | Inr None \<Rightarrow> Inr ([], offset)
     | Inr (Some n) \<Rightarrow>
         (case read_raw (take n (drop offset (take len file))) of
            Inl _ \<Rightarrow> Inr ([], offset)
          | Inr (t, e, _) \<Rightarrow>
              if je_checksum e \<noteq> checksum_with_type crc e t then Inr ([], offset)
              else (case entry_type_try_from t of
                      Inl _ \<Rightarrow> Inl (Unknown_entry (je_sequence e) t)
                    | Inr ty \<Rightarrow>
                        and_then (scan_from crc file len (offset + n)) (\<lambda>(es, end').
                          Inr (e\<lparr>je_entry_type := ty\<rparr> # es, end')))))"
proof -
  have bs: "drop offset (take len file) = take (len - offset) (drop offset file)"
    by (simp add: drop_take)
  have el: "entry_len_at file offset (len - offset) = entry_len_at (drop offset (take len file)) 0
      (length (drop offset (take len file)))"
    unfolding bs using assms by (intro entry_len_at_shift) simp
  have rd: "read_exact_at file n offset = Inr (take n (drop offset (take len file)))"
    if "n \<le> length (drop offset (take len file))" for n
  proof -
    have "n \<le> len - offset" "offset + n \<le> length file" using that assms by simp_all
    then show ?thesis unfolding bs by (simp add: read_exact_at_def)
  qed
  have mn: "min offset len = offset" using assms by simp
  note unfold = scan_from.simps [of crc "file" len offset, unfolded el mn]
  show ?thesis
  proof (cases "entry_len_at (drop offset (take len file)) 0 (length (drop offset (take len file)))")
    case (Inl e)
    then show ?thesis using assms by (subst unfold) simp
  next
    case (Inr o')
    show ?thesis
    proof (cases o')
      case None
      then show ?thesis using assms Inr by (subst unfold) simp
    next
      case (Some n)
      have "n \<le> length (drop offset (take len file))"
        using entry_len_at_bounds Inr Some by blast
      from rd [OF this] show ?thesis using assms Inr Some by (subst unfold) simp
    qed
  qed
qed

lemma entry_len_at_no_fault:
  "entry_len_at bs 0 (length bs) \<noteq> Inl e"
  by (auto simp: entry_len_at_def read_exact_at_def Let_def journal_sizes)

lemma scan_from_records:
  assumes "len \<le> length file" and "offset \<le> len"
    and "scan_records (journal_parse crc) (drop offset (take len file)) = (es, m, foreign)"
  shows "(\<not> foreign \<longrightarrow> scan_from crc file len offset = Inr (es, offset + m)) \<and>
    (foreign \<longrightarrow> (\<exists>s t. scan_from crc file len offset = Inl (Unknown_entry s t)))"
  using assms(2,3)
proof (induction "len - offset" arbitrary: offset es m rule: less_induct)
  case less
  let ?bs = "drop offset (take len file)"
  show ?case
  proof (cases "offset < len")
    case False
    have "journal_parse crc [] = Torn"
      by (simp add: journal_parse_def entry_len_at_def journal_sizes)
    then show ?thesis
      using less.prems False
      by (subst scan_from.simps) (auto simp: scan_records.simps [of _ "[]"])
  next
    case True
    note step = scan_from_step [OF assms(1) True, of crc]
    show ?thesis
    proof (cases "journal_parse crc ?bs")
      case Torn
      then have "scan_from crc file len offset = Inr ([], offset)"
        using entry_len_at_no_fault [of ?bs]
        by (subst step) (auto simp: journal_parse_def split: sum.splits option.splits if_splits)
      with Torn less.prems show ?thesis by (subst (asm) scan_records.simps) simp
    next
      case Foreign
      then have "\<exists>s t. scan_from crc file len offset = Inl (Unknown_entry s t)"
        by (subst step) (auto simp: journal_parse_def split: sum.splits option.splits if_splits)
      with Foreign less.prems show ?thesis by (subst (asm) scan_records.simps) simp
    next
      case (Whole e n)
      have n: "0 < n" "n \<le> length ?bs" using journal.parse_Whole [OF Whole] by auto
      have off: "offset + n \<le> len" using n(2) assms(1) less.prems(1) by auto
      obtain es' m' where rest:
          "scan_records (journal_parse crc) (drop (offset + n) (take len file)) = (es', m', foreign)"
        and es: "es = e # es'" "m = n + m'"
        using less.prems(2) Whole n
        by (subst (asm) scan_records.simps) (auto simp: add.commute split: prod.splits)
      have now: "scan_from crc file len offset = and_then (scan_from crc file len (offset + n))
          (\<lambda>(es, end'). Inr (e # es, end'))"
        using Whole
        by (subst step) (auto simp: journal_parse_def split: sum.splits option.splits if_splits)
      have "len - (offset + n) < len - offset" using n True by simp
      note IH = less.hyps [OF this off rest]
      show ?thesis
      proof (cases foreign)
        case False
        with IH now es show ?thesis by simp
      next
        case True
        with IH obtain s t where "scan_from crc file len (offset + n) = Inl (Unknown_entry s t)"
          by blast
        with now True show ?thesis by simp
      qed
    qed
  qed
qed

lemma journal_scan_written:
  assumes "file = header @ concat (map serialize es) @ tail" and "length header = HEADER_LEN"
    and "list_all (entry_ok crc) es" and "len = HEADER_LEN + length (concat (map serialize es))"
  shows "scan crc file len = Inr (es, len)"
proof -
  have d: "drop HEADER_LEN (take len file) = concat (map serialize es)" using assms by simp
  have "journal_parse crc [] = Torn"
    by (simp add: journal_parse_def entry_len_at_def journal_sizes)
  then have "scan_records (journal_parse crc) (drop HEADER_LEN (take len file)) =
      (es, length (concat (map serialize es)), False)"
    unfolding d using assms(3) by (rule journal.scan_whole [rotated])
  from scan_from_records [OF _ _ this] assms show ?thesis by (simp add: scan_def)
qed

lemma read_header_bytes [simp]:
  "s < 2 ^ 64 \<Longrightarrow> c < 2 ^ 64 \<Longrightarrow> read_header (header_bytes s c @ r) = Inr (s, c)"
  by (simp add: read_header_def header_bytes_def read_field_append JOURNAL_MAGIC_def
      JOURNAL_VERSION_def)

lemma length_header_bytes [simp, wire]: "length (header_bytes s c) = HEADER_LEN"
  by (simp add: header_bytes_def journal_sizes)

end
