(* ===== verification/Journal_State.thy ===== *)
theory Journal_State
  imports Block_Journal
begin

text \<open>
  The open journal, \<open>WriteJournal\<close> of \<open>crates/block/src/journal.rs\<close>: opening, appending,
  syncing, recovering and rotating, with every failure of the operating system as a branch.

  The outcome of each system call an operation makes is an argument of the definition: a
  function from the calls to whether they succeed, and for a write how many bytes of it reached
  the file before it failed. The locks make each operation atomic, apart from the group commit
  of \<open>sync_to\<close>, whose sync runs while appends go on: it is cut into the steps that other
  threads can come between.
\<close>

datatype os_call =
    Create_dir | Open_file | Stat | Reopen | Set_len | Sync_cut | Clone_handle
  | Create_new | Write_header | Sync_new | Rename | Sync_dir | Sync_data

datatype write_result = Wrote | Short nat bool

datatype cut_result = Cut_ok | Cut_stat_failed | Cut_set_len_failed | Cut_seek_failed

record write_journal =
  wj_writer :: "file_handle option"
  wj_sequence :: nat
  wj_synced :: nat
  wj_syncer :: bool
  wj_fsyncs :: nat
  wj_last_checkpoint :: nat
  wj_max_size :: nat
  wj_current_size :: nat
  wj_failed :: bool

section \<open>Opening\<close>

definition new_journal :: "(os_call \<Rightarrow> bool) \<Rightarrow> nat \<Rightarrow> journal_fault + disk_file" where
  "new_journal os sequence =
     (if \<not> os Create_new then Inl Os_failed
      else if \<not> os Write_header then Inl Os_failed
      else if \<not> os Sync_new then Inl Os_failed
      else Inr (file_sync \<lparr>df_bytes = header_bytes sequence sequence, df_stable = 0\<rparr>))"

definition opened ::
  "(os_call \<Rightarrow> bool) \<Rightarrow> nat \<Rightarrow> file_handle \<Rightarrow> nat \<Rightarrow> nat \<Rightarrow> nat \<Rightarrow> journal_fault + write_journal" where
  "opened os max_size file sequence last_checkpoint current_size =
     (if \<not> os Clone_handle then Inl Os_failed
      else Inr \<lparr>wj_writer = Some file, wj_sequence = sequence, wj_synced = sequence,
                wj_syncer = True, wj_fsyncs = 0, wj_last_checkpoint = last_checkpoint,
                wj_max_size = max_size, wj_current_size = current_size, wj_failed = False\<rparr>)"

text \<open>An existing journal of \<open>len > 0\<close> bytes.\<close>

definition open_existing ::
  "(bytes \<Rightarrow> 32 word) \<Rightarrow> (os_call \<Rightarrow> bool) \<Rightarrow> nat \<Rightarrow> disk_file \<Rightarrow> journal_disk \<Rightarrow>
   (journal_fault + write_journal) \<times> journal_disk" where
  "open_existing crc os max_size f d =
     (let bs = df_bytes f; len = length bs in
      case read_header bs of
        Inl e \<Rightarrow> (Inl e, d)
      | Inr (sequence, checkpoint) \<Rightarrow>
          (case scan crc bs len of
             Inl e \<Rightarrow> (Inl e, d)
           | Inr (_, end') \<Rightarrow>
               (case (if end' < len then refuse_damage crc bs end' len sequence else Inr ()) of
                  Inl e \<Rightarrow> (Inl e, d)
                | Inr _ \<Rightarrow>
                    if \<not> os Reopen then (Inl Os_failed, d)
                    else
                      let h = \<lparr>fh_cursor = 0, fh_append = True\<rparr> in
                      if end' < len then
                        if \<not> os Set_len then (Inl Os_failed, d)
                        else
                          let g = file_set_len end' f in
                          if \<not> os Sync_cut then (Inl Os_failed, d\<lparr>jd_named := Some g\<rparr>)
                          else (opened os max_size h sequence checkpoint end',
                                d\<lparr>jd_named := Some (file_sync g)\<rparr>)
                      else (opened os max_size h sequence checkpoint end', d))))"

definition open_fresh ::
  "(os_call \<Rightarrow> bool) \<Rightarrow> nat \<Rightarrow> journal_disk \<Rightarrow> (journal_fault + write_journal) \<times> journal_disk" where
  "open_fresh os max_size d =
     (case new_journal os 0 of
        Inl e \<Rightarrow> (Inl e, d)
      | Inr f \<Rightarrow>
          if \<not> os Rename then (Inl Os_failed, d)
          else
            let d' = disk_rename f d in
            if \<not> os Sync_dir then (Inl Os_failed, d')
            else (opened os max_size \<lparr>fh_cursor = HEADER_LEN, fh_append = False\<rparr> 0 0 HEADER_LEN,
                  disk_sync_dir d'))"

definition open_journal ::
  "(bytes \<Rightarrow> 32 word) \<Rightarrow> (os_call \<Rightarrow> bool) \<Rightarrow> nat \<Rightarrow> journal_disk \<Rightarrow>
   (journal_fault + write_journal) \<times> journal_disk" where
  "open_journal crc os max_size d =
     (if \<not> os Create_dir then (Inl Os_failed, d)
      else if jd_named d \<noteq> None \<and> \<not> os Open_file then (Inl Os_failed, d)
      else if jd_named d \<noteq> None \<and> \<not> os Stat then (Inl Os_failed, d)
      else case jd_named d of
             Some f \<Rightarrow>
               if 0 < length (df_bytes f) then open_existing crc os max_size f d
               else open_fresh os max_size d
           | None \<Rightarrow> open_fresh os max_size d)"

section \<open>Appending\<close>

definition fail :: "write_journal \<Rightarrow> write_journal" where
  "fail j = j\<lparr>wj_failed := True\<rparr>"

definition check :: "write_journal \<Rightarrow> journal_fault + unit" where
  "check j = (if wj_failed j then Inl Takes_no_writes else Inr ())"

text \<open>The cut of a write there was no room for: the file, the handle, and whether it worked.\<close>

definition cut_back ::
  "cut_result \<Rightarrow> nat \<Rightarrow> file_handle \<Rightarrow> disk_file \<Rightarrow> bool \<times> file_handle \<times> disk_file" where
  "cut_back cutr start h f =
     (if cutr = Cut_stat_failed then (False, h, f)
      else if length (df_bytes f) < start then (False, h, f)
      else if cutr = Cut_set_len_failed then (False, h, f)
      else if cutr = Cut_seek_failed then (False, h, file_set_len start f)
      else (True, h\<lparr>fh_cursor := start\<rparr>, file_set_len start f))"

definition write_failed ::
  "bool \<Rightarrow> cut_result \<Rightarrow> nat \<Rightarrow> file_handle \<Rightarrow> disk_file \<Rightarrow> write_journal \<Rightarrow>
   journal_fault \<times> write_journal \<times> disk_file" where
  "write_failed no_space cutr start h f j =
     (if \<not> no_space then (Write_failed, fail (j\<lparr>wj_writer := Some h\<rparr>), f)
      else case cut_back cutr start h f of
             (True, h', f') \<Rightarrow> (No_room, j\<lparr>wj_writer := Some h'\<rparr>, f')
           | (False, h', f') \<Rightarrow> (Write_failed, fail (j\<lparr>wj_writer := Some h'\<rparr>), f'))"

text \<open>The file the journal's handles refer to is the one under its name.\<close>

definition append_entry ::
  "write_result \<Rightarrow> cut_result \<Rightarrow> journal_entry \<Rightarrow> write_journal \<Rightarrow> disk_file \<Rightarrow>
   (journal_fault + nat) \<times> write_journal \<times> disk_file" where
  "append_entry wr cutr entry j f =
     (if (case je_data entry of None \<Rightarrow> False | Some d \<Rightarrow> length d > MAX_ENTRY_DATA) \<or>
         \<not> length (je_volume_id entry) < 2 ^ 16
      then (Inl Entry_too_large, j, f)
      else
        let data = serialize entry in
        case check j of
          Inl e \<Rightarrow> (Inl e, j, f)
        | Inr _ \<Rightarrow>
            (case wj_writer j of
               None \<Rightarrow> (Inl Journal_closed, j, f)
             | Some h \<Rightarrow>
                 let start = wj_current_size j in
                 (case wr of
                    Short n no_space \<Rightarrow>
                      (case file_write h (take n data) f of (h', f') \<Rightarrow>
                         case write_failed no_space cutr start h' f' j of
                           (e, j', f'') \<Rightarrow> (Inl e, j', f''))
                  | Wrote \<Rightarrow>
                      (case file_write h data f of (h', f') \<Rightarrow>
                         (Inr (wj_sequence j),
                          j\<lparr>wj_writer := Some h',
                            wj_current_size := u64_add start (length data),
                            wj_sequence := u64_add (wj_sequence j) 1\<rparr>,
                          f')))))"

definition log_write ::
  "(bytes \<Rightarrow> 32 word) \<Rightarrow> write_result \<Rightarrow> cut_result \<Rightarrow> string \<Rightarrow> nat \<Rightarrow> nat \<Rightarrow> bytes \<Rightarrow>
   write_journal \<Rightarrow> disk_file \<Rightarrow> (journal_fault + nat) \<times> write_journal \<times> disk_file" where
  "log_write crc wr cutr volume_id chunk_id offset data j f =
     append_entry wr cutr (write_entry crc (wj_sequence j) volume_id chunk_id offset data) j f"

definition log_flush ::
  "(bytes \<Rightarrow> 32 word) \<Rightarrow> write_result \<Rightarrow> cut_result \<Rightarrow> string \<Rightarrow> nat \<Rightarrow>
   write_journal \<Rightarrow> disk_file \<Rightarrow> (journal_fault + nat) \<times> write_journal \<times> disk_file" where
  "log_flush crc wr cutr volume_id chunk_id j f =
     append_entry wr cutr (flush_entry crc (wj_sequence j) volume_id chunk_id) j f"

definition checkpoint ::
  "(bytes \<Rightarrow> 32 word) \<Rightarrow> write_result \<Rightarrow> cut_result \<Rightarrow> write_journal \<Rightarrow> disk_file \<Rightarrow>
   (journal_fault + nat) \<times> write_journal \<times> disk_file" where
  "checkpoint crc wr cutr j f =
     (case append_entry wr cutr (checkpoint_entry crc (wj_sequence j)) j f of
        (Inl e, j', f') \<Rightarrow> (Inl e, j', f')
      | (Inr result, j', f') \<Rightarrow>
          (Inr result, j'\<lparr>wj_last_checkpoint := wj_sequence j\<rparr>, f'))"

section \<open>Recovery and rotation\<close>

definition recover ::
  "(bytes \<Rightarrow> 32 word) \<Rightarrow> (os_call \<Rightarrow> bool) \<Rightarrow> write_journal \<Rightarrow> disk_file option \<Rightarrow>
   journal_fault + journal_entry list" where
  "recover crc os j named =
     (case named of
        None \<Rightarrow> Inl Os_failed
      | Some f \<Rightarrow>
          if \<not> os Open_file then Inl Os_failed
          else
            let len = wj_current_size j in
            and_then (scan crc (df_bytes f) len) (\<lambda>(es, end').
              if end' < len then Inl (Not_whole end') else Inr (unflushed es)))"

definition needs_rotation :: "write_journal \<Rightarrow> bool" where
  "needs_rotation j \<longleftrightarrow> wj_current_size j > wj_max_size j"

definition rotate ::
  "(os_call \<Rightarrow> bool) \<Rightarrow> write_journal \<Rightarrow> journal_disk \<Rightarrow>
   (journal_fault + unit) \<times> write_journal \<times> journal_disk" where
  "rotate os j d =
     (case check j of
        Inl e \<Rightarrow> (Inl e, j, d)
      | Inr _ \<Rightarrow>
          let seq = wj_sequence j in
          (case new_journal os seq of
             Inl e \<Rightarrow> (Inl e, j, d)
           | Inr file \<Rightarrow>
               if \<not> os Clone_handle then (Inl Os_failed, j, d)
               else if \<not> os Rename then (Inl Os_failed, j, d)
               else
                 let d' = disk_rename file d;
                     j' = j\<lparr>wj_writer := Some \<lparr>fh_cursor = HEADER_LEN, fh_append = False\<rparr>,
                            wj_syncer := True, wj_last_checkpoint := seq,
                            wj_current_size := HEADER_LEN\<rparr>
                 in if \<not> os Sync_dir then (Inl Sync_failed, fail j', d')
                    else (Inr (), j', disk_sync_dir d')))"

section \<open>Group commit\<close>

text \<open>
  \<open>sync_to\<close> up to its sync: it is already covered, it refuses, or it takes the sync lock with
  the target it read.
\<close>

datatype sync_entry = Covered | Refused journal_fault | Sync_target nat

definition sync_enter :: "nat \<Rightarrow> write_journal \<Rightarrow> sync_entry" where
  "sync_enter up_to j =
     (if wj_synced j \<ge> up_to then Covered
      else case check j of
             Inl e \<Rightarrow> Refused e
           | Inr _ \<Rightarrow> Sync_target (wj_sequence j))"

text \<open>The sync itself, and what follows it.\<close>

definition sync_run ::
  "bool \<Rightarrow> write_journal \<Rightarrow> disk_file \<Rightarrow> (journal_fault + unit) \<times> write_journal \<times> disk_file" where
  "sync_run ok j f =
     (if wj_syncer j then
        if \<not> ok then (Inl Sync_failed, fail j, f)
        else (Inr (), j\<lparr>wj_fsyncs := u64_add (wj_fsyncs j) 1\<rparr>, file_sync f)
      else (Inr (), j, f))"

definition sync_publish :: "nat \<Rightarrow> write_journal \<Rightarrow> write_journal" where
  "sync_publish target j = j\<lparr>wj_synced := max (wj_synced j) target\<rparr>"

definition sync_to ::
  "bool \<Rightarrow> nat \<Rightarrow> write_journal \<Rightarrow> disk_file \<Rightarrow> (journal_fault + unit) \<times> write_journal \<times> disk_file" where
  "sync_to ok up_to j f =
     (case sync_enter up_to j of
        Covered \<Rightarrow> (Inr (), j, f)
      | Refused e \<Rightarrow> (Inl e, j, f)
      | Sync_target target \<Rightarrow>
          (case sync_run ok j f of
             (Inl e, j', f') \<Rightarrow> (Inl e, j', f')
           | (Inr _, j', f') \<Rightarrow> (Inr (), sync_publish target j', f')))"

definition sync :: "bool \<Rightarrow> write_journal \<Rightarrow> disk_file \<Rightarrow>
   (journal_fault + unit) \<times> write_journal \<times> disk_file" where
  "sync ok j f =
     (case check j of
        Inl e \<Rightarrow> (Inl e, j, f)
      | Inr _ \<Rightarrow> sync_to ok (wj_sequence j) j f)"

section \<open>What a journal file holds\<close>

definition entries_bytes :: "journal_entry list \<Rightarrow> bytes" where
  "entries_bytes es = concat (map serialize es)"

lemma entries_bytes_simps [simp]:
  "entries_bytes [] = []"
  "entries_bytes (es @ es') = entries_bytes es @ entries_bytes es'"
  "entries_bytes [e] = serialize e"
  by (simp_all add: entries_bytes_def)

text \<open>
  \<open>holds crc es f\<close>: the file is a header and the whole entries \<open>es\<close>, and nothing else;
  \<open>starts_with crc es bs\<close>: it is a header, the entries, and anything.
\<close>

definition is_header :: "bytes \<Rightarrow> bool" where
  "is_header h \<longleftrightarrow> (\<exists>s c. s < 2 ^ 64 \<and> c < 2 ^ 64 \<and> h = header_bytes s c)"

lemma is_header_length: "is_header h \<Longrightarrow> length h = HEADER_LEN"
  by (auto simp: is_header_def)

lemma is_header_bytes: "s < 2 ^ 64 \<Longrightarrow> c < 2 ^ 64 \<Longrightarrow> is_header (header_bytes s c)"
  by (auto simp: is_header_def)

definition starts_with :: "(bytes \<Rightarrow> 32 word) \<Rightarrow> journal_entry list \<Rightarrow> bytes \<Rightarrow> bool" where
  "starts_with crc es bs \<longleftrightarrow>
     list_all (entry_ok crc) es \<and>
     (\<exists>h tail. is_header h \<and> bs = h @ entries_bytes es @ tail)"

definition journal_len :: "journal_entry list \<Rightarrow> nat" where
  "journal_len es = HEADER_LEN + length (entries_bytes es)"

lemma starts_with_length: "starts_with crc es bs \<Longrightarrow> journal_len es \<le> length bs"
  by (auto simp: starts_with_def journal_len_def is_header_length)

lemma starts_with_header: "s < 2 ^ 64 \<Longrightarrow> c < 2 ^ 64 \<Longrightarrow> starts_with crc [] (header_bytes s c)"
  unfolding starts_with_def
  by (intro conjI exI [of _ "header_bytes s c"] exI [of _ "[]"]) (simp_all add: is_header_bytes)

lemma scan_starts_with:
  assumes "starts_with crc es bs"
  shows "scan crc bs (journal_len es) = Inr (es, journal_len es)"
  using assms
  by (auto simp: starts_with_def entries_bytes_def journal_len_def is_header_length
      intro!: journal_scan_written)

lemma starts_with_extend:
  assumes "starts_with crc es bs" and "length bs = journal_len es" and "entry_ok crc e"
  shows "starts_with crc (es @ [e]) (bs @ serialize e)"
proof -
  obtain h where "is_header h" "bs = h @ entries_bytes es" "list_all (entry_ok crc) es"
    using assms by (auto simp: starts_with_def journal_len_def is_header_length)
  with assms(3) show ?thesis unfolding starts_with_def by (intro conjI exI [of _ h] exI [of _ "[]"]) auto
qed

lemma starts_with_append: "starts_with crc es bs \<Longrightarrow> starts_with crc es (bs @ tail)"
  by (auto simp: starts_with_def)

lemma starts_with_take:
  assumes "starts_with crc es bs" and "journal_len es \<le> n"
  shows "starts_with crc es (take n bs)"
proof -
  obtain h tail where "is_header h" "bs = h @ entries_bytes es @ tail" "list_all (entry_ok crc) es"
    using assms(1) by (auto simp: starts_with_def)
  with assms(2) show ?thesis
    unfolding starts_with_def journal_len_def
    by (intro conjI exI [of _ h] exI [of _ "take (n - journal_len es) tail"])
      (auto simp: is_header_length journal_len_def)
qed

lemma starts_with_prefix:
  "starts_with crc (es @ es') bs \<Longrightarrow> starts_with crc es bs"
  by (auto simp: starts_with_def)

text \<open>Bytes that agree up to the end of the entries hold them too.\<close>

lemma starts_with_agree:
  assumes "starts_with crc es bs" and "journal_len es \<le> n" and "take n bs' = take n bs"
  shows "starts_with crc es bs'"
proof -
  have "starts_with crc es (take n bs')" using starts_with_take [OF assms(1,2)] assms(3) by simp
  then show ?thesis using starts_with_append [of crc es "take n bs'" "drop n bs'"] by simp
qed

text \<open>A journal that is read and found to hold whole entries, up to where the scan stopped.\<close>

lemma scan_Inr:
  assumes "read_header bs = Inr (s, c)" and "scan crc bs (length bs) = Inr (es, end')"
  shows "starts_with crc es bs \<and> end' = journal_len es \<and> s < 2 ^ 64 \<and> c < 2 ^ 64"
proof -
  obtain m v q r where bs: "bs = m @ v @ q @ r @ drop HEADER_LEN bs"
    and len: "length m = 8" "length v = 4" "length q = 8" "length r = 8"
    and mv: "from_le m = JOURNAL_MAGIC" "from_le v = JOURNAL_VERSION" "from_le q = s" "from_le r = c"
    using assms(1)
    by (auto simp: read_header_def read_field_eq_Inr_iff journal_sizes split: if_splits)
  have sc: "s < 2 ^ 64" "c < 2 ^ 64" using from_le_bound [of q] from_le_bound [of r] len mv by auto
  have hd: "bs = header_bytes s c @ drop HEADER_LEN bs"
    using bs le_bytes_from_le [OF len(1)] le_bytes_from_le [OF len(2)] le_bytes_from_le [OF len(3)]
      le_bytes_from_le [OF len(4)] by (simp add: header_bytes_def flip: mv)
  then have hl: "HEADER_LEN \<le> length bs" by (metis length_header_bytes length_append le_add1)
  obtain es' k foreign where
    rec: "scan_records (journal_parse crc) (drop HEADER_LEN bs) = (es', k, foreign)"
    using prod_cases3 by blast
  have sf: "(\<not> foreign \<longrightarrow> scan crc bs (length bs) = Inr (es', HEADER_LEN + k)) \<and>
    (foreign \<longrightarrow> (\<exists>s t. scan crc bs (length bs) = Inl (Unknown_entry s t)))"
    unfolding scan_def by (rule scan_from_records) (use hl rec in auto)
  then have eq: "es' = es" "end' = HEADER_LEN + k" using assms(2) by (cases foreign; auto)+
  from journal.scan_sound [OF rec] have "list_all (entry_ok crc) es" "k \<le> length (drop HEADER_LEN bs)"
    "entries_bytes es = take k (drop HEADER_LEN bs)"
    by (auto simp: eq entries_bytes_def)
  moreover from this have "bs = header_bytes s c @ entries_bytes es @ drop k (drop HEADER_LEN bs)"
    using hd by (simp only: append_take_drop_id)
  ultimately show ?thesis using sc eq is_header_bytes [OF sc] by (auto simp: starts_with_def journal_len_def)
qed

section \<open>The invariant of an open journal\<close>

text \<open>
  The file holds a header and the whole entries \<open>es\<close>; the size the journal counts is where
  they end; and while the journal has not failed the file ends there too and that is where the
  next write goes.
\<close>

definition writes_at_end :: "nat \<Rightarrow> write_journal \<Rightarrow> bool" where
  "writes_at_end n j \<longleftrightarrow>
     (case wj_writer j of None \<Rightarrow> True | Some h \<Rightarrow> fh_append h \<or> fh_cursor h = n)"

definition journal_inv ::
  "(bytes \<Rightarrow> 32 word) \<Rightarrow> journal_entry list \<Rightarrow> write_journal \<Rightarrow> disk_file \<Rightarrow> bool" where
  "journal_inv crc es j f \<longleftrightarrow>
     starts_with crc es (df_bytes f) \<and> wj_current_size j = journal_len es \<and>
     df_stable f \<le> length (df_bytes f) \<and>
     (\<not> wj_failed j \<longrightarrow>
        length (df_bytes f) = journal_len es \<and> writes_at_end (journal_len es) j)"

lemma journal_invD:
  assumes "journal_inv crc es j f"
  shows "starts_with crc es (df_bytes f)" "wj_current_size j = journal_len es"
    "df_stable f \<le> length (df_bytes f)"
  using assms by (auto simp: journal_inv_def)

lemma file_write_at_end:
  assumes "length (df_bytes f) = n" and "fh_append h \<or> fh_cursor h = n" and "df_stable f \<le> n"
  shows "file_write h data f =
    (h\<lparr>fh_cursor := n + length data\<rparr>, \<lparr>df_bytes = df_bytes f @ data, df_stable = df_stable f\<rparr>)"
  using assms by (auto simp: file_write_def Let_def)

lemma file_set_len_cut:
  assumes "length bs = n" and "k \<le> n"
  shows "file_set_len n \<lparr>df_bytes = bs @ tail, df_stable = k\<rparr> =
    \<lparr>df_bytes = bs, df_stable = k\<rparr>"
  using assms by (simp add: file_set_len_def resize_def)

definition too_large :: "journal_entry \<Rightarrow> bool" where
  "too_large e \<longleftrightarrow>
     (case je_data e of None \<Rightarrow> False | Some d \<Rightarrow> length d > MAX_ENTRY_DATA) \<or>
     \<not> length (je_volume_id e) < 2 ^ 16"

lemma append_entry_refused:
  assumes "too_large e \<or> wj_failed j \<or> wj_writer j = None"
  shows "append_entry wr cutr e j f =
    (Inl (if too_large e then Entry_too_large else if wj_failed j then Takes_no_writes
          else Journal_closed), j, f)"
  unfolding append_entry_def too_large_def [symmetric]
  using assms by (cases "too_large e"; cases "wj_failed j"; simp add: check_def Let_def)

lemma append_entry_live:
  assumes "\<not> too_large e" and "\<not> wj_failed j" and "wj_writer j = Some h"
  shows "append_entry wr cutr e j f =
    (case wr of
       Short n no_space \<Rightarrow>
         (case file_write h (take n (serialize e)) f of (h', f') \<Rightarrow>
            case write_failed no_space cutr (wj_current_size j) h' f' j of
              (x, j', f'') \<Rightarrow> (Inl x, j', f''))
     | Wrote \<Rightarrow>
         (case file_write h (serialize e) f of (h', f') \<Rightarrow>
            (Inr (wj_sequence j),
             j\<lparr>wj_writer := Some h', wj_current_size := u64_add (wj_current_size j) (length (serialize e)),
               wj_sequence := u64_add (wj_sequence j) 1\<rparr>, f')))"
  unfolding append_entry_def too_large_def [symmetric] using assms by (simp add: check_def Let_def)

text \<open>Every branch of an append.\<close>

lemma append_entry_cases:
  assumes inv: "journal_inv crc es j f" and res: "append_entry wr cutr e j f = (r, j', f')"
  obtains (refused) x where "r = Inl x" "j' = j" "f' = f"
      "x = Entry_too_large \<or> x = Takes_no_writes \<or> x = Journal_closed"
  | (wrote) h h' where "\<not> too_large e" "\<not> wj_failed j" "wj_writer j = Some h" "wr = Wrote" "r = Inr (wj_sequence j)"
      "j' = j\<lparr>wj_writer := Some h', wj_current_size := u64_add (journal_len es) (length (serialize e)),
              wj_sequence := u64_add (wj_sequence j) 1\<rparr>"
      "fh_append h' = fh_append h" "fh_cursor h' = journal_len es + length (serialize e)"
      "f' = \<lparr>df_bytes = df_bytes f @ serialize e, df_stable = df_stable f\<rparr>"
  | (no_room) h n where "\<not> wj_failed j" "wj_writer j = Some h" "wr = Short n True" "cutr = Cut_ok"
      "r = Inl No_room" "f' = f" "j' = j\<lparr>wj_writer := Some (h\<lparr>fh_cursor := journal_len es\<rparr>)\<rparr>"
  | (failed) h' tail where "r = Inl Write_failed" "\<not> wj_failed j"
      "j' = j\<lparr>wj_writer := Some h', wj_failed := True\<rparr>"
      "f' = \<lparr>df_bytes = df_bytes f @ tail, df_stable = df_stable f\<rparr>"
proof -
  show thesis
  proof (cases "too_large e \<or> wj_failed j \<or> wj_writer j = None")
    case True
    from append_entry_refused [OF this, of wr cutr f] res show thesis
      by (intro refused [of "if too_large e then Entry_too_large else if wj_failed j then Takes_no_writes
          else Journal_closed"]) simp_all
  next
    case False
    then obtain h where h: "\<not> too_large e" "\<not> wj_failed j" "wj_writer j = Some h" by auto
    have f: "length (df_bytes f) = journal_len es" "df_stable f \<le> journal_len es"
        "fh_append h \<or> fh_cursor h = journal_len es" "wj_current_size j = journal_len es"
      using inv h by (auto simp: journal_inv_def writes_at_end_def)
    note live = append_entry_live [OF h, of wr cutr f, unfolded f(4) file_write_at_end [OF f(1,3,2)]]
    show thesis
    proof (cases wr)
      case Wrote
      with live res show thesis
        by (intro wrote [OF h Wrote, of "h\<lparr>fh_cursor := journal_len es + length (serialize e)\<rparr>"]) simp_all
    next
      case (Short n no_space)
      define tail where "tail = take n (serialize e)"
      define h' where "h' = h\<lparr>fh_cursor := journal_len es + length tail\<rparr>"
      define g where "g = \<lparr>df_bytes = df_bytes f @ tail, df_stable = df_stable f\<rparr>"
      have cut_g: "file_set_len (journal_len es) g = f"
        using file_set_len_cut [OF f(1,2)] by (simp add: g_def)
      obtain x where "r = Inl x" and wf: "write_failed no_space cutr (journal_len es) h' g j = (x, j', f')"
        using live Short res by (simp add: h'_def g_def tail_def split: prod.splits)
      consider "no_space" "cutr = Cut_ok" | "no_space" "cutr = Cut_seek_failed"
        | "\<not> no_space \<or> cutr = Cut_stat_failed \<or> cutr = Cut_set_len_failed"
        by (cases cutr) auto
      then show thesis
      proof cases
        case 1
        with wf \<open>r = Inl x\<close> Short cut_g f(1) show thesis
          by (intro no_room [OF h(2,3)]) (auto simp: write_failed_def cut_back_def g_def h'_def)
      next
        case 2
        with wf \<open>r = Inl x\<close> cut_g f(1) show thesis
          by (intro failed [OF _ h(2), of h' "[]"]) (auto simp: write_failed_def cut_back_def g_def fail_def)
      next
        case 3
        then have "(x, j', f') = (Write_failed, fail (j\<lparr>wj_writer := Some h'\<rparr>), g)"
          unfolding wf [symmetric] by (auto simp: write_failed_def cut_back_def)
        with \<open>r = Inl x\<close> show thesis
          by (intro failed [OF _ h(2), of h' tail]) (simp_all add: g_def fail_def)
      qed
    qed
  qed
qed

lemma append_entry_inv:
  assumes inv: "journal_inv crc es j f" and res: "append_entry wr cutr e j f = (r, j', f')"
    and e: "\<not> too_large e \<Longrightarrow> entry_ok crc e" and size: "journal_len (es @ [e]) < 2 ^ 64"
  shows "journal_inv crc (case r of Inl _ \<Rightarrow> es | Inr _ \<Rightarrow> es @ [e]) j' f' \<and>
    df_stable f' = df_stable f \<and> take (length (df_bytes f)) (df_bytes f') = df_bytes f"
  using inv res
proof (cases rule: append_entry_cases)
  case (wrote h h')
  then have "length (df_bytes f) = journal_len es" using inv by (simp add: journal_inv_def)
  with wrote inv size e show ?thesis
    by (auto simp: journal_inv_def journal_len_def writes_at_end_def intro: starts_with_extend)
next
  case (no_room h n)
  with inv show ?thesis by (auto simp: journal_inv_def writes_at_end_def split: option.splits)
next
  case (failed h' tail)
  with inv show ?thesis by (auto simp: journal_inv_def intro: starts_with_append)
qed (use inv in auto)

section \<open>Opening a journal\<close>

lemma scan_extends:
  assumes "starts_with crc es0 bs" and "scan crc bs (length bs) = Inr (es, end')"
  shows "\<exists>extra. es = es0 @ extra"
proof -
  obtain h tail where bs: "bs = h @ entries_bytes es0 @ tail" "length h = HEADER_LEN"
    and ok: "list_all (entry_ok crc) es0"
    using assms(1) by (auto simp: starts_with_def is_header_length)
  obtain rs m foreign where
    rec: "scan_records (journal_parse crc) (drop HEADER_LEN bs) = (es0 @ rs, m, foreign)"
    using journal.scan_written [OF ok, of tail] bs
    by (cases "scan_records (journal_parse crc) tail") (auto simp: entries_bytes_def)
  have "(\<not> foreign \<longrightarrow> scan crc bs (length bs) = Inr (es0 @ rs, HEADER_LEN + m)) \<and>
    (foreign \<longrightarrow> (\<exists>s t. scan crc bs (length bs) = Inl (Unknown_entry s t)))"
    unfolding scan_def by (rule scan_from_records) (use bs rec in auto)
  with assms(2) show ?thesis by (cases foreign) auto
qed

text \<open>A journal just opened on a disk that is stable throughout, holding \<open>es\<close>.\<close>

definition freshly_open ::
  "(bytes \<Rightarrow> 32 word) \<Rightarrow> journal_entry list \<Rightarrow> write_journal \<Rightarrow> journal_disk \<Rightarrow> bool" where
  "freshly_open crc es j d \<longleftrightarrow>
     (\<exists>f. d = \<lparr>jd_named = Some f, jd_replaced = []\<rparr> \<and> journal_inv crc es j f \<and>
          df_stable f = length (df_bytes f)) \<and>
     \<not> wj_failed j \<and> wj_syncer j \<and> wj_synced j = wj_sequence j \<and> wj_sequence j < 2 ^ 64"

lemma opened_Inr:
  "opened os max_size h s c n = Inr j \<longleftrightarrow>
   os Clone_handle \<and>
   j = \<lparr>wj_writer = Some h, wj_sequence = s, wj_synced = s, wj_syncer = True, wj_fsyncs = 0,
        wj_last_checkpoint = c, wj_max_size = max_size, wj_current_size = n, wj_failed = False\<rparr>"
  by (auto simp: opened_def)

lemma open_fresh_Inr:
  assumes "open_fresh os max_size d = (Inr j, d')"
  shows "freshly_open crc [] j d'"
proof -
  have "starts_with crc [] (header_bytes 0 0)" by (rule starts_with_header) simp_all
  with assms show ?thesis
    by (auto simp: open_fresh_def new_journal_def freshly_open_def journal_inv_def opened_Inr
        disk_rename_def disk_sync_dir_def file_sync_def journal_len_def
        writes_at_end_def Let_def split: if_splits sum.splits)
qed

lemma open_existing_Inr:
  assumes "open_existing crc os max_size f \<lparr>jd_named = Some f, jd_replaced = []\<rparr> = (Inr j, d')"
    and f: "df_stable f = length (df_bytes f)"
  shows "\<exists>es. freshly_open crc es j d' \<and>
    scan crc (df_bytes f) (length (df_bytes f)) = Inr (es, wj_current_size j)"
proof -
  let ?bs = "df_bytes f" and ?h = "\<lparr>fh_cursor = 0, fh_append = True\<rparr>"
  obtain s c where hd: "read_header ?bs = Inr (s, c)"
    using assms(1) by (auto simp: open_existing_def Let_def split: sum.splits)
  obtain es end' where sc: "scan crc ?bs (length ?bs) = Inr (es, end')"
    using assms(1) hd by (auto simp: open_existing_def Let_def split: sum.splits)
  have sw: "starts_with crc es ?bs" and e: "end' = journal_len es" and s: "s < 2 ^ 64"
    using scan_Inr [OF hd sc] by auto
  have le: "end' \<le> length ?bs" using starts_with_length [OF sw] e by simp
  have cut: "file_set_len end' f = \<lparr>df_bytes = take end' ?bs, df_stable = end'\<rparr>"
    using le f by (simp add: file_set_len_def resize_def)
  have op: "opened os max_size ?h s c end' = Inr j"
    using assms(1) hd sc by (auto simp: open_existing_def Let_def split: sum.splits if_splits)
  have d': "d' = \<lparr>jd_named = Some \<lparr>df_bytes = take end' ?bs, df_stable = end'\<rparr>, jd_replaced = []\<rparr>"
  proof (cases "end' < length ?bs")
    case True
    then show ?thesis
      using assms(1) hd sc cut
      by (auto simp: open_existing_def Let_def file_sync_def split: sum.splits if_splits)
  next
    case False
    then have "f = \<lparr>df_bytes = take end' ?bs, df_stable = end'\<rparr>" using le f by simp
    then show ?thesis
      using assms(1) hd sc False
      by (auto simp: open_existing_def Let_def split: sum.splits if_splits)
  qed
  have "freshly_open crc es j d'"
    using op d' le e s starts_with_take [OF sw, of end']
    by (auto simp: freshly_open_def opened_Inr journal_inv_def writes_at_end_def)
  moreover have "wj_current_size j = end'" using op by (auto simp: opened_Inr)
  ultimately show ?thesis using sc by auto
qed

lemma open_journal_Inr:
  assumes "open_journal crc os max_size (disk_after_crash b) = (Inr j, d')"
  shows "\<exists>es. freshly_open crc es j d' \<and>
    (\<forall>bs es0. b = Some bs \<longrightarrow> starts_with crc es0 bs \<longrightarrow> (\<exists>extra. es = es0 @ extra))"
proof (cases "\<exists>bs. b = Some bs \<and> bs \<noteq> []")
  case True
  then obtain bs where b: "b = Some bs" "bs \<noteq> []" by blast
  have "\<exists>es. freshly_open crc es j d' \<and> scan crc bs (length bs) = Inr (es, wj_current_size j)"
    using assms b open_existing_Inr [of crc os max_size "\<lparr>df_bytes = bs, df_stable = length bs\<rparr>" j d']
    by (auto simp: open_journal_def disk_after_crash_def split: if_splits)
  then show ?thesis using b scan_extends by (metis option.inject)
next
  case False
  then have fresh: "open_fresh os max_size (disk_after_crash b) = (Inr j, d')"
    using assms by (cases b) (auto simp: open_journal_def disk_after_crash_def split: if_splits)
  have "\<not> starts_with crc es0 []" for es0
    using starts_with_length [of crc es0 "[]"] by (auto simp: journal_len_def journal_sizes)
  with open_fresh_Inr [OF fresh, of crc] False show ?thesis by auto
qed

lemma recover_inv:
  assumes "journal_inv crc es j f" and "os Open_file"
  shows "recover crc os j (Some f) = Inr (unflushed es)"
  using scan_starts_with [OF journal_invD(1) [OF assms(1)]] journal_invD(2) [OF assms(1)] assms(2)
  by (simp add: recover_def)

section \<open>Runs of the journal\<close>

text \<open>
  The journal, its disk, and the sync under way (the target it read, and whether the sync itself
  is done); then what a run remembers: the whole entries since the last rotation, how many of
  them the last open found and which number the next one had then, and how many of them a
  finished sync covers.
\<close>

record journal_system =
  js_journal :: write_journal
  js_disk :: journal_disk
  js_flight :: "(nat \<times> bool) option"
  js_entries :: "journal_entry list"
  js_old :: nat
  js_base :: nat
  js_promised :: nat

definition journal_started ::
  "(bytes \<Rightarrow> 32 word) \<Rightarrow> journal_entry list \<Rightarrow> nat \<Rightarrow> write_journal \<Rightarrow> journal_disk \<Rightarrow> journal_system" where
  "journal_started crc es promised j d =
     \<lparr>js_journal = j, js_disk = d, js_flight = None, js_entries = es, js_old = length es,
      js_base = wj_sequence j, js_promised = promised\<rparr>"

definition entries_on :: "(bytes \<Rightarrow> 32 word) \<Rightarrow> write_journal \<Rightarrow> journal_disk \<Rightarrow> journal_entry list" where
  "entries_on crc j d =
     (case jd_named d of
        None \<Rightarrow> []
      | Some f \<Rightarrow>
          (case scan crc (df_bytes f) (wj_current_size j) of Inl _ \<Rightarrow> [] | Inr (es, _) \<Rightarrow> es))"

definition room_for :: "journal_entry \<Rightarrow> journal_system \<Rightarrow> bool" where
  "room_for e s \<longleftrightarrow>
     journal_len (js_entries s @ [e]) < 2 ^ 64 \<and> wj_sequence (js_journal s) + 1 < 2 ^ 64"

definition appended ::
  "journal_entry \<Rightarrow> (journal_fault + nat) \<times> write_journal \<times> disk_file \<Rightarrow>
   journal_system \<Rightarrow> journal_system" where
  "appended e res s =
     (case res of (r, j', f') \<Rightarrow>
        s\<lparr>js_journal := j', js_disk := (js_disk s)\<lparr>jd_named := Some f'\<rparr>,
          js_entries := (case r of Inl _ \<Rightarrow> js_entries s | Inr _ \<Rightarrow> js_entries s @ [e])\<rparr>)"

inductive journal_step ::
  "(bytes \<Rightarrow> 32 word) \<Rightarrow> journal_system \<Rightarrow> journal_system \<Rightarrow> bool" for crc where
  Step_write:
    "jd_named (js_disk s) = Some f \<Longrightarrow> is_string v \<Longrightarrow> c < 2 ^ 64 \<Longrightarrow> off < 2 ^ 64 \<Longrightarrow> data \<noteq> [] \<Longrightarrow>
     e = write_entry crc (wj_sequence (js_journal s)) v c off data \<Longrightarrow> room_for e s \<Longrightarrow>
     journal_step crc s (appended e (log_write crc wr cutr v c off data (js_journal s) f) s)"
| Step_flush:
    "jd_named (js_disk s) = Some f \<Longrightarrow> is_string v \<Longrightarrow> c < 2 ^ 64 \<Longrightarrow>
     e = flush_entry crc (wj_sequence (js_journal s)) v c \<Longrightarrow> room_for e s \<Longrightarrow>
     journal_step crc s (appended e (log_flush crc wr cutr v c (js_journal s) f) s)"
| Step_checkpoint:
    "jd_named (js_disk s) = Some f \<Longrightarrow>
     e = checkpoint_entry crc (wj_sequence (js_journal s)) \<Longrightarrow> room_for e s \<Longrightarrow>
     journal_step crc s (appended e (checkpoint crc wr cutr (js_journal s) f) s)"
| Step_sync_enter:
    "js_flight s = None \<Longrightarrow> sync_enter up_to (js_journal s) = Sync_target t \<Longrightarrow>
     journal_step crc s (s\<lparr>js_flight := Some (t, False)\<rparr>)"
| Step_sync_run:
    "js_flight s = Some (t, False) \<Longrightarrow> jd_named (js_disk s) = Some f \<Longrightarrow>
     sync_run ok (js_journal s) f = (r, j', f') \<Longrightarrow>
     journal_step crc s
       (s\<lparr>js_journal := j', js_disk := (js_disk s)\<lparr>jd_named := Some f'\<rparr>,
          js_flight := (case r of Inl _ \<Rightarrow> None | Inr _ \<Rightarrow> Some (t, True))\<rparr>)"
| Step_sync_publish:
    "js_flight s = Some (t, True) \<Longrightarrow>
     journal_step crc s
       (s\<lparr>js_journal := sync_publish t (js_journal s), js_flight := None,
          js_promised := max (js_promised s) (js_old s + (t - js_base s))\<rparr>)"
| Step_rotate:
    "js_flight s = None \<Longrightarrow> rotate os (js_journal s) (js_disk s) = (r, j', d') \<Longrightarrow>
     journal_step crc s
       (if d' = js_disk s \<and> j' = js_journal s then s
        else journal_started crc [] 0 j' d')"
| Step_power_cut:
    "crash_image (js_disk s) b \<Longrightarrow>
     open_journal crc os max_size (disk_after_crash b) = (Inr j', d') \<Longrightarrow>
     journal_step crc s (journal_started crc (entries_on crc j' d') (js_promised s) j' d')"

inductive journal_reach :: "(bytes \<Rightarrow> 32 word) \<Rightarrow> journal_system \<Rightarrow> bool" for crc where
  Reach_open:
    "open_journal crc os max_size (disk_after_crash b) = (Inr j, d) \<Longrightarrow>
     journal_reach crc (journal_started crc (entries_on crc j d) 0 j d)"
| Reach_step: "journal_reach crc s \<Longrightarrow> journal_step crc s s' \<Longrightarrow> journal_reach crc s'"

inductive_cases journal_stepE: "journal_step crc s s'"

text \<open>The invariant of a run.\<close>

definition numbered :: "journal_system \<Rightarrow> bool" where
  "numbered s \<longleftrightarrow>
     js_old s \<le> length (js_entries s) \<and>
     wj_sequence (js_journal s) = js_base s + (length (js_entries s) - js_old s) \<and>
     (\<forall>i. js_old s \<le> i \<and> i < length (js_entries s) \<longrightarrow>
          je_sequence (js_entries s ! i) = js_base s + (i - js_old s))"

definition covers_stable :: "nat \<Rightarrow> journal_entry list \<Rightarrow> disk_file \<Rightarrow> bool" where
  "covers_stable n es f \<longleftrightarrow> n \<le> length es \<and> journal_len (take n es) \<le> df_stable f"

definition promises_kept :: "journal_system \<Rightarrow> disk_file \<Rightarrow> bool" where
  "promises_kept s f \<longleftrightarrow>
     covers_stable (js_promised s) (js_entries s) f \<and>
     wj_synced (js_journal s) \<le> wj_sequence (js_journal s) \<and>
     (js_base s < wj_synced (js_journal s) \<longrightarrow>
        js_old s + (wj_synced (js_journal s) - js_base s) \<le> js_promised s) \<and>
     (\<forall>t b. js_flight s = Some (t, b) \<longrightarrow>
        js_base s \<le> t \<and> t \<le> wj_sequence (js_journal s) \<and> wj_syncer (js_journal s) \<and>
        (b \<longrightarrow> covers_stable (js_old s + (t - js_base s)) (js_entries s) f))"

definition system_inv :: "(bytes \<Rightarrow> 32 word) \<Rightarrow> journal_system \<Rightarrow> bool" where
  "system_inv crc s \<longleftrightarrow>
     wj_sequence (js_journal s) < 2 ^ 64 \<and> wj_syncer (js_journal s) \<and> numbered s \<and>
     (jd_replaced (js_disk s) = [] \<or> wj_failed (js_journal s) \<and> js_entries s = []) \<and>
     (\<exists>f. jd_named (js_disk s) = Some f \<and> journal_inv crc (js_entries s) (js_journal s) f \<and>
          promises_kept s f)"

lemma freshly_open_entries_on: "freshly_open crc es j d \<Longrightarrow> entries_on crc j d = es"
  by (auto simp: freshly_open_def entries_on_def journal_inv_def scan_starts_with)

lemma started_inv:
  assumes "freshly_open crc es j d" and "promised \<le> length es"
  shows "system_inv crc (journal_started crc es promised j d)"
proof -
  obtain f where f: "d = \<lparr>jd_named = Some f, jd_replaced = []\<rparr>" "journal_inv crc es j f"
      "df_stable f = length (df_bytes f)" "wj_synced j = wj_sequence j" "wj_sequence j < 2 ^ 64"
      "wj_syncer j"
    using assms(1) by (auto simp: freshly_open_def)
  have "journal_len (take promised es) \<le> length (df_bytes f)"
  proof -
    have "starts_with crc (take promised es @ drop promised es) (df_bytes f)"
      using journal_invD(1) [OF f(2)] by simp
    then show ?thesis using starts_with_length starts_with_prefix by blast
  qed
  with f assms(2) show ?thesis
    by (auto simp: system_inv_def journal_started_def numbered_def promises_kept_def covers_stable_def)
qed

lemma power_cut_keeps:
  assumes inv: "system_inv crc s" and img: "crash_image (js_disk s) b"
    and opn: "open_journal crc os max_size (disk_after_crash b) = (Inr j, d)"
  shows "\<exists>es extra. freshly_open crc es j d \<and> es = take (js_promised s) (js_entries s) @ extra"
proof -
  let ?p = "take (js_promised s) (js_entries s)"
  obtain f where f: "jd_named (js_disk s) = Some f" "journal_inv crc (js_entries s) (js_journal s) f"
      "covers_stable (js_promised s) (js_entries s) f"
    using inv by (auto simp: system_inv_def promises_kept_def)
  obtain es where es: "freshly_open crc es j d"
    "\<And>bs es0. b = Some bs \<Longrightarrow> starts_with crc es0 bs \<Longrightarrow> \<exists>extra. es = es0 @ extra"
    using open_journal_Inr [OF opn] by blast
  show ?thesis
  proof (cases "jd_replaced (js_disk s) = []")
    case True
    then have "file_image (Some f) b" using img f(1) by (simp add: crash_image_def)
    then obtain bs where b: "b = Some bs" "take (df_stable f) bs = take (df_stable f) (df_bytes f)"
      by (auto simp: file_image_def split: option.splits)
    have "starts_with crc (?p @ drop (js_promised s) (js_entries s)) (df_bytes f)"
      using journal_invD(1) [OF f(2)] by simp
    then have "starts_with crc ?p (df_bytes f)" by (rule starts_with_prefix)
    then have "starts_with crc ?p bs"
      using f(3) b(2) by (auto simp: covers_stable_def intro: starts_with_agree)
    with es b(1) show ?thesis by blast
  next
    case False
    then have "?p = []" using inv by (auto simp: system_inv_def)
    with es(1) show ?thesis by auto
  qed
qed

lemma covers_stable_mono:
  "covers_stable n es f \<Longrightarrow> df_stable f \<le> df_stable f' \<Longrightarrow> covers_stable n (es @ es') f'"
  by (auto simp: covers_stable_def)

lemma covers_all:
  assumes "journal_inv crc es j f" and "n \<le> length es"
  shows "covers_stable n es (file_sync f)"
proof -
  have "starts_with crc (take n es @ drop n es) (df_bytes f)"
    using journal_invD(1) [OF assms(1)] by simp
  then have "starts_with crc (take n es) (df_bytes f)" by (rule starts_with_prefix)
  then show ?thesis
    using starts_with_length assms(2) by (auto simp: covers_stable_def file_sync_def)
qed

text \<open>What an append leaves alone.\<close>

lemma append_entry_frame:
  assumes inv: "journal_inv crc es j f" and res: "append_entry wr cutr e j f = (r, j', f')"
    and seq: "wj_sequence j + 1 < 2 ^ 64"
  shows "wj_synced j' = wj_synced j \<and> wj_syncer j' = wj_syncer j \<and>
    wj_sequence j' = (case r of Inl _ \<Rightarrow> wj_sequence j | Inr _ \<Rightarrow> wj_sequence j + 1) \<and>
    (wj_failed j \<longrightarrow> wj_failed j') \<and> (wj_failed j \<longrightarrow> (\<exists>x. r = Inl x))"
  using inv res by (cases rule: append_entry_cases) (use seq in \<open>auto\<close>)

lemma appended_inv:
  assumes inv: "system_inv crc s" and f: "jd_named (js_disk s) = Some f"
    and res: "append_entry wr cutr e (js_journal s) f = (r, j', f')"
    and e: "\<not> too_large e \<Longrightarrow> entry_ok crc e" "je_sequence e = wj_sequence (js_journal s)"
    and room: "room_for e s"
  shows "system_inv crc (appended e (r, j', f') s)"
proof -
  have ji: "journal_inv crc (js_entries s) (js_journal s) f" and pk: "promises_kept s f"
    using inv f by (auto simp: system_inv_def)
  have frame: "wj_synced j' = wj_synced (js_journal s)" "wj_syncer j' = wj_syncer (js_journal s)"
    "wj_sequence j' = (case r of Inl _ \<Rightarrow> wj_sequence (js_journal s)
       | Inr _ \<Rightarrow> wj_sequence (js_journal s) + 1)"
    "wj_failed (js_journal s) \<longrightarrow> wj_failed j'" "wj_failed (js_journal s) \<longrightarrow> (\<exists>x. r = Inl x)"
    using append_entry_frame [OF ji res] room by (auto simp: room_for_def)
  have ji': "journal_inv crc (case r of Inl _ \<Rightarrow> js_entries s | Inr _ \<Rightarrow> js_entries s @ [e]) j' f'"
    "df_stable f' = df_stable f"
    using append_entry_inv [OF ji res e(1)] room by (auto simp: room_for_def)
  have cov: "covers_stable n (js_entries s @ es') f'" if "covers_stable n (js_entries s) f" for n es'
    using covers_stable_mono [OF that] ji'(2) by simp
  show ?thesis
  proof (cases r)
    case (Inl x)
    with inv frame ji' pk cov [where es' = "[]"] show ?thesis
      by (auto simp: system_inv_def appended_def numbered_def promises_kept_def)
  next
    case (Inr n)
    with inv frame ji' pk cov [where es' = "[e]"] e(2) room show ?thesis
      by (auto simp: system_inv_def appended_def numbered_def promises_kept_def room_for_def
          nth_append less_Suc_eq)
  qed
qed

lemma new_entry_ok:
  assumes "is_string v" "s < 2 ^ 64" "c < 2 ^ 64" "off < 2 ^ 64"
  shows "data \<noteq> [] \<Longrightarrow> \<not> too_large (write_entry crc s v c off data) \<Longrightarrow>
      entry_ok crc (write_entry crc s v c off data)"
    and "\<not> too_large (flush_entry crc s v c) \<Longrightarrow> entry_ok crc (flush_entry crc s v c)"
    and "entry_ok crc (checkpoint_entry crc s)"
proof -
  have u: "unat (x :: 32 word) < 4294967296" for x using unsigned_less [of x] by simp
  note defs = entry_ok_def entry_fields_ok_def entry_payload_def too_large_def verify_def
    compute_checksum_def checksum_with_type_def Let_def
  show "data \<noteq> [] \<Longrightarrow> \<not> too_large (write_entry crc s v c off data) \<Longrightarrow>
      entry_ok crc (write_entry crc s v c off data)"
    using assms by (auto simp: write_entry_def defs u MAX_ENTRY_DATA_def)
  show "\<not> too_large (flush_entry crc s v c) \<Longrightarrow> entry_ok crc (flush_entry crc s v c)"
    using assms by (auto simp: flush_entry_def defs u)
  show "entry_ok crc (checkpoint_entry crc s)"
    using assms by (auto simp: checkpoint_entry_def defs u is_string_def as_bytes_def)
qed

lemma new_entry_sequence [simp]:
  "je_sequence (write_entry crc s v c off data) = s"
  "je_sequence (flush_entry crc s v c) = s"
  "je_sequence (checkpoint_entry crc s) = s"
  by (simp_all add: write_entry_def flush_entry_def checkpoint_entry_def Let_def)

lemma system_inv_last_checkpoint:
  "system_inv crc (s\<lparr>js_journal := (js_journal s)\<lparr>wj_last_checkpoint := n\<rparr>\<rparr>) = system_inv crc s"
  by (simp add: system_inv_def numbered_def promises_kept_def journal_inv_def writes_at_end_def)

lemma checkpoint_inv:
  assumes inv: "system_inv crc s" and f: "jd_named (js_disk s) = Some f"
    and room: "room_for (checkpoint_entry crc (wj_sequence (js_journal s))) s"
  shows "system_inv crc (appended (checkpoint_entry crc (wj_sequence (js_journal s)))
    (checkpoint crc wr cutr (js_journal s) f) s)"
proof -
  let ?e = "checkpoint_entry crc (wj_sequence (js_journal s))"
  obtain r j' f' where res: "append_entry wr cutr ?e (js_journal s) f = (r, j', f')"
    using prod_cases3 by blast
  have ok: "entry_ok crc ?e"
    using new_entry_ok(3) [of "[]" "wj_sequence (js_journal s)" 0 0] inv
    by (simp add: system_inv_def is_string_def as_bytes_def)
  have i: "system_inv crc (appended ?e (r, j', f') s)"
    by (rule appended_inv [OF inv f res _ _ room]) (simp_all add: ok)
  show ?thesis
  proof (cases r)
    case (Inl x)
    with i res show ?thesis by (simp add: checkpoint_def)
  next
    case (Inr n)
    then have "appended ?e (checkpoint crc wr cutr (js_journal s) f) s =
      (let s' = appended ?e (r, j', f') s in
       s'\<lparr>js_journal := (js_journal s')\<lparr>wj_last_checkpoint := wj_sequence (js_journal s)\<rparr>\<rparr>)"
      using res by (simp add: checkpoint_def appended_def Let_def)
    with i show ?thesis by (simp add: system_inv_last_checkpoint Let_def)
  qed
qed

lemma sync_run_inv:
  assumes inv: "system_inv crc s" and fl: "js_flight s = Some (t, False)"
    and f: "jd_named (js_disk s) = Some f" and res: "sync_run ok (js_journal s) f = (r, j', f')"
  shows "system_inv crc (s\<lparr>js_journal := j', js_disk := (js_disk s)\<lparr>jd_named := Some f'\<rparr>,
      js_flight := (case r of Inl _ \<Rightarrow> None | Inr _ \<Rightarrow> Some (t, True))\<rparr>)"
proof -
  have ji: "journal_inv crc (js_entries s) (js_journal s) f" and pk: "promises_kept s f"
    using inv f by (auto simp: system_inv_def)
  have cov: "covers_stable n (js_entries s) (file_sync f)" if "n \<le> length (js_entries s)" for n
    by (rule covers_all [OF ji that])
  have "wj_syncer (js_journal s)" using inv by (simp add: system_inv_def)
  with res consider "r = Inl Sync_failed" "j' = (js_journal s)\<lparr>wj_failed := True\<rparr>" "f' = f"
    | x where "r = Inr ()" "j' = (js_journal s)\<lparr>wj_fsyncs := x\<rparr>" "f' = file_sync f"
    by (auto simp: sync_run_def fail_def split: if_splits)
  then show ?thesis
  proof cases
    case 1
    with inv ji pk f show ?thesis
      by (auto simp: system_inv_def numbered_def promises_kept_def journal_inv_def)
  next
    case (2 x)
    have "js_old s + (t - js_base s) \<le> length (js_entries s)"
      using inv pk fl by (auto simp: system_inv_def numbered_def promises_kept_def)
    note c = cov [OF this]
    have "covers_stable (js_promised s) (js_entries s) (file_sync f)"
      using pk by (intro cov) (auto simp: promises_kept_def covers_stable_def)
    with 2 inv ji pk fl c show ?thesis
      by (auto simp: system_inv_def numbered_def promises_kept_def journal_inv_def file_sync_def
          writes_at_end_def)
  qed
qed

lemma sync_publish_inv:
  assumes inv: "system_inv crc s" and fl: "js_flight s = Some (t, True)"
  shows "system_inv crc (s\<lparr>js_journal := sync_publish t (js_journal s), js_flight := None,
      js_promised := max (js_promised s) (js_old s + (t - js_base s))\<rparr>)"
proof -
  obtain f where f: "jd_named (js_disk s) = Some f" and ji: "journal_inv crc (js_entries s) (js_journal s) f"
    and pk: "promises_kept s f"
    using inv by (auto simp: system_inv_def)
  have "covers_stable (max (js_promised s) (js_old s + (t - js_base s))) (js_entries s) f"
    using pk fl by (auto simp: promises_kept_def max_def)
  moreover have "t \<le> wj_sequence (js_journal s)" "js_base s \<le> t"
    using pk fl by (auto simp: promises_kept_def)
  ultimately show ?thesis
    using inv f ji pk fl
    by (auto simp: system_inv_def sync_publish_def numbered_def promises_kept_def journal_inv_def
        writes_at_end_def max_def)
qed

lemma rotate_cases:
  assumes "rotate os j d = (r, j', d')"
  obtains (kept) "j' = j" "d' = d" "r \<noteq> Inr ()"
  | (swapped) f where "\<not> wj_failed j" "df_bytes f = header_bytes (wj_sequence j) (wj_sequence j)"
      "df_stable f = length (df_bytes f)" "jd_named d' = Some f"
      "wj_failed j' \<longleftrightarrow> r \<noteq> Inr ()" "jd_replaced d' = (if r = Inr () then [] else jd_named d # jd_replaced d)"
      "wj_writer j' = Some \<lparr>fh_cursor = HEADER_LEN, fh_append = False\<rparr>" "wj_syncer j'"
      "wj_current_size j' = HEADER_LEN" "wj_sequence j' = wj_sequence j" "wj_synced j' = wj_synced j"
proof (cases "\<not> wj_failed j \<and> os Create_new \<and> os Write_header \<and> os Sync_new \<and> os Clone_handle \<and> os Rename")
  case False
  then have "j' = j \<and> d' = d \<and> r \<noteq> Inr ()"
    using assms by (auto simp: rotate_def check_def new_journal_def Let_def split: if_splits)
  then show thesis by (intro kept) auto
next
  case True
  let ?f = "file_sync \<lparr>df_bytes = header_bytes (wj_sequence j) (wj_sequence j), df_stable = 0\<rparr>"
  from True have eq: "rotate os j d =
    (let j' = j\<lparr>wj_writer := Some \<lparr>fh_cursor = HEADER_LEN, fh_append = False\<rparr>, wj_syncer := True,
                wj_last_checkpoint := wj_sequence j, wj_current_size := HEADER_LEN\<rparr>
     in if \<not> os Sync_dir then (Inl Sync_failed, fail j', disk_rename ?f d)
        else (Inr (), j', disk_sync_dir (disk_rename ?f d)))"
    by (simp add: rotate_def check_def new_journal_def Let_def)
  show thesis
    by (rule swapped [of ?f])
      (use True assms in \<open>auto simp: eq Let_def fail_def disk_rename_def disk_sync_dir_def file_sync_def
        split: if_splits\<close>)
qed

lemma rotate_inv:
  assumes inv: "system_inv crc s" and res: "rotate os (js_journal s) (js_disk s) = (r, j', d')"
  shows "system_inv crc (if d' = js_disk s \<and> j' = js_journal s then s
    else journal_started crc [] 0 j' d')"
  using res
proof (cases rule: rotate_cases)
  case kept
  with inv show ?thesis by simp
next
  case (swapped f)
  have s: "wj_sequence (js_journal s) < 2 ^ 64" "wj_synced (js_journal s) \<le> wj_sequence (js_journal s)"
    using inv by (auto simp: system_inv_def promises_kept_def)
  have "journal_inv crc [] j' f"
    using swapped s by (auto simp: journal_inv_def journal_len_def writes_at_end_def starts_with_header)
  moreover have "covers_stable 0 [] f"
    using swapped by (simp add: covers_stable_def journal_len_def)
  ultimately have "system_inv crc (journal_started crc [] 0 j' d')"
    using inv swapped s
    by (auto simp: system_inv_def journal_started_def numbered_def promises_kept_def)
  with inv show ?thesis by simp
qed

lemma step_inv:
  assumes "journal_step crc s s'" and inv: "system_inv crc s"
  shows "system_inv crc s'"
  using assms(1)
proof cases
  case (Step_write f v c off data e wr cutr)
  obtain r j' f' where res: "append_entry wr cutr e (js_journal s) f = (r, j', f')"
    using prod_cases3 by blast
  have "system_inv crc (appended e (r, j', f') s)"
    by (rule appended_inv [OF inv Step_write(2) res])
      (use Step_write inv in \<open>auto simp: system_inv_def intro: new_entry_ok\<close>)
  with Step_write res show ?thesis by (simp add: log_write_def)
next
  case (Step_flush f v c e wr cutr)
  obtain r j' f' where res: "append_entry wr cutr e (js_journal s) f = (r, j', f')"
    using prod_cases3 by blast
  have "system_inv crc (appended e (r, j', f') s)"
    by (rule appended_inv [OF inv Step_flush(2) res])
      (use Step_flush inv new_entry_ok(2) [of v _ c 0] in \<open>auto simp: system_inv_def\<close>)
  with Step_flush res show ?thesis by (simp add: log_flush_def)
next
  case (Step_checkpoint f e wr cutr)
  with checkpoint_inv [OF inv] show ?thesis by simp
next
  case (Step_sync_enter up_to t)
  then have "t = wj_sequence (js_journal s)"
    by (auto simp: sync_enter_def check_def split: if_splits)
  with Step_sync_enter inv show ?thesis
    by (auto simp: system_inv_def numbered_def promises_kept_def)
next
  case (Step_sync_run t f ok r j' f')
  with sync_run_inv [OF inv] show ?thesis by simp
next
  case (Step_sync_publish t)
  with sync_publish_inv [OF inv] show ?thesis by simp
next
  case (Step_rotate os r j' d')
  with rotate_inv [OF inv] show ?thesis by simp
next
  case (Step_power_cut b os max_size j' d')
  obtain es extra where es: "freshly_open crc es j' d'"
    "es = take (js_promised s) (js_entries s) @ extra"
    using power_cut_keeps [OF inv Step_power_cut(2,3)] by blast
  have "js_promised s \<le> length (js_entries s)"
    using inv by (auto simp: system_inv_def promises_kept_def covers_stable_def)
  then have "js_promised s \<le> length es" using es(2) by simp
  from started_inv [OF es(1) this] Step_power_cut freshly_open_entries_on [OF es(1)] show ?thesis by simp
qed

lemma reach_inv: "journal_reach crc s \<Longrightarrow> system_inv crc s"
proof (induction rule: journal_reach.induct)
  case (Reach_open os max_size b j d)
  then obtain es where "freshly_open crc es j d" using open_journal_Inr by blast
  with started_inv [OF this, of 0] freshly_open_entries_on [OF this] show ?case by simp
next
  case (Reach_step s s')
  then show ?case using step_inv by blast
qed

section \<open>Damage\<close>

text \<open>
  A whole entry, of any type, starts at \<open>at\<close>, and its number is one the journal could have
  given it.
\<close>

definition whole_entry_at ::
  "(bytes \<Rightarrow> 32 word) \<Rightarrow> bytes \<Rightarrow> nat \<Rightarrow> nat \<Rightarrow> bool" where
  "whole_entry_at crc bs sequence at \<longleftrightarrow>
     (\<exists>t e rest. drop at bs = entry_bytes t e @ rest \<and> entry_fields_ok e \<and>
        length (entry_payload e) \<le> MAX_ENTRY_DATA \<and> je_checksum e = checksum_with_type crc e t \<and>
        sequence \<le> je_sequence e \<and>
        je_sequence e \<le> min (sequence + length bs div MIN_ENTRY) (2 ^ 64 - 1))"

lemma from_le_two: "from_le [a, b] \<le> 65535"
  using from_le_bound [of "[a, b]"] by simp

lemma entry_len_at_head:
  "entry_len_at (take PROBE_LEN rem) 0 (length rem) = entry_len_at rem 0 (length rem)"
proof -
  have rd: "read_exact_at (take PROBE_LEN rem) n k = read_exact_at rem n k"
    if "k + n \<le> length rem" "k + n \<le> PROBE_LEN" for n k
    using that by (simp add: read_exact_at_def take_drop_window)
  show ?thesis
  proof (cases "length rem < MIN_ENTRY")
    case True
    then show ?thesis by (simp add: entry_len_at_def)
  next
    case False
    then have p: "read_exact_at (take PROBE_LEN rem) ENTRY_PREFIX 0 = read_exact_at rem ENTRY_PREFIX 0"
      by (intro rd) (simp_all add: journal_sizes)
    have d: "read_exact_at (take PROBE_LEN rem) 4 (ENTRY_PREFIX + ENTRY_MIDDLE - 4 + from_le [a, b]) =
        read_exact_at rem 4 (ENTRY_PREFIX + ENTRY_MIDDLE - 4 + from_le [a, b])"
      if "\<not> length rem < ENTRY_PREFIX + ENTRY_MIDDLE - 4 + from_le [a, b] + 8" for a b
      using that from_le_two [of a b] by (intro rd) (simp_all add: journal_sizes del: from_le.simps)
    show ?thesis
      unfolding entry_len_at_def p using d
      by (auto simp: Let_def simp del: from_le.simps intro!: and_then_cong)
  qed
qed

lemma damage_probe_eq:
  assumes "length (drop at bs) = n" "n = length bs - at"
  shows "damage_probe (length bs) s at (take PROBE_LEN (drop at bs)) =
    (if 8 \<le> n \<and> s \<le> from_le (take 8 (drop at bs)) \<and>
        from_le (take 8 (drop at bs)) \<le> min (s + length bs div MIN_ENTRY) (2 ^ 64 - 1)
     then case entry_len_at (drop at bs) 0 n of Inl _ \<Rightarrow> None | Inr k \<Rightarrow> k else None)"
proof -
  have "take 8 (take PROBE_LEN (drop at bs)) = take 8 (drop at bs)"
    by (simp add: journal_sizes)
  moreover have "length (take PROBE_LEN (drop at bs)) < 8 \<longleftrightarrow> n < 8"
    using assms by (simp add: journal_sizes min_def)
  moreover have "entry_len_at (take PROBE_LEN (drop at bs)) 0 (length bs - at) =
      entry_len_at (drop at bs) 0 n"
    using entry_len_at_head [of "drop at bs"] assms by simp
  ultimately show ?thesis by (auto simp: damage_probe_def Let_def)
qed

lemma entry_bytes_sequence:
  "entry_fields_ok e \<Longrightarrow> from_le (take 8 (entry_bytes t e @ r)) = je_sequence e"
  by (simp add: entry_bytes_def entry_fields_ok_def)

lemma record_starts_entry:
  assumes "at < length bs"
  shows "record_starts bs (length bs) PROBE_LEN (damage_probe (length bs) s) (damage_whole crc) at \<longleftrightarrow>
    whole_entry_at crc bs s at"
proof
  let ?r = "drop at bs"
  have len: "length ?r = length bs - at" by simp
  assume "record_starts bs (length bs) PROBE_LEN (damage_probe (length bs) s) (damage_whole crc) at"
  then obtain n where n: "damage_probe (length bs) s at (take PROBE_LEN ?r) = Some n"
      "damage_whole crc at (take n ?r)"
    by (auto simp: record_starts_def split: option.splits)
  then have el: "entry_len_at ?r 0 (length ?r) = Inr (Some n)"
    and seq: "s \<le> from_le (take 8 ?r)"
      "from_le (take 8 ?r) \<le> min (s + length bs div MIN_ENTRY) (2 ^ 64 - 1)"
    unfolding damage_probe_eq [OF len refl] by (auto split: if_splits sum.splits)
  obtain t e r where raw: "read_raw (take n ?r) = Inr (t, e, r)"
    and ck: "je_checksum e = checksum_with_type crc e t"
    using n(2) by (auto simp: damage_whole_def split: sum.splits)
  have b: "take n ?r = entry_bytes t e" "entry_fields_ok e" "length (entry_payload e) \<le> MAX_ENTRY_DATA"
    using journal_parse_bytes [OF el raw] by auto
  then have r: "?r = entry_bytes t e @ drop n ?r" by (metis append_take_drop_id)
  then have "from_le (take 8 ?r) = je_sequence e" using entry_bytes_sequence [OF b(2)] by metis
  with seq b ck r show "whole_entry_at crc bs s at" unfolding whole_entry_at_def by metis
next
  let ?r = "drop at bs"
  have len: "length ?r = length bs - at" by simp
  assume "whole_entry_at crc bs s at"
  then obtain t e rest where e: "?r = entry_bytes t e @ rest" "entry_fields_ok e"
    "length (entry_payload e) \<le> MAX_ENTRY_DATA" "je_checksum e = checksum_with_type crc e t"
    "s \<le> je_sequence e" "je_sequence e \<le> min (s + length bs div MIN_ENTRY) (2 ^ 64 - 1)"
    by (auto simp: whole_entry_at_def)
  have el: "entry_len_at ?r 0 (length ?r) = Inr (Some (length (entry_bytes t e)))"
    using entry_len_at_entry_bytes [OF _ _ e(1)] e(2,3) by (simp add: entry_fields_ok_def)
  have "8 \<le> length bs - at"
    using len e(1) by (simp add: length_entry_bytes journal_sizes)
  moreover have "from_le (take 8 ?r) = je_sequence e" using e(1,2) entry_bytes_sequence by simp
  ultimately have "damage_probe (length bs) s at (take PROBE_LEN ?r) = Some (length (entry_bytes t e))"
    unfolding damage_probe_eq [OF len refl] using el e(5,6) by simp
  moreover have "damage_whole crc at (entry_bytes t e)"
    using read_raw_entry_bytes [OF e(2), of t "[]"] e(4) by (simp add: damage_whole_def)
  moreover have "0 < length (entry_bytes t e)" "length (entry_bytes t e) \<le> length bs - at"
    using len e(1) by (auto simp: length_entry_bytes journal_sizes)
  ultimately show "record_starts bs (length bs) PROBE_LEN (damage_probe (length bs) s) (damage_whole crc) at"
    by (simp add: record_starts_def e(1))
qed

lemma find_cong: "(\<And>x. x \<in> set xs \<Longrightarrow> P x = Q x) \<Longrightarrow> find P xs = find Q xs"
  by (induction xs) auto

lemma refuse_damage_eq:
  assumes "bad + 1 < 2 ^ 64"
  shows "refuse_damage crc bs bad (length bs) s =
    (case find (whole_entry_at crc bs s) [bad + 1 ..< length bs] of
       None \<Rightarrow> Inr () | Some at \<Rightarrow> Inl (Damaged bad at))"
proof -
  have "find (record_starts bs (length bs) PROBE_LEN (damage_probe (length bs) s) (damage_whole crc))
      [bad + 1 ..< length bs] = find (whole_entry_at crc bs s) [bad + 1 ..< length bs]"
    by (rule find_cong) (simp add: record_starts_entry)
  then show ?thesis
    using whole_record_after_correct [OF order_refl assms, of bs PROBE_LEN
        "damage_probe (length bs) s" "damage_whole crc"]
    by (simp add: refuse_damage_def split: option.split)
qed

section \<open>What the journal guarantees\<close>

abbreviation os_ok :: "os_call \<Rightarrow> bool" where
  "os_ok \<equiv> \<lambda>_. True"

abbreviation stable_disk :: "bytes \<Rightarrow> journal_disk" where
  "stable_disk bs \<equiv> \<lparr>jd_named = Some \<lparr>df_bytes = bs, df_stable = length bs\<rparr>, jd_replaced = []\<rparr>"

definition opened_journal :: "nat \<Rightarrow> nat \<Rightarrow> nat \<Rightarrow> nat \<Rightarrow> write_journal" where
  "opened_journal max_size s c n =
     \<lparr>wj_writer = Some \<lparr>fh_cursor = 0, fh_append = True\<rparr>, wj_sequence = s, wj_synced = s,
      wj_syncer = True, wj_fsyncs = 0, wj_last_checkpoint = c, wj_max_size = max_size,
      wj_current_size = n, wj_failed = False\<rparr>"

lemma open_journal_eq:
  assumes "read_header bs = Inr (s, c)" and "scan crc bs (length bs) = Inr (es, end')"
    and "length bs < 2 ^ 64"
  shows "open_journal crc os_ok max_size (disk_after_crash (Some bs)) =
    (case (if end' < length bs then find (whole_entry_at crc bs s) [end' + 1 ..< length bs] else None) of
       None \<Rightarrow> (Inr (opened_journal max_size s c end'), stable_disk (take end' bs))
     | Some at \<Rightarrow> (Inl (Damaged end' at), stable_disk bs))"
proof -
  have end': "end' = journal_len es" "starts_with crc es bs" using scan_Inr [OF assms(1,2)] by auto
  then have le: "end' \<le> length bs" "0 < length bs"
    using starts_with_length [of crc es bs] by (auto simp: journal_len_def journal_sizes)
  have "open_journal crc os_ok max_size (disk_after_crash (Some bs)) =
    open_existing crc os_ok max_size \<lparr>df_bytes = bs, df_stable = length bs\<rparr> (stable_disk bs)"
    using le(2) by (simp add: open_journal_def disk_after_crash_def)
  also have "\<dots> = (case (if end' < length bs then find (whole_entry_at crc bs s) [end' + 1 ..< length bs]
         else None) of
       None \<Rightarrow> (Inr (opened_journal max_size s c end'), stable_disk (take end' bs))
     | Some at \<Rightarrow> (Inl (Damaged end' at), stable_disk bs))"
  proof (cases "end' < length bs")
    case True
    then have "refuse_damage crc bs end' (length bs) s =
      (case find (whole_entry_at crc bs s) [end' + 1 ..< length bs] of
         None \<Rightarrow> Inr () | Some at \<Rightarrow> Inl (Damaged end' at))"
      using assms(3) by (intro refuse_damage_eq) simp
    with True le(1) assms show ?thesis
      by (auto simp: open_existing_def Let_def file_set_len_def file_sync_def opened_def
          opened_journal_def resize_def min_def split: option.split)
  next
    case False
    with le assms show ?thesis
      by (simp add: open_existing_def Let_def opened_def opened_journal_def)
  qed
  finally show ?thesis .
qed

text \<open>
  C14. A journal entry survives its encoding: whatever follows it in the file, reading back the
  bytes \<open>serialize\<close> made gives the entry and leaves what follows. It holds for every entry
  whose fields fit their widths, whose volume id is UTF-8, and which has data or none, but not
  an empty data field.
\<close>

theorem deserialize_serialize:
  assumes "entry_fields_ok e"
  shows "deserialize (serialize e @ rest) = Inr (e, rest)"
proof -
  have "serialize e = entry_bytes (entry_type_byte (je_entry_type e)) e"
    using assms by (intro serialize_entry_bytes) (auto simp: entry_fields_ok_def)
  then show ?thesis
    using read_raw_entry_bytes [OF assms, of "entry_type_byte (je_entry_type e)" rest]
    by (simp add: deserialize_def)
qed

theorem deserialize_serialize_witness:
  "deserialize (serialize (write_entry (\<lambda>_. 9) 7 ''v1'' 3 512 [1, 2]) @ [0]) =
     Inr (write_entry (\<lambda>_. 9) 7 ''v1'' 3 512 [1, 2], [0])"
proof -
  have "entry_fields_ok (write_entry (\<lambda>_. 9) 7 ''v1'' 3 512 [1, 2])"
    by (simp add: entry_fields_ok_def write_entry_def Let_def compute_checksum_def
        checksum_with_type_def entry_payload_def is_string_def as_bytes_def utf8_char_len_def)
  from deserialize_serialize [OF this] show ?thesis .
qed

text \<open>
  C2. Opening a journal cuts off a torn tail and nothing else. With a readable header, and
  entries that read whole up to the byte where one does not, the open succeeds exactly if no
  whole entry with a number the journal could have given starts after that byte; it then keeps
  the bytes up to there, recovers the entries before, and otherwise it refuses the journal and
  leaves its bytes as they are.
\<close>

theorem open_cuts_only_a_torn_tail:
  assumes "read_header bs = Inr (s, c)" and "scan crc bs (length bs) = Inr (es, end')"
    and "length bs < 2 ^ 64"
  shows "case open_journal crc os_ok max_size (disk_after_crash (Some bs)) of
      (Inr j, d) \<Rightarrow>
        \<not> (\<exists>at. end' < at \<and> at < length bs \<and> whole_entry_at crc bs s at) \<and>
        d = stable_disk (take end' bs) \<and> recover crc os_ok j (jd_named d) = Inr (unflushed es)
    | (Inl x, d) \<Rightarrow>
        (\<exists>at. x = Damaged end' at \<and> end' < at \<and> at < length bs \<and> whole_entry_at crc bs s at) \<and>
        d = stable_disk bs"
proof -
  have sw: "starts_with crc es bs" "end' = journal_len es" using scan_Inr [OF assms(1,2)] by auto
  have rc: "recover crc os_ok (opened_journal max_size s c end')
      (Some \<lparr>df_bytes = take end' bs, df_stable = end'\<rparr>) = Inr (unflushed es)"
    using starts_with_take [OF sw(1)] starts_with_length [OF sw(1)] sw(2)
    by (intro recover_inv) (auto simp: journal_inv_def opened_journal_def writes_at_end_def)
  have none: "\<not> (\<exists>at. end' < at \<and> at < length bs \<and> whole_entry_at crc bs s at)"
    if "find (whole_entry_at crc bs s) [end' + 1 ..< length bs] = None \<or> \<not> end' < length bs"
    using that by (auto simp: find_None_iff)
  have some: "end' < at \<and> at < length bs \<and> whole_entry_at crc bs s at"
    if "find (whole_entry_at crc bs s) [end' + 1 ..< length bs] = Some at" for at
    using that by (auto simp: find_Some_iff)
  have le: "end' \<le> length bs" using starts_with_length [OF sw(1)] sw(2) by simp
  show ?thesis
    unfolding open_journal_eq [OF assms] using rc none some le
    by (auto simp: min_def split: option.split)
qed

theorem open_cuts_only_a_torn_tail_witness:
  "\<exists>j. open_journal (\<lambda>_. 0) os_ok 100 (disk_after_crash (Some (header_bytes 5 5 @ [1, 2, 3]))) =
         (Inr j, stable_disk (header_bytes 5 5)) \<and>
       recover (\<lambda>_. 0) os_ok j (jd_named (stable_disk (header_bytes 5 5))) = Inr []"
proof -
  let ?bs = "header_bytes 5 5 @ [1, 2, 3]"
  have h: "read_header ?bs = Inr (5, 5)" by simp
  have s: "scan (\<lambda>_. 0) ?bs (length ?bs) = Inr ([], HEADER_LEN)"
    unfolding scan_def by (subst scan_from.simps) (simp add: entry_len_at_def journal_sizes)
  have l: "length ?bs < 2 ^ 64" by (simp add: journal_sizes)
  have no: "\<not> (\<exists>at. HEADER_LEN < at \<and> at < length ?bs \<and> whole_entry_at (\<lambda>_. 0) ?bs 5 at)"
  proof
    assume "\<exists>at. HEADER_LEN < at \<and> at < length ?bs \<and> whole_entry_at (\<lambda>_. 0) ?bs 5 at"
    then obtain at t e rest where "HEADER_LEN < at" "drop at ?bs = entry_bytes t e @ rest"
      by (auto simp: whole_entry_at_def)
    then have "length (drop at ?bs) = length (entry_bytes t e @ rest)" by simp
    then show False using \<open>HEADER_LEN < at\<close> by (simp add: length_entry_bytes journal_sizes)
  qed
  from open_cuts_only_a_torn_tail [OF h s l, of 100] no show ?thesis
    by (auto simp: unflushed_def split: prod.splits sum.splits)
qed

text \<open>
  C1. A write that was reported durable survives every power cut. In any run of the journal
  (appends that succeed, fail half way or find no room, syncs that other threads' appends come
  between, rotations and their failures, earlier power cuts), once the journal counts an entry as
  synced, whatever a power cut then leaves of the file, an open that succeeds recovers the
  entries up to and including that one, in order, before any other.
\<close>

theorem synced_entry_survives_power_cut:
  assumes "journal_reach crc s" and "js_old s \<le> i" and "i < length (js_entries s)"
    and "je_sequence (js_entries s ! i) < wj_synced (js_journal s)"
    and "crash_image (js_disk s) b"
    and "open_journal crc os max_size (disk_after_crash b) = (Inr j', d')"
  shows "\<exists>extra. recover crc os_ok j' (jd_named d') = Inr (unflushed (take (Suc i) (js_entries s) @ extra))"
proof -
  have inv: "system_inv crc s" by (rule reach_inv [OF assms(1)])
  have "je_sequence (js_entries s ! i) = js_base s + (i - js_old s)"
    using inv assms(2,3) by (auto simp: system_inv_def numbered_def)
  moreover from this have "js_old s + (wj_synced (js_journal s) - js_base s) \<le> js_promised s"
    using inv assms(4) by (auto simp: system_inv_def promises_kept_def)
  ultimately have i: "Suc i \<le> js_promised s" using assms(2,4) by simp
  obtain es extra where es: "freshly_open crc es j' d'" "es = take (js_promised s) (js_entries s) @ extra"
    using power_cut_keeps [OF inv assms(5,6)] by blast
  have "take (js_promised s) (js_entries s) =
      take (Suc i) (js_entries s) @ take (js_promised s - Suc i) (drop (Suc i) (js_entries s))"
    using i take_add [of "Suc i" "js_promised s - Suc i" "js_entries s"] by simp
  moreover obtain f where "jd_named d' = Some f" "journal_inv crc es j' f"
    using es(1) by (auto simp: freshly_open_def)
  ultimately show ?thesis using recover_inv [of crc es j' f os_ok] es(2) by auto
qed

definition sample_entry :: journal_entry where
  "sample_entry = write_entry (\<lambda>_. 0) 0 ''v'' 0 0 [7]"

definition sample_disk :: journal_disk where
  "sample_disk = stable_disk (header_bytes 0 0 @ serialize sample_entry)"

lemma sample_entry_ok: "entry_ok (\<lambda>_. 0) sample_entry"
  unfolding sample_entry_def
  by (rule new_entry_ok)
    (simp_all add: is_string_def as_bytes_def utf8_char_len_def too_large_def write_entry_def Let_def
      MAX_ENTRY_DATA_def)

lemma sample_length: "length (serialize sample_entry) = 37"
  using entry_ok_fields [OF sample_entry_ok]
  by (simp add: length_entry_bytes journal_sizes sample_entry_def write_entry_def Let_def
      entry_payload_def)

lemma sample_starts: "starts_with (\<lambda>_. 0) [sample_entry] (header_bytes 0 0 @ serialize sample_entry)"
proof -
  have "starts_with (\<lambda>_. 0) ([] @ [sample_entry]) (header_bytes 0 0 @ serialize sample_entry)"
    by (rule starts_with_extend) (simp_all add: starts_with_header sample_entry_ok journal_len_def)
  then show ?thesis by simp
qed

lemma sample_open:
  "open_journal (\<lambda>_. 0) os_ok 100 (disk_after_crash (Some (header_bytes 0 0 @ serialize sample_entry))) =
     (Inr (opened_journal 100 0 0 65), sample_disk)"
proof -
  let ?bs = "header_bytes 0 0 @ serialize sample_entry"
  have len: "length ?bs = 65" "journal_len [sample_entry] = 65"
    by (simp_all add: journal_len_def sample_length journal_sizes)
  have sc: "scan (\<lambda>_. 0) ?bs (length ?bs) = Inr ([sample_entry], 65)"
    using scan_starts_with [OF sample_starts] len by simp
  have hd: "read_header ?bs = Inr (0, 0)" by simp
  have lt: "length ?bs < 2 ^ 64" using len by simp
  show ?thesis using open_journal_eq [OF hd sc lt, of 100] len by (simp add: sample_disk_def)
qed

text \<open>A journal created, written to once and synced.\<close>

definition sample_journal :: "nat \<Rightarrow> nat \<Rightarrow> nat \<Rightarrow> nat \<Rightarrow> write_journal" where
  "sample_journal seq synced fsyncs n =
     \<lparr>wj_writer = Some \<lparr>fh_cursor = n, fh_append = False\<rparr>, wj_sequence = seq, wj_synced = synced,
      wj_syncer = True, wj_fsyncs = fsyncs, wj_last_checkpoint = 0, wj_max_size = 100,
      wj_current_size = n, wj_failed = False\<rparr>"

definition sample_system :: "nat \<Rightarrow> (nat \<times> bool) option \<Rightarrow> nat \<Rightarrow> nat \<Rightarrow> journal_system" where
  "sample_system st fl synced promised =
     \<lparr>js_journal = sample_journal 1 synced (if st = 65 then 1 else 0) 65,
      js_disk = \<lparr>jd_named = Some \<lparr>df_bytes = header_bytes 0 0 @ serialize sample_entry, df_stable = st\<rparr>,
                 jd_replaced = []\<rparr>,
      js_flight = fl, js_entries = [sample_entry], js_old = 0, js_base = 0, js_promised = promised\<rparr>"

lemma sample_reach: "journal_reach (\<lambda>_. 0) (sample_system 65 None 1 1)"
proof -
  let ?crc = "\<lambda>_ :: bytes. 0 :: 32 word"
  let ?s0 = "journal_started ?crc [] 0 (sample_journal 0 0 0 28) (stable_disk (header_bytes 0 0))"
  have opn: "open_journal ?crc os_ok 100 (disk_after_crash None) =
      (Inr (sample_journal 0 0 0 28), stable_disk (header_bytes 0 0))"
    by (simp add: open_journal_def disk_after_crash_def open_fresh_def new_journal_def opened_def
        disk_rename_def disk_sync_dir_def file_sync_def sample_journal_def journal_sizes Let_def)
  have e0: "entries_on ?crc (sample_journal 0 0 0 28) (stable_disk (header_bytes 0 0)) = []"
    using scan_starts_with [OF starts_with_header [of 0 0 ?crc]]
    by (simp add: entries_on_def sample_journal_def journal_len_def journal_sizes)
  have s0: "journal_reach ?crc ?s0" using Reach_open [OF opn] e0 by simp
  have ntl: "\<not> too_large sample_entry"
    by (simp add: too_large_def sample_entry_def write_entry_def Let_def MAX_ENTRY_DATA_def)
  have app: "log_write ?crc Wrote Cut_ok ''v'' 0 0 [7] (sample_journal 0 0 0 28)
      \<lparr>df_bytes = header_bytes 0 0, df_stable = 28\<rparr> =
    (Inr 0, sample_journal 1 0 0 65, \<lparr>df_bytes = header_bytes 0 0 @ serialize sample_entry, df_stable = 28\<rparr>)"
    unfolding log_write_def
    using append_entry_live [OF ntl, of "sample_journal 0 0 0 28" "\<lparr>fh_cursor = 28, fh_append = False\<rparr>" Wrote]
    by (simp add: sample_journal_def sample_entry_def [symmetric] file_write_def Let_def sample_length
        journal_sizes)
  have "journal_step ?crc ?s0
      (appended sample_entry (log_write ?crc Wrote Cut_ok ''v'' 0 0 [7] (js_journal ?s0)
        \<lparr>df_bytes = header_bytes 0 0, df_stable = 28\<rparr>) ?s0)"
    by (rule Step_write)
      (simp_all add: journal_started_def is_string_def as_bytes_def utf8_char_len_def sample_entry_def
        sample_journal_def room_for_def journal_len_def sample_length [unfolded sample_entry_def] journal_sizes)
  moreover have "js_journal ?s0 = sample_journal 0 0 0 28" by (simp add: journal_started_def)
  moreover have "appended sample_entry (Inr 0, sample_journal 1 0 0 65,
      \<lparr>df_bytes = header_bytes 0 0 @ serialize sample_entry, df_stable = 28\<rparr>) ?s0 = sample_system 28 None 0 0"
    by (simp add: appended_def journal_started_def sample_system_def sample_journal_def)
  ultimately have s1: "journal_step ?crc ?s0 (sample_system 28 None 0 0)" by (simp only: app)
  have s2: "journal_step ?crc (sample_system 28 None 0 0) (sample_system 28 (Some (1, False)) 0 0)"
    using Step_sync_enter [of "sample_system 28 None 0 0" 1 1 ?crc]
    by (simp add: sample_system_def sample_journal_def sync_enter_def check_def)
  have s3: "journal_step ?crc (sample_system 28 (Some (1, False)) 0 0) (sample_system 65 (Some (1, True)) 0 0)"
  proof -
    let ?f = "\<lparr>df_bytes = header_bytes 0 0 @ serialize sample_entry, df_stable = 28\<rparr>"
    have run: "sync_run True (js_journal (sample_system 28 (Some (1, False)) 0 0)) ?f =
        (Inr (), sample_journal 1 0 1 65, ?f\<lparr>df_stable := 65\<rparr>)"
      by (simp add: sample_system_def sample_journal_def sync_run_def file_sync_def sample_length
          journal_sizes)
    have "(sample_system 28 (Some (1, False)) 0 0)\<lparr>js_journal := sample_journal 1 0 1 65,
        js_disk := (js_disk (sample_system 28 (Some (1, False)) 0 0))\<lparr>jd_named := Some (?f\<lparr>df_stable := 65\<rparr>)\<rparr>,
        js_flight := (case Inr () :: journal_fault + unit of Inl _ \<Rightarrow> None | Inr _ \<Rightarrow> Some (1, True))\<rparr> =
      sample_system 65 (Some (1, True)) 0 0"
      by (simp add: sample_system_def)
    with Step_sync_run [OF _ _ run, of 1 ?crc] show ?thesis by (simp add: sample_system_def)
  qed
  have s4: "journal_step ?crc (sample_system 65 (Some (1, True)) 0 0) (sample_system 65 None 1 1)"
    using Step_sync_publish [of "sample_system 65 (Some (1, True)) 0 0" 1 ?crc]
    by (simp add: sample_system_def sample_journal_def sync_publish_def)
  show ?thesis using Reach_step [OF Reach_step [OF Reach_step [OF Reach_step [OF s0 s1] s2] s3] s4] .
qed

theorem synced_entry_survives_power_cut_witness:
  "\<exists>extra. recover (\<lambda>_. 0) os_ok (opened_journal 100 0 0 65) (jd_named sample_disk) =
     Inr (unflushed ([sample_entry] @ extra))"
proof -
  have "crash_image (js_disk (sample_system 65 None 1 1)) (Some (header_bytes 0 0 @ serialize sample_entry))"
    by (simp add: crash_image_def file_image_def sample_system_def sample_length journal_sizes)
  from synced_entry_survives_power_cut [OF sample_reach _ _ _ this sample_open, of 0] show ?thesis
    by (simp add: sample_system_def sample_journal_def sample_entry_def)
qed

text \<open>
  C3. An append is all or nothing. However the write ends (whole, cut short, without room, with
  a cut that fails too), a recovery afterwards returns the entries there were, and the new one
  exactly if the append returned its number.
\<close>

theorem append_all_or_nothing:
  assumes "journal_inv crc es j f" and "entry_ok crc e" and "journal_len (es @ [e]) < 2 ^ 64"
  shows "case append_entry wr cutr e j f of
      (Inr n, j', f') \<Rightarrow> n = wj_sequence j \<and>
        recover crc os_ok j' (Some f') = Inr (unflushed (es @ [e]))
    | (Inl x, j', f') \<Rightarrow> recover crc os_ok j' (Some f') = Inr (unflushed es)"
proof -
  obtain r j' f' where res: "append_entry wr cutr e j f = (r, j', f')" using prod_cases3 by blast
  have inv: "journal_inv crc (case r of Inl _ \<Rightarrow> es | Inr _ \<Rightarrow> es @ [e]) j' f'"
    using append_entry_inv [OF assms(1) res _ assms(3)] assms(2) by simp
  have "n = wj_sequence j" if "r = Inr n" for n
    using assms(1) res by (cases rule: append_entry_cases) (use that in auto)
  then show ?thesis using recover_inv [OF inv, of os_ok] res by (auto split: sum.split)
qed

theorem append_all_or_nothing_witness:
  "case append_entry (Short 5 False) Cut_ok sample_entry (sample_journal 1 0 0 65)
      \<lparr>df_bytes = header_bytes 0 0 @ serialize sample_entry, df_stable = 28\<rparr> of
     (Inr n, j', f') \<Rightarrow> n = 1 \<and>
        recover (\<lambda>_. 0) os_ok j' (Some f') = Inr (unflushed ([sample_entry] @ [sample_entry]))
   | (Inl x, j', f') \<Rightarrow> recover (\<lambda>_. 0) os_ok j' (Some f') = Inr (unflushed [sample_entry])"
proof -
  have inv: "journal_inv (\<lambda>_. 0) [sample_entry] (sample_journal 1 0 0 65)
      \<lparr>df_bytes = header_bytes 0 0 @ serialize sample_entry, df_stable = 28\<rparr>"
    by (simp add: journal_inv_def sample_starts sample_journal_def writes_at_end_def journal_len_def
        sample_length journal_sizes)
  have len: "journal_len ([sample_entry] @ [sample_entry]) < 2 ^ 64"
    by (simp only: journal_len_def entries_bytes_simps length_append sample_length) (simp add: journal_sizes)
  have seq: "wj_sequence (sample_journal 1 0 0 65) = 1" by (simp add: sample_journal_def)
  show ?thesis
    using append_all_or_nothing [OF inv sample_entry_ok len, of "Short 5 False" Cut_ok]
    unfolding seq .
qed



text \<open>
  C12. The journal is fail-stop: once a write, a sync or the sync of a rotation has failed, every
  append, every sync that something is left to do for, and every rotation refuses, and nothing
  it holds or has on disk changes.
\<close>

theorem failed_journal_refuses:
  assumes "wj_failed j"
  shows "(\<exists>x. append_entry wr cutr e j f = (Inl x, j, f)) \<and>
    (wj_synced j < up_to \<longrightarrow> sync_to ok up_to j f = (Inl Takes_no_writes, j, f)) \<and>
    sync ok j f = (Inl Takes_no_writes, j, f) \<and>
    rotate os j d = (Inl Takes_no_writes, j, d)"
  using assms append_entry_refused [of e j wr cutr f]
  by (simp add: sync_to_def sync_enter_def sync_def rotate_def check_def)

theorem failed_journal_refuses_witness:
  "rotate os_ok ((sample_journal 1 0 0 65)\<lparr>wj_failed := True\<rparr>) sample_disk =
     (Inl Takes_no_writes, (sample_journal 1 0 0 65)\<lparr>wj_failed := True\<rparr>, sample_disk)"
  using failed_journal_refuses [of "(sample_journal 1 0 0 65)\<lparr>wj_failed := True\<rparr>" Wrote Cut_ok sample_entry
      "\<lparr>df_bytes = [], df_stable = 0\<rparr>" 1 True os_ok sample_disk]
  by simp

end
