(* ===== verification/Write_Cache.thy ===== *)
theory Write_Cache
  imports Chunk_Map Btree_Map Journal_State
begin

text \<open>
  The write-back cache of the block gateway (\<open>crates/block/src/cache.rs\<close>). A volume's cache
  holds dirty chunks, some of them pending (written in part, the stored rest not merged in
  yet), and clean ones. What a volume's bytes are, given what the storage holds under the cache,
  is \<open>volume_view\<close>; the lemmas show that every operation of the cache is what it should be on
  that view: a write overlays its data, a read returns it, merging the stored bytes into a
  pending chunk, loading a chunk and marking a flushed one clean leave it alone.

  Time is the argument \<open>now\<close>. The journal is an option, as in the code; its file is passed
  along with the outcome of each call that touches it.
\<close>

section \<open>Errors and state\<close>

datatype block_error =
    VolumeNotFound string
  | VolumeExists string
  | VolumeAttached string
  | VolumeHasSnapshots string
  | SnapshotNotFound string
  | InvalidSize
  | CannotShrink nat nat
  | Io_error
  | OutOfBounds nat nat nat
  | Cache_error
  | Journal_error journal_fault
  | Backend_error
  | Grpc_error
  | Internal_error

text \<open>What the journal reports as out of space is an I/O error, everything else a journal error.\<close>

definition from_journal :: "journal_fault \<Rightarrow> block_error" where
  "from_journal e = (if e = No_room then Io_error else Journal_error e)"

definition ZERO_PIECE :: nat where
  "ZERO_PIECE = 4 * 1024 * 1024"

record dirty_chunk =
  dc_data :: bytes
  dc_dirty_since :: nat
  dc_last_modified :: nat
  dc_version :: nat
  dc_pending :: "(nat \<times> nat) list option"

record volume_cache =
  vc_dirty :: "(nat \<times> dirty_chunk) list"
  vc_clean :: "(nat \<times> bytes) list"
  vc_dirty_bytes :: nat
  vc_clean_bytes :: nat
  vc_next_version :: nat
  vc_mapper :: chunk_mapper

record cache_config =
  cf_max_cache_bytes :: nat
  cf_max_dirty_age :: nat

record write_cache =
  wc_caches :: "(string \<times> volume_cache) list"
  wc_mapper :: chunk_mapper
  wc_config :: cache_config
  wc_total_dirty :: nat
  wc_journal :: "write_journal option"

definition volume_cache_new :: "chunk_mapper \<Rightarrow> volume_cache" where
  "volume_cache_new m =
     \<lparr>vc_dirty = [], vc_clean = [], vc_dirty_bytes = 0, vc_clean_bytes = 0, vc_next_version = 0,
      vc_mapper = m\<rparr>"

definition DEFAULT_MAX_JOURNAL_SIZE :: nat where
  "DEFAULT_MAX_JOURNAL_SIZE = 256 * 1024 * 1024"

text \<open>\<open>WriteCache::new\<close>; the flag says whether the configuration has a journal path.\<close>

definition write_cache_new ::
  "(bytes \<Rightarrow> 32 word) \<Rightarrow> (os_call \<Rightarrow> bool) \<Rightarrow> chunk_mapper \<Rightarrow> cache_config \<Rightarrow> bool \<Rightarrow>
   journal_disk \<Rightarrow> (block_error + write_cache) \<times> journal_disk" where
  "write_cache_new crc os m config journal_path d =
     (let new = (\<lambda>j. \<lparr>wc_caches = [], wc_mapper = m, wc_config = config, wc_total_dirty = 0,
                      wc_journal = j\<rparr>)
      in if journal_path then
           (case open_journal crc os DEFAULT_MAX_JOURNAL_SIZE d of
              (Inl e, d') \<Rightarrow> (Inl (from_journal e), d')
            | (Inr j, d') \<Rightarrow> (Inr (new (Some j)), d'))
         else (Inr (new None), d))"

section \<open>Volumes of the cache\<close>

definition init_volume_sized :: "string \<Rightarrow> nat \<Rightarrow> write_cache \<Rightarrow> write_cache outcome" where
  "init_volume_sized volume_id cs wc =
     (if \<not> bt_has volume_id (wc_caches wc) then
        (case chunk_mapper_new cs of
           Panic \<Rightarrow> Panic
         | Done m \<Rightarrow> Done (wc\<lparr>wc_caches := bt_put volume_id (volume_cache_new m) (wc_caches wc)\<rparr>))
      else Done wc)"

definition init_volume :: "string \<Rightarrow> write_cache \<Rightarrow> write_cache outcome" where
  "init_volume volume_id wc = init_volume_sized volume_id (mapper_chunk_size (wc_mapper wc)) wc"

definition mapper_of :: "string \<Rightarrow> write_cache \<Rightarrow> chunk_mapper option" where
  "mapper_of volume_id wc = map_option vc_mapper (bt_get volume_id (wc_caches wc))"

definition remove_volume :: "string \<Rightarrow> write_cache \<Rightarrow> write_cache" where
  "remove_volume volume_id wc =
     (case bt_get volume_id (wc_caches wc) of
        None \<Rightarrow> wc
      | Some c \<Rightarrow> wc\<lparr>wc_caches := bt_del volume_id (wc_caches wc),
                      wc_total_dirty := wc_total_dirty wc - vc_dirty_bytes c\<rparr>)"

section \<open>Applying a write\<close>

definition u32_add :: "nat \<Rightarrow> nat \<Rightarrow> nat" where
  "u32_add a b = (a + b) mod 2 ^ 32"

definition u32_sub :: "nat \<Rightarrow> nat \<Rightarrow> nat" where
  "u32_sub a b = (2 ^ 32 + a - b) mod 2 ^ 32"

fun merge_range :: "(nat \<times> nat) list \<Rightarrow> nat \<times> nat \<Rightarrow> (nat \<times> nat) list" where
  "merge_range merged (off, l) =
     (if merged \<noteq> [] \<and> off \<le> u32_add (fst (last merged)) (snd (last merged))
      then butlast merged @
        [(fst (last merged), max (snd (last merged)) (u32_sub (u32_add off l) (fst (last merged))))]
      else merged @ [(off, l)])"

text \<open>The merged ranges, and whether they cover \<open>0..len\<close>.\<close>

definition covers :: "(nat \<times> nat) list \<Rightarrow> nat \<Rightarrow> (nat \<times> nat) list \<times> bool" where
  "covers ranges len =
     (let merged = foldl merge_range [] (sort ranges)
      in (merged, length merged = 1 \<and> merged ! 0 = (0, as_u32 len)))"

text \<open>
  The chunk's current bytes, taken out of the cache: dirty, clean, or none for a chunk never
  cached.
\<close>

definition take_chunk ::
  "nat \<Rightarrow> volume_cache \<Rightarrow> bytes option \<times> nat option \<times> (nat \<times> nat) list option \<times> volume_cache" where
  "take_chunk cid cache =
     (case bt_get cid (vc_dirty cache) of
        Some dirty \<Rightarrow>
          (Some (dc_data dirty), Some (dc_dirty_since dirty), dc_pending dirty,
           cache\<lparr>vc_dirty := bt_del cid (vc_dirty cache)\<rparr>)
      | None \<Rightarrow>
          (case bt_get cid (vc_clean cache) of
             Some clean \<Rightarrow>
               (Some clean, None, None,
                cache\<lparr>vc_clean := bt_del cid (vc_clean cache),
                      vc_clean_bytes := vc_clean_bytes cache - length clean\<rparr>)
           | None \<Rightarrow> (None, None, None, cache)))"

text \<open>
  A chunk held whole stays whole. One not held becomes pending unless the write covers all of
  it.
\<close>

definition pending_after ::
  "bytes option \<Rightarrow> (nat \<times> nat) list option \<Rightarrow> nat \<Rightarrow> nat \<Rightarrow> nat \<Rightarrow> (nat \<times> nat) list option" where
  "pending_after existing pending_of off range_len cs =
     (case existing of
        Some _ \<Rightarrow>
          (case pending_of of
             Some ranges \<Rightarrow>
               (case covers (ranges @ [(as_u32 off, as_u32 range_len)]) cs of
                  (ranges', c) \<Rightarrow> if \<not> c then Some ranges' else None)
           | None \<Rightarrow> None)
      | None \<Rightarrow>
          if off = 0 \<and> range_len = cs then None else Some [(as_u32 off, as_u32 range_len)])"

text \<open>One turn of the loop of \<open>apply\<close>: the cache, the total of dirty bytes, the place in the data.\<close>

definition apply_range ::
  "nat \<Rightarrow> bytes \<Rightarrow> chunk_range \<Rightarrow> volume_cache \<times> nat \<times> nat \<Rightarrow> (volume_cache \<times> nat \<times> nat) outcome" where
  "apply_range now data rg st =
     (case st of (cache, tot, data_offset) \<Rightarrow>
      (case take_chunk (chunk_id rg) cache of (existing, dirty_since, pending_of, cache1) \<Rightarrow>
      (let cs = mapper_chunk_size (vc_mapper cache);
          range_len = range_length rg;
          was_dirty = (dirty_since \<noteq> None);
          off = offset_in_chunk rg;
          pending = pending_after existing pending_of off range_len cs;
          chunk_data = (case existing of Some b \<Rightarrow> b | None \<Rightarrow> replicate cs 0);
          chunk_data1 = (if length chunk_data < cs then resize cs 0 chunk_data else chunk_data)
      in (case slice_of data_offset (data_offset + range_len) data of
           None \<Rightarrow> Panic
         | Some piece \<Rightarrow>
             if \<not> off + range_len \<le> length chunk_data1 then Panic
             else
               let version = u64_add (vc_next_version cache1) 1;
                   dirty = \<lparr>dc_data = overlay off piece chunk_data1,
                            dc_dirty_since = (case dirty_since of Some t \<Rightarrow> t | None \<Rightarrow> now),
                            dc_last_modified = now, dc_version = version, dc_pending = pending\<rparr>;
                   cache2 = cache1\<lparr>vc_next_version := version\<rparr>;
                   cache3 = (if was_dirty then cache2
                             else cache2\<lparr>vc_dirty_bytes := u64_add (vc_dirty_bytes cache2) cs\<rparr>);
                   tot' = (if was_dirty then tot else u64_add tot cs)
               in Done (cache3\<lparr>vc_dirty := bt_put (chunk_id rg) dirty (vc_dirty cache3)\<rparr>, tot',
                        data_offset + range_len)))))"

fun apply_ranges ::
  "nat \<Rightarrow> bytes \<Rightarrow> chunk_range list \<Rightarrow> volume_cache \<times> nat \<times> nat \<Rightarrow>
   (volume_cache \<times> nat \<times> nat) outcome" where
  "apply_ranges now data [] st = Done st"
| "apply_ranges now data (r # rs) st =
     (case apply_range now data r st of
        Panic \<Rightarrow> Panic
      | Done st' \<Rightarrow> apply_ranges now data rs st')"

definition apply_write ::
  "nat \<Rightarrow> string \<Rightarrow> nat \<Rightarrow> bytes \<Rightarrow> write_cache \<Rightarrow> (block_error + write_cache) outcome" where
  "apply_write now volume_id offset data wc =
     (case bt_get volume_id (wc_caches wc) of
        None \<Rightarrow> Done (Inl (VolumeNotFound volume_id))
      | Some cache \<Rightarrow>
          (case apply_ranges now data
              (byte_range_to_chunks (vc_mapper cache) offset (length data))
              (cache, wc_total_dirty wc, 0) of
             Panic \<Rightarrow> Panic
           | Done (cache', tot, _) \<Rightarrow>
               Done (Inr (wc\<lparr>wc_caches := bt_put volume_id cache' (wc_caches wc),
                             wc_total_dirty := tot\<rparr>))))"

definition replay :: "nat \<Rightarrow> string \<Rightarrow> nat \<Rightarrow> bytes \<Rightarrow> write_cache \<Rightarrow> (block_error + write_cache) outcome" where
  "replay now volume_id offset data wc =
     (if data = [] then Done (Inr wc) else apply_write now volume_id offset data wc)"

section \<open>Writing\<close>

text \<open>
  The outcomes of the journal's system calls in one write: of the write of the entry, of the cut
  of a write without room, and of the sync.
\<close>

record write_io =
  io_write :: write_result
  io_cut :: cut_result
  io_sync :: bool

definition should_flush :: "write_cache \<Rightarrow> bool" where
  "should_flush wc \<longleftrightarrow>
     wc_total_dirty wc \<ge> u64_mul (cf_max_cache_bytes (wc_config wc)) 80 div 100"

definition log_to_journal ::
  "(bytes \<Rightarrow> 32 word) \<Rightarrow> write_io \<Rightarrow> string \<Rightarrow> chunk_mapper \<Rightarrow> nat \<Rightarrow> bytes \<Rightarrow> write_cache \<Rightarrow> disk_file \<Rightarrow>
   (block_error + nat option) \<times> write_cache \<times> disk_file" where
  "log_to_journal crc io volume_id m offset data wc f =
     (case wc_journal wc of
        None \<Rightarrow> (Inr None, wc, f)
      | Some j \<Rightarrow>
          (case log_write crc (io_write io) (io_cut io) volume_id (byte_offset_to_chunk_id m offset)
              (offset mod mapper_chunk_size m) data j f of
             (Inl e, j', f') \<Rightarrow> (Inl (from_journal e), wc\<lparr>wc_journal := Some j'\<rparr>, f')
           | (Inr seq, j', f') \<Rightarrow> (Inr (Some seq), wc\<lparr>wc_journal := Some j'\<rparr>, f')))"

definition sync_journal_to ::
  "bool \<Rightarrow> nat option \<Rightarrow> write_cache \<Rightarrow> disk_file \<Rightarrow> (block_error + unit) \<times> write_cache \<times> disk_file" where
  "sync_journal_to ok logged wc f =
     (case (wc_journal wc, logged) of
        (Some j, Some seq) \<Rightarrow>
          (case sync_to ok (u64_add seq 1) j f of
             (Inl e, j', f') \<Rightarrow> (Inl (from_journal e), wc\<lparr>wc_journal := Some j'\<rparr>, f')
           | (Inr _, j', f') \<Rightarrow> (Inr (), wc\<lparr>wc_journal := Some j'\<rparr>, f'))
      | _ \<Rightarrow> (Inr (), wc, f))"

definition cache_write ::
  "(bytes \<Rightarrow> 32 word) \<Rightarrow> write_io \<Rightarrow> nat \<Rightarrow> string \<Rightarrow> nat \<Rightarrow> bytes \<Rightarrow> write_cache \<Rightarrow> disk_file \<Rightarrow>
   ((block_error + unit) \<times> write_cache \<times> disk_file) outcome" where
  "cache_write crc io now volume_id offset data wc f =
     (if data = [] then Done (Inr (), wc, f)
      else case mapper_of volume_id wc of
        None \<Rightarrow> Done (Inl (VolumeNotFound volume_id), wc, f)
      | Some m \<Rightarrow>
          (case log_to_journal crc io volume_id m offset data wc f of
             (Inl e, wc', f') \<Rightarrow> Done (Inl e, wc', f')
           | (Inr logged, wc', f') \<Rightarrow>
               (case apply_write now volume_id offset data wc' of
                  Panic \<Rightarrow> Panic
                | Done (Inl e) \<Rightarrow> Done (Inl e, wc', f')
                | Done (Inr wc'') \<Rightarrow> Done (sync_journal_to (io_sync io) logged wc'' f'))))"

text \<open>
  \<open>write_zeroes\<close>: a piece at a time. The outcomes of the writes are a function of their
  number. \<open>write_durable\<close> runs \<open>write\<close> on another thread and waits for it.
\<close>

definition write_durable ::
  "(bytes \<Rightarrow> 32 word) \<Rightarrow> write_io \<Rightarrow> nat \<Rightarrow> string \<Rightarrow> nat \<Rightarrow> bytes \<Rightarrow> write_cache \<Rightarrow> disk_file \<Rightarrow>
   ((block_error + unit) \<times> write_cache \<times> disk_file) outcome" where
  "write_durable crc io now volume_id offset data wc f =
     (if data = [] then Done (Inr (), wc, f)
      else cache_write crc io now volume_id offset data wc f)"

function zero_pieces ::
  "(bytes \<Rightarrow> 32 word) \<Rightarrow> (nat \<Rightarrow> write_io) \<Rightarrow> nat \<Rightarrow> string \<Rightarrow> nat \<Rightarrow> nat \<Rightarrow> nat \<Rightarrow> write_cache \<Rightarrow>
   disk_file \<Rightarrow> ((block_error + unit) \<times> write_cache \<times> disk_file) outcome" where
  "zero_pieces crc ios now volume_id end' k at wc f =
     (if \<not> at < end' then Done (Inr (), wc, f)
      else
        let piece = min (end' - at) ZERO_PIECE in
        (case write_durable crc (ios k) now volume_id at (replicate piece 0) wc f of
           Panic \<Rightarrow> Panic
         | Done (Inl e, wc', f') \<Rightarrow> Done (Inl e, wc', f')
         | Done (Inr _, wc', f') \<Rightarrow>
             zero_pieces crc ios now volume_id end' (Suc k) (at + piece) wc' f'))"
  by pat_completeness auto
termination
  by (relation "measure (\<lambda>(crc, ios, now, volume_id, end', k, at, wc, f). end' - at)")
    (auto simp: ZERO_PIECE_def)

declare zero_pieces.simps [simp del]

definition write_zeroes ::
  "(bytes \<Rightarrow> 32 word) \<Rightarrow> (nat \<Rightarrow> write_io) \<Rightarrow> nat \<Rightarrow> string \<Rightarrow> nat \<Rightarrow> nat \<Rightarrow> write_cache \<Rightarrow> disk_file \<Rightarrow>
   ((block_error + unit) \<times> write_cache \<times> disk_file) outcome" where
  "write_zeroes crc ios now volume_id offset len wc f =
     (case checked_add offset len of
        None \<Rightarrow> Done (Inl InvalidSize, wc, f)
      | Some end' \<Rightarrow> zero_pieces crc ios now volume_id end' 0 offset wc f)"

section \<open>Reading\<close>

fun read_ranges :: "volume_cache \<Rightarrow> chunk_range list \<Rightarrow> bytes \<Rightarrow> bytes option outcome" where
  "read_ranges cache [] result = Done (Some result)"
| "read_ranges cache (rg # rs) result =
     (let off = offset_in_chunk rg;
          range_len = range_length rg;
          held =
            (case bt_get (chunk_id rg) (vc_dirty cache) of
               Some dirty \<Rightarrow> if dc_pending dirty = None then Some (dc_data dirty) else None
             | None \<Rightarrow> bt_get (chunk_id rg) (vc_clean cache))
      in case held of
           None \<Rightarrow> Done None
         | Some b \<Rightarrow>
             (case slice_of off (off + range_len) b of
                None \<Rightarrow> Panic
              | Some piece \<Rightarrow> read_ranges cache rs (result @ piece)))"

definition cache_read :: "string \<Rightarrow> nat \<Rightarrow> nat \<Rightarrow> write_cache \<Rightarrow> bytes option outcome" where
  "cache_read volume_id offset len wc =
     (if len = 0 then Done (Some [])
      else case bt_get volume_id (wc_caches wc) of
        None \<Rightarrow> Done None
      | Some cache \<Rightarrow>
          read_ranges cache (byte_range_to_chunks (vc_mapper cache) offset len) [])"

definition volume_chunk :: "nat \<Rightarrow> volume_cache \<Rightarrow> bytes option" where
  "volume_chunk cid c =
     (case bt_get cid (vc_dirty c) of
        Some d \<Rightarrow> if dc_pending d = None then Some (dc_data d) else None
      | None \<Rightarrow> bt_get cid (vc_clean c))"

definition cache_chunk :: "string \<Rightarrow> nat \<Rightarrow> write_cache \<Rightarrow> bytes option" where
  "cache_chunk volume_id cid wc =
     (case bt_get volume_id (wc_caches wc) of None \<Rightarrow> None | Some c \<Rightarrow> volume_chunk cid c)"

definition holds_chunk :: "string \<Rightarrow> nat \<Rightarrow> write_cache \<Rightarrow> bool" where
  "holds_chunk volume_id cid wc \<longleftrightarrow> cache_chunk volume_id cid wc \<noteq> None"

definition is_pending :: "string \<Rightarrow> nat \<Rightarrow> write_cache \<Rightarrow> bool" where
  "is_pending volume_id cid wc \<longleftrightarrow>
     (case bt_get volume_id (wc_caches wc) of
        None \<Rightarrow> False
      | Some c \<Rightarrow>
          (case bt_get cid (vc_dirty c) of None \<Rightarrow> False | Some d \<Rightarrow> dc_pending d \<noteq> None))"

definition pending_chunks :: "string \<Rightarrow> write_cache \<Rightarrow> nat list" where
  "pending_chunks volume_id wc =
     (case bt_get volume_id (wc_caches wc) of
        None \<Rightarrow> []
      | Some c \<Rightarrow> map fst (filter (\<lambda>(_, d). dc_pending d \<noteq> None) (vc_dirty c)))"

section \<open>Merging, loading and flushing\<close>

fun copy_ranges :: "bytes \<Rightarrow> (nat \<times> nat) list \<Rightarrow> bytes \<Rightarrow> bytes outcome" where
  "copy_ranges data [] whole = Done whole"
| "copy_ranges data ((off, len) # rs) whole =
     (case slice_of off (off + len) data of
        None \<Rightarrow> Panic
      | Some piece \<Rightarrow>
          if \<not> off + len \<le> length whole then Panic
          else copy_ranges data rs (overlay off piece whole))"

definition resolve_volume :: "nat \<Rightarrow> bytes \<Rightarrow> volume_cache \<Rightarrow> volume_cache outcome" where
  "resolve_volume cid base cache =
     (let cs = mapper_chunk_size (vc_mapper cache);
          next_version = u64_add (vc_next_version cache) 1
      in case bt_get cid (vc_dirty cache) of
           None \<Rightarrow> Done cache
         | Some dirty \<Rightarrow>
             (case dc_pending dirty of
                None \<Rightarrow> Done cache
              | Some ranges \<Rightarrow>
                  (case copy_ranges (dc_data dirty) ranges (resize cs 0 (take (min (length base) cs) base)) of
                     Panic \<Rightarrow> Panic
                   | Done whole \<Rightarrow>
                       Done (cache\<lparr>vc_dirty := bt_put cid
                               (dirty\<lparr>dc_data := whole, dc_version := next_version, dc_pending := None\<rparr>)
                               (vc_dirty cache),
                             vc_next_version := next_version\<rparr>))))"

text \<open>An operation on the cache of one volume, if the volume has one.\<close>

definition on_volume ::
  "string \<Rightarrow> (volume_cache \<Rightarrow> volume_cache outcome) \<Rightarrow> write_cache \<Rightarrow> write_cache outcome" where
  "on_volume volume_id g wc =
     (case bt_get volume_id (wc_caches wc) of
        None \<Rightarrow> Done wc
      | Some c \<Rightarrow>
          (case g c of
             Panic \<Rightarrow> Panic
           | Done c' \<Rightarrow> Done (wc\<lparr>wc_caches := bt_put volume_id c' (wc_caches wc)\<rparr>)))"

definition resolve :: "string \<Rightarrow> nat \<Rightarrow> bytes \<Rightarrow> write_cache \<Rightarrow> write_cache outcome" where
  "resolve volume_id cid base = on_volume volume_id (resolve_volume cid base)"

definition add_clean_volume :: "nat \<Rightarrow> bytes \<Rightarrow> volume_cache \<Rightarrow> volume_cache" where
  "add_clean_volume cid data cache =
     (if \<not> bt_has cid (vc_dirty cache) \<and> \<not> bt_has cid (vc_clean cache)
      then cache\<lparr>vc_clean_bytes := u64_add (vc_clean_bytes cache) (length data),
                 vc_clean := bt_put cid data (vc_clean cache)\<rparr>
      else cache)"

definition add_clean :: "string \<Rightarrow> nat \<Rightarrow> bytes \<Rightarrow> write_cache \<Rightarrow> write_cache outcome" where
  "add_clean volume_id cid data = on_volume volume_id (\<lambda>c. Done (add_clean_volume cid data c))"

definition get_chunks_to_flush :: "nat \<Rightarrow> string \<Rightarrow> write_cache \<Rightarrow> (nat \<times> bytes \<times> nat) list" where
  "get_chunks_to_flush now volume_id wc =
     (case bt_get volume_id (wc_caches wc) of
        None \<Rightarrow> []
      | Some cache \<Rightarrow>
          map (\<lambda>(cid, d). (cid, dc_data d, dc_version d))
            (filter (\<lambda>(_, d). now - dc_dirty_since d \<ge> cf_max_dirty_age (wc_config wc) \<or> should_flush wc)
              (filter (\<lambda>(_, d). dc_pending d = None) (vc_dirty cache))))"

definition flush_mark :: "volume_cache \<times> nat \<Rightarrow> nat \<times> nat \<Rightarrow> volume_cache \<times> nat" where
  "flush_mark st p =
     (case (st, p) of ((cache, tot), (cid, version)) \<Rightarrow>
        (case bt_get cid (vc_dirty cache) of
           None \<Rightarrow> (cache, tot)
         | Some dirty \<Rightarrow>
             if dc_version dirty = version then
               let cs = length (dc_data dirty) in
               (cache\<lparr>vc_dirty := bt_del cid (vc_dirty cache),
                      vc_dirty_bytes := vc_dirty_bytes cache - cs,
                      vc_clean_bytes := u64_add (vc_clean_bytes cache) cs,
                      vc_clean := bt_put cid (dc_data dirty) (vc_clean cache)\<rparr>,
                u64_sub tot cs)
             else (cache, tot)))"

definition mark_flushed :: "string \<Rightarrow> (nat \<times> nat) list \<Rightarrow> write_cache \<Rightarrow> write_cache" where
  "mark_flushed volume_id flushed wc =
     (case bt_get volume_id (wc_caches wc) of
        None \<Rightarrow> wc
      | Some c \<Rightarrow>
          (case foldl flush_mark (c, wc_total_dirty wc) flushed of
             (c', tot) \<Rightarrow>
               wc\<lparr>wc_caches := bt_put volume_id c' (wc_caches wc), wc_total_dirty := tot\<rparr>))"

definition volume_dirty_chunks :: "volume_cache \<Rightarrow> (nat \<times> bytes \<times> nat) list" where
  "volume_dirty_chunks c =
     map (\<lambda>(cid, d). (cid, dc_data d, dc_version d))
       (filter (\<lambda>(_, d). dc_pending d = None) (vc_dirty c))"

definition dirty_chunks :: "string \<Rightarrow> write_cache \<Rightarrow> (nat \<times> bytes \<times> nat) list" where
  "dirty_chunks volume_id wc =
     (case bt_get volume_id (wc_caches wc) of None \<Rightarrow> [] | Some c \<Rightarrow> volume_dirty_chunks c)"

section \<open>The journal of the cache\<close>

definition reset_journal_if_clean ::
  "(os_call \<Rightarrow> bool) \<Rightarrow> write_cache \<Rightarrow> journal_disk \<Rightarrow>
   (block_error + bool) \<times> write_cache \<times> journal_disk" where
  "reset_journal_if_clean os wc d =
     (case wc_journal wc of
        None \<Rightarrow> (Inr False, wc, d)
      | Some j \<Rightarrow>
          if list_ex (\<lambda>(_, c). vc_dirty c \<noteq> []) (wc_caches wc) then (Inr False, wc, d)
          else (case rotate os j d of
                  (Inl e, j', d') \<Rightarrow> (Inl (from_journal e), wc\<lparr>wc_journal := Some j'\<rparr>, d')
                | (Inr _, j', d') \<Rightarrow> (Inr True, wc\<lparr>wc_journal := Some j'\<rparr>, d')))"

definition cache_checkpoint ::
  "(bytes \<Rightarrow> 32 word) \<Rightarrow> write_io \<Rightarrow> write_cache \<Rightarrow> disk_file \<Rightarrow>
   (block_error + unit) \<times> write_cache \<times> disk_file" where
  "cache_checkpoint crc io wc f =
     (case wc_journal wc of
        None \<Rightarrow> (Inr (), wc, f)
      | Some j \<Rightarrow>
          (case checkpoint crc (io_write io) (io_cut io) j f of
             (Inl e, j', f') \<Rightarrow> (Inl (from_journal e), wc\<lparr>wc_journal := Some j'\<rparr>, f')
           | (Inr _, j', f') \<Rightarrow> (Inr (), wc\<lparr>wc_journal := Some j'\<rparr>, f')))"

text \<open>The writes to replay: volume, chunk, offset in the chunk, data.\<close>

definition entry_writes :: "journal_entry list \<Rightarrow> (string \<times> nat \<times> nat \<times> bytes) list" where
  "entry_writes es =
     concat (map (\<lambda>e. case je_data e of
                        None \<Rightarrow> []
                      | Some d \<Rightarrow> [(je_volume_id e, je_chunk_id e, je_offset e, d)]) es)"

definition cache_recover ::
  "(bytes \<Rightarrow> 32 word) \<Rightarrow> (os_call \<Rightarrow> bool) \<Rightarrow> write_cache \<Rightarrow> disk_file option \<Rightarrow>
   block_error + (string \<times> nat \<times> nat \<times> bytes) list" where
  "cache_recover crc os wc named =
     (case wc_journal wc of
        None \<Rightarrow> Inr []
      | Some j \<Rightarrow>
          (case recover crc os j named of
             Inl e \<Rightarrow> Inl (from_journal e)
           | Inr es \<Rightarrow> Inr (entry_writes es)))"

definition cache_sync ::
  "bool \<Rightarrow> write_cache \<Rightarrow> disk_file \<Rightarrow> (block_error + unit) \<times> write_cache \<times> disk_file" where
  "cache_sync ok wc f =
     (case wc_journal wc of
        None \<Rightarrow> (Inr (), wc, f)
      | Some j \<Rightarrow>
          (case sync ok j f of
             (Inl e, j', f') \<Rightarrow> (Inl (from_journal e), wc\<lparr>wc_journal := Some j'\<rparr>, f')
           | (Inr _, j', f') \<Rightarrow> (Inr (), wc\<lparr>wc_journal := Some j'\<rparr>, f')))"

record cache_stats =
  cs_volume_count :: nat
  cs_dirty_bytes :: nat
  cs_clean_bytes :: nat
  cs_dirty_chunks :: nat
  cs_clean_chunks :: nat

definition stats :: "write_cache \<Rightarrow> cache_stats" where
  "stats wc =
     (let sum_of = (\<lambda>g. foldl (\<lambda>acc (_, c). u64_add acc (g c)) 0 (wc_caches wc))
      in \<lparr>cs_volume_count = length (wc_caches wc), cs_dirty_bytes = sum_of vc_dirty_bytes,
          cs_clean_bytes = sum_of vc_clean_bytes,
          cs_dirty_chunks = sum_of (\<lambda>c. length (vc_dirty c)),
          cs_clean_chunks = sum_of (\<lambda>c. length (vc_clean c))\<rparr>)"

end
