(* ===== verification/Cache_View.thy ===== *)
theory Cache_View
  imports Write_Cache
begin

text \<open>
  What the write cache promises: the bytes of a volume seen through the cache, the invariant of a
  volume's cache, and the effect of every operation on both. The interface \<open>block_device\<close> is
  what the rest of the gateway relies on, a device whose writes overlay and whose reads return
  its bytes, interpreted on the cache of one volume.
\<close>

section \<open>Ranges of a pending chunk\<close>

definition in_range :: "nat \<Rightarrow> nat \<times> nat \<Rightarrow> bool" where
  "in_range i r \<longleftrightarrow> fst r \<le> i \<and> i < fst r + snd r"

definition in_ranges :: "nat \<Rightarrow> (nat \<times> nat) list \<Rightarrow> bool" where
  "in_ranges i rs \<longleftrightarrow> list_ex (in_range i) rs"

definition ranges_ok :: "nat \<Rightarrow> (nat \<times> nat) list \<Rightarrow> bool" where
  "ranges_ok cs rs \<longleftrightarrow> list_all (\<lambda>r. 0 < snd r \<and> fst r + snd r \<le> cs) rs"

lemma in_ranges_simps [simp]:
  "\<not> in_ranges i []"
  "in_ranges i (r # rs) \<longleftrightarrow> in_range i r \<or> in_ranges i rs"
  "in_ranges i (rs @ rs') \<longleftrightarrow> in_ranges i rs \<or> in_ranges i rs'"
  by (simp_all add: in_ranges_def)

lemma ranges_ok_simps [simp]:
  "ranges_ok cs []"
  "ranges_ok cs (r # rs) \<longleftrightarrow> 0 < snd r \<and> fst r + snd r \<le> cs \<and> ranges_ok cs rs"
  "ranges_ok cs (rs @ rs') \<longleftrightarrow> ranges_ok cs rs \<and> ranges_ok cs rs'"
  by (simp_all add: ranges_ok_def)

lemma in_ranges_set: "set rs = set rs' \<Longrightarrow> in_ranges i rs = in_ranges i rs'"
  by (auto simp: in_ranges_def list_ex_iff)

lemma ranges_ok_set: "set rs = set rs' \<Longrightarrow> ranges_ok cs rs = ranges_ok cs rs'"
  by (auto simp: ranges_ok_def list_all_iff)

definition apart :: "nat \<times> nat \<Rightarrow> nat \<times> nat \<Rightarrow> bool" where
  "apart r r' \<longleftrightarrow> fst r + snd r < fst r'"

lemma u32_exact [simp]:
  "a + b < 2 ^ 32 \<Longrightarrow> u32_add a b = a + b"
  "b \<le> a \<Longrightarrow> a < 2 ^ 32 \<Longrightarrow> u32_sub a b = a - b"
proof -
  show "a + b < 2 ^ 32 \<Longrightarrow> u32_add a b = a + b" by (simp add: u32_add_def)
  assume "b \<le> a" "a < 2 ^ 32"
  then have "2 ^ 32 + a - b = (a - b) + 2 ^ 32" by simp
  then have "u32_sub a b = (a - b) mod 2 ^ 32" by (simp only: u32_sub_def mod_add_self2)
  with \<open>a < 2 ^ 32\<close> show "u32_sub a b = a - b" by simp
qed

lemma merge_ranges:
  assumes "cs < 2 ^ 32" and "ranges_ok cs rs" and "sorted rs"
  shows "(\<forall>i. in_ranges i (foldl merge_range [] rs) = in_ranges i rs) \<and>
    ranges_ok cs (foldl merge_range [] rs) \<and> sorted_wrt apart (foldl merge_range [] rs) \<and>
    fst ` set (foldl merge_range [] rs) \<subseteq> fst ` set rs"
  using assms(2,3)
proof (induction rs rule: rev_induct)
  case Nil
  then show ?case by simp
next
  case (snoc r rs)
  obtain off l where r: "r = (off, l)" by (cases r)
  define m where "m = foldl merge_range [] rs"
  have IH: "\<And>i. in_ranges i m = in_ranges i rs" "ranges_ok cs m" "sorted_wrt apart m"
      "fst ` set m \<subseteq> fst ` set rs"
    using snoc by (auto simp: m_def sorted_append)
  have before: "fst x \<le> off" if "x \<in> set m" for x
  proof -
    obtain y where "y \<in> set rs" "fst y = fst x" using IH(4) \<open>x \<in> set m\<close> by force
    moreover have "y \<le> r" using snoc.prems(2) \<open>y \<in> set rs\<close> by (simp add: sorted_append)
    ultimately show ?thesis using r by (auto simp: less_eq_prod_def)
  qed
  have l: "0 < l" "off + l \<le> cs" using snoc.prems(1) r by auto
  show ?case
  proof (cases "m \<noteq> [] \<and> off \<le> fst (last m) + snd (last m)")
    case False
    then have "merge_range m r = m @ [r]"
      using r IH(2) assms(1) by (cases m rule: rev_cases) auto
    moreover have "apart x r" if "x \<in> set m" for x
      using False that r IH(3) before
      by (cases m rule: rev_cases) (auto simp: apart_def sorted_wrt_append)
    ultimately show ?thesis
      using IH l r by (auto simp: m_def [symmetric] sorted_wrt_append)
  next
    case True
    then obtain m' o0 l0 where m: "m = m' @ [(o0, l0)]" by (cases m rule: rev_cases) auto
    have o0: "o0 \<le> off" "o0 + l0 \<le> cs" "off \<le> o0 + l0" using before [of "(o0, l0)"] IH(2) True m by auto
    define l1 where "l1 = max l0 (off + l - o0)"
    have step: "foldl merge_range [] (rs @ [r]) = m' @ [(o0, l1)]"
      using r m l o0 assms(1) by (auto simp: m_def [symmetric] l1_def)
    have in1: "in_range i (o0, l1) \<longleftrightarrow> in_range i (o0, l0) \<or> in_range i r" for i
      using o0 l r by (auto simp: in_range_def l1_def max_def)
    have "0 < l1" "o0 + l1 \<le> cs" using o0 l by (auto simp: l1_def)
    moreover have "apart x (o0, l1)" if "x \<in> set m'" for x
      using that IH(3) m by (auto simp: sorted_wrt_append apart_def)
    moreover have "in_ranges i m' \<or> in_range i (o0, l0) \<longleftrightarrow> in_ranges i rs" for i
      using IH(1) [of i] m by simp
    moreover have "sorted_wrt apart m'" "ranges_ok cs m'" "fst ` set m' \<subseteq> fst ` set rs" "o0 \<in> fst ` set rs"
      using IH(2-4) m by (auto simp: sorted_wrt_append)
    ultimately show ?thesis unfolding step by (auto simp: sorted_wrt_append in1)
  qed
qed

lemma covers_correct:
  assumes cs: "0 < cs" "cs < 2 ^ 32" and ok: "ranges_ok cs rs" and c: "covers rs cs = (rs', c)"
  shows "(\<forall>i. in_ranges i rs' = in_ranges i rs) \<and> ranges_ok cs rs' \<and>
    (c \<longleftrightarrow> (\<forall>i < cs. in_ranges i rs))"
proof -
  have m: "rs' = foldl merge_range [] (sort rs)" "c \<longleftrightarrow> rs' = [(0, cs)]"
    using c cs by (auto simp: covers_def Let_def length_Suc_conv)
  have sp: "\<And>i. in_ranges i rs' = in_ranges i rs" "ranges_ok cs rs'" "sorted_wrt apart rs'"
    using merge_ranges [OF cs(2), of "sort rs"] ok in_ranges_set [of "sort rs" rs]
      ranges_ok_set [of "sort rs" rs] by (auto simp: m(1))
  have "rs' = [(0, cs)]" if all: "\<forall>i < cs. in_ranges i rs'"
  proof (cases rs')
    case Nil
    then show ?thesis using all cs by auto
  next
    case (Cons r rest)
    obtain a l where r: "r = (a, l)" by (cases r)
    have beyond: "a + l < fst x \<and> fst x < cs" if "x \<in> set rest" for x
      using that sp(2,3) Cons r by (fastforce simp: apart_def ranges_ok_def list_all_iff)
    have not_rest: "\<not> in_ranges i rest" if "i \<le> a + l" for i
      using beyond that by (fastforce simp: in_ranges_def list_ex_iff in_range_def)
    have "a = 0" using all cs Cons r not_rest [of 0] by (auto simp: in_range_def)
    moreover have "\<not> a + l < cs" using all Cons r not_rest [of "a + l"] by (auto simp: in_range_def)
    moreover have "a + l \<le> cs" using sp(2) Cons r by simp
    moreover have "rest = []" using beyond \<open>\<not> a + l < cs\<close> by (cases rest) force+
    ultimately show ?thesis using Cons r by simp
  qed
  moreover have "in_ranges i rs'" if "rs' = [(0, cs)]" "i < cs" for i
    using that by (simp add: in_range_def)
  ultimately show ?thesis using sp m(2) by auto
qed

section \<open>The bytes of a volume\<close>

text \<open>The stored bytes under the cache, a chunk that was never stored being zeros.\<close>

definition stored :: "(nat \<Rightarrow> bytes) \<Rightarrow> nat \<Rightarrow> nat \<Rightarrow> byte" where
  "stored backing cid i = (if i < length (backing cid) then backing cid ! i else 0)"

definition chunk_view :: "(nat \<Rightarrow> bytes) \<Rightarrow> volume_cache \<Rightarrow> nat \<Rightarrow> nat \<Rightarrow> byte" where
  "chunk_view backing c cid i =
     (case bt_get cid (vc_dirty c) of
        Some d \<Rightarrow>
          (case dc_pending d of
             None \<Rightarrow> dc_data d ! i
           | Some rs \<Rightarrow> if in_ranges i rs then dc_data d ! i else stored backing cid i)
      | None \<Rightarrow>
          (case bt_get cid (vc_clean c) of Some b \<Rightarrow> b ! i | None \<Rightarrow> stored backing cid i))"

abbreviation vc_chunk_size :: "volume_cache \<Rightarrow> nat" where
  "vc_chunk_size c \<equiv> mapper_chunk_size (vc_mapper c)"

definition volume_view :: "(nat \<Rightarrow> bytes) \<Rightarrow> volume_cache \<Rightarrow> nat \<Rightarrow> byte" where
  "volume_view backing c x = chunk_view backing c (x div vc_chunk_size c) (x mod vc_chunk_size c)"

text \<open>The specification of a write.\<close>

definition write_at :: "nat \<Rightarrow> bytes \<Rightarrow> (nat \<Rightarrow> byte) \<Rightarrow> nat \<Rightarrow> byte" where
  "write_at off data v x = (if off \<le> x \<and> x < off + length data then data ! (x - off) else v x)"

section \<open>The invariant of a volume's cache\<close>

definition dirty_ok :: "nat \<Rightarrow> dirty_chunk \<Rightarrow> bool" where
  "dirty_ok cs d \<longleftrightarrow>
     length (dc_data d) = cs \<and> (case dc_pending d of None \<Rightarrow> True | Some rs \<Rightarrow> ranges_ok cs rs)"

definition cache_ok :: "volume_cache \<Rightarrow> bool" where
  "cache_ok c \<longleftrightarrow>
     0 < vc_chunk_size c \<and> vc_chunk_size c < 2 ^ 32 \<and>
     bt_sorted (vc_dirty c) \<and> bt_sorted (vc_clean c) \<and>
     (\<forall>cid d. bt_get cid (vc_dirty c) = Some d \<longrightarrow>
        dirty_ok (vc_chunk_size c) d \<and> bt_get cid (vc_clean c) = None) \<and>
     (\<forall>cid b. bt_get cid (vc_clean c) = Some b \<longrightarrow> length b = vc_chunk_size c)"

lemma cache_okD:
  assumes "cache_ok c"
  shows "0 < vc_chunk_size c" "vc_chunk_size c < 2 ^ 32" "bt_sorted (vc_dirty c)" "bt_sorted (vc_clean c)"
    "\<And>cid d. bt_get cid (vc_dirty c) = Some d \<Longrightarrow> dirty_ok (vc_chunk_size c) d"
    "\<And>cid d. bt_get cid (vc_dirty c) = Some d \<Longrightarrow> bt_get cid (vc_clean c) = None"
    "\<And>cid b. bt_get cid (vc_clean c) = Some b \<Longrightarrow> length b = vc_chunk_size c"
  using assms by (auto simp: cache_ok_def)

section \<open>One piece of a write\<close>

text \<open>What a piece of a write does to the chunk it falls in, \<open>e\<close>, \<open>p\<close> what was held of it.\<close>

lemma pending_after_view:
  assumes cs: "0 < cs" "cs < 2 ^ 32" and r: "0 < n" "off + n \<le> cs"
    and p: "\<And>rs. p = Some rs \<Longrightarrow> ranges_ok cs rs"
    and len: "length old = cs" and piece: "length piece = n" and i: "i < cs"
    and e: "e = None \<Longrightarrow> p = None"
  shows "(case pending_after e p off n cs of None \<Rightarrow> True | Some rs \<Rightarrow> ranges_ok cs rs) \<and>
    (case pending_after e p off n cs of
       None \<Rightarrow> overlay off piece old ! i
     | Some rs \<Rightarrow> if in_ranges i rs then overlay off piece old ! i else u0) =
    (if off \<le> i \<and> i < off + n then piece ! (i - off)
     else if e = None then (if pending_after e p off n cs = None then old ! i else u0)
     else (case p of None \<Rightarrow> old ! i | Some rs \<Rightarrow> if in_ranges i rs then old ! i else u0))"
proof -
  have ov: "overlay off piece old ! i = (if off \<le> i \<and> i < off + n then piece ! (i - off) else old ! i)"
    using r len piece i by (simp add: nth_overlay)
  have u: "as_u32 off = off" "as_u32 n = n" using cs r by simp_all
  show ?thesis
  proof (cases e)
    case None
    then show ?thesis using ov u r e by (auto simp: pending_after_def in_range_def)
  next
    case (Some b)
    show ?thesis
    proof (cases p)
      case None
      with Some show ?thesis using ov by (simp add: pending_after_def)
    next
      case (Some rs)
      obtain rs' c where c: "covers (rs @ [(off, n)]) cs = (rs', c)" by (cases "covers (rs @ [(off, n)]) cs")
      have "(\<forall>i. in_ranges i rs' = in_ranges i (rs @ [(off, n)])) \<and> ranges_ok cs rs' \<and>
          (c \<longleftrightarrow> (\<forall>i < cs. in_ranges i (rs @ [(off, n)])))"
        by (rule covers_correct [OF cs _ c]) (use p Some r in simp)
      then show ?thesis
        using ov u \<open>e = Some b\<close> Some c i by (auto simp: pending_after_def in_range_def)
    qed
  qed
qed

lemma take_chunk_facts:
  assumes ok: "cache_ok c" and t: "take_chunk cid c = (e, since, p, c1)"
  defines "old \<equiv> (case e of Some b \<Rightarrow> b | None \<Rightarrow> replicate (vc_chunk_size c) 0)"
  shows "vc_mapper c1 = vc_mapper c" "bt_sorted (vc_dirty c1)" "bt_sorted (vc_clean c1)"
    "\<And>x. bt_get x (vc_dirty c1) = (if x = cid then None else bt_get x (vc_dirty c))"
    "\<And>x. bt_get x (vc_clean c1) = (if x = cid then None else bt_get x (vc_clean c))"
    "length old = vc_chunk_size c" "e = None \<Longrightarrow> p = None"
    "\<And>rs. p = Some rs \<Longrightarrow> ranges_ok (vc_chunk_size c) rs"
    "\<And>backing i. chunk_view backing c cid i =
       (if e = None then stored backing cid i
        else case p of None \<Rightarrow> old ! i | Some rs \<Rightarrow> if in_ranges i rs then old ! i else stored backing cid i)"
    "since \<noteq> None \<longleftrightarrow> bt_has cid (vc_dirty c)"
    "vc_dirty_bytes c1 = vc_dirty_bytes c" "vc_next_version c1 = vc_next_version c"
proof -
  note inv = cache_okD [OF ok]
  consider (dirty) d where "bt_get cid (vc_dirty c) = Some d"
      "e = Some (dc_data d)" "since = Some (dc_dirty_since d)" "p = dc_pending d"
      "c1 = c\<lparr>vc_dirty := bt_del cid (vc_dirty c)\<rparr>"
    | (clean) b where "bt_get cid (vc_dirty c) = None" "bt_get cid (vc_clean c) = Some b"
      "e = Some b" "since = None" "p = None"
      "c1 = c\<lparr>vc_clean := bt_del cid (vc_clean c), vc_clean_bytes := vc_clean_bytes c - length b\<rparr>"
    | (none) "bt_get cid (vc_dirty c) = None" "bt_get cid (vc_clean c) = None"
      "e = None" "since = None" "p = None" "c1 = c"
    using t by (auto simp: take_chunk_def split: option.splits)
  note cs = this
  show "vc_mapper c1 = vc_mapper c" "vc_dirty_bytes c1 = vc_dirty_bytes c"
    "vc_next_version c1 = vc_next_version c" "e = None \<Longrightarrow> p = None"
    "since \<noteq> None \<longleftrightarrow> bt_has cid (vc_dirty c)"
    by (rule cs; simp add: bt_has_def)+
  show "bt_sorted (vc_dirty c1)" "bt_sorted (vc_clean c1)" by (rule cs; simp add: inv(3,4))+
  show "bt_get x (vc_dirty c1) = (if x = cid then None else bt_get x (vc_dirty c))" for x
    by (rule cs) simp_all
  show "bt_get x (vc_clean c1) = (if x = cid then None else bt_get x (vc_clean c))" for x
    by (rule cs) (auto dest: inv(6))
  show "length old = vc_chunk_size c"
    unfolding old_def by (rule cs) (auto dest: inv(5) inv(7) simp: dirty_ok_def)
  show "ranges_ok (vc_chunk_size c) rs" if "p = Some rs" for rs
    using that by (rule_tac cs) (auto dest: inv(5) simp: dirty_ok_def)
  show "chunk_view backing c cid i =
       (if e = None then stored backing cid i
        else case p of None \<Rightarrow> old ! i | Some rs \<Rightarrow> if in_ranges i rs then old ! i else stored backing cid i)"
    for backing i
    unfolding old_def chunk_view_def by (rule cs) (simp_all split: option.split)
qed

lemma chunk_view_cong:
  "bt_get cid (vc_dirty c') = bt_get cid (vc_dirty c) \<Longrightarrow>
   bt_get cid (vc_clean c') = bt_get cid (vc_clean c) \<Longrightarrow>
   chunk_view backing c' cid i = chunk_view backing c cid i"
  by (simp only: chunk_view_def)

lemma apply_range_eq:
  assumes t: "take_chunk (chunk_id rg) c = (e, since, p, c1)"
    and old: "(case e of Some b \<Rightarrow> b | None \<Rightarrow> replicate (vc_chunk_size c) 0) = old" "length old = vc_chunk_size c"
    and r: "offset_in_chunk rg + range_length rg \<le> vc_chunk_size c"
    and piece: "slice_of data_offset (data_offset + range_length rg) data = Some piece"
  shows "apply_range now data rg (c, tot, data_offset) =
    Done (c1\<lparr>vc_next_version := u64_add (vc_next_version c1) 1,
             vc_dirty_bytes := (if since \<noteq> None then vc_dirty_bytes c1
                                else u64_add (vc_dirty_bytes c1) (vc_chunk_size c)),
             vc_dirty := bt_put (chunk_id rg)
               \<lparr>dc_data = overlay (offset_in_chunk rg) piece old,
                dc_dirty_since = (case since of Some x \<Rightarrow> x | None \<Rightarrow> now),
                dc_last_modified = now, dc_version = u64_add (vc_next_version c1) 1,
                dc_pending = pending_after e p (offset_in_chunk rg) (range_length rg) (vc_chunk_size c)\<rparr>
               (vc_dirty c1)\<rparr>,
          if since \<noteq> None then tot else u64_add tot (vc_chunk_size c), data_offset + range_length rg)"
  using old r piece by (cases since) (simp_all add: apply_range_def t Let_def)

lemma apply_range_view:
  assumes ok: "cache_ok c" and r: "0 < range_length rg" "offset_in_chunk rg + range_length rg \<le> vc_chunk_size c"
    and d: "data_offset + range_length rg \<le> length data"
  shows "\<exists>c' tot'. apply_range now data rg (c, tot, data_offset) = Done (c', tot', data_offset + range_length rg) \<and>
    cache_ok c' \<and> vc_mapper c' = vc_mapper c \<and>
    (\<forall>cid i. i < vc_chunk_size c \<longrightarrow> chunk_view backing c' cid i =
      (if cid = chunk_id rg \<and> offset_in_chunk rg \<le> i \<and> i < offset_in_chunk rg + range_length rg
       then data ! (data_offset + (i - offset_in_chunk rg)) else chunk_view backing c cid i))"
proof -
  let ?cs = "vc_chunk_size c" and ?n = "range_length rg" and ?off = "offset_in_chunk rg" and ?k = "chunk_id rg"
  obtain e since p c1 where t: "take_chunk ?k c = (e, since, p, c1)" by (cases "take_chunk ?k c")
  note F = take_chunk_facts [OF ok t]
  define old where "old = (case e of Some b \<Rightarrow> b | None \<Rightarrow> replicate ?cs 0)"
  define piece where "piece = take ?n (drop data_offset data)"
  define pend where "pend = pending_after e p ?off ?n ?cs"
  have old: "length old = ?cs" using F(6) by (simp add: old_def)
  have piece: "slice_of data_offset (data_offset + ?n) data = Some piece" "length piece = ?n"
    using d by (simp_all add: slice_of_def piece_def)
  obtain dd c' tot' where
    res: "apply_range now data rg (c, tot, data_offset) = Done (c', tot', data_offset + ?n)"
    and c': "vc_mapper c' = vc_mapper c" "vc_dirty c' = bt_put ?k dd (vc_dirty c1)" "vc_clean c' = vc_clean c1"
    and dd: "dc_data dd = overlay ?off piece old" "dc_pending dd = pend"
    using F(1) apply_range_eq [OF t old_def [symmetric] old r(2) piece(1), of now tot]
    by (auto simp: pend_def)
  have pv: "(case pend of None \<Rightarrow> True | Some rs \<Rightarrow> ranges_ok ?cs rs) \<and>
    (case pend of None \<Rightarrow> overlay ?off piece old ! i
     | Some rs \<Rightarrow> if in_ranges i rs then overlay ?off piece old ! i else stored backing ?k i) =
    (if ?off \<le> i \<and> i < ?off + ?n then piece ! (i - ?off)
     else if e = None then (if pend = None then old ! i else stored backing ?k i)
     else (case p of None \<Rightarrow> old ! i | Some rs \<Rightarrow> if in_ranges i rs then old ! i else stored backing ?k i))"
    if "i < ?cs" for i
    unfolding pend_def
    by (rule pending_after_view [OF cache_okD(1,2) [OF ok] r _ old piece(2) that]) (use F(7,8) in auto)
  have whole: "?off = 0 \<and> ?n = ?cs" if "e = None" "pend = None"
    using that by (simp add: pend_def pending_after_def split: if_splits)
  have at: "piece ! (i - ?off) = data ! (data_offset + (i - ?off))" if "i < ?off + ?n" "?off \<le> i" for i
    using that d by (simp add: piece_def)
  have view: "chunk_view backing c' cid i =
      (if cid = ?k \<and> ?off \<le> i \<and> i < ?off + ?n then data ! (data_offset + (i - ?off))
       else chunk_view backing c cid i)" if i: "i < ?cs" for cid i
  proof (cases "cid = ?k")
    case False
    then show ?thesis using c' F(4,5) by (auto intro!: chunk_view_cong)
  next
    case True
    have "chunk_view backing c' ?k i = (case pend of None \<Rightarrow> overlay ?off piece old ! i
        | Some rs \<Rightarrow> if in_ranges i rs then overlay ?off piece old ! i else stored backing ?k i)"
      using c' dd by (simp add: chunk_view_def split: option.split)
    also have "\<dots> = (if ?off \<le> i \<and> i < ?off + ?n then piece ! (i - ?off) else chunk_view backing c ?k i)"
      using pv [OF i] F(9) [of backing i, folded old_def] whole i by (cases "e = None") auto
    finally show ?thesis using at [of i] True by simp
  qed
  have "cache_ok c'"
    using ok c' dd F(2-5) old piece(2) r pv [of 0]
    by (auto simp: cache_ok_def dirty_ok_def)
  with res c'(1) view show ?thesis by blast
qed

section \<open>A whole write\<close>

lemma in_piece:
  fixes x cs k off n :: nat
  assumes "0 < cs" and "off + n \<le> cs"
  shows "x div cs = k \<and> off \<le> x mod cs \<and> x mod cs < off + n \<longleftrightarrow>
    k * cs + off \<le> x \<and> x < k * cs + off + n"
proof -
  have x: "x = x div cs * cs + x mod cs" by simp
  show ?thesis
  proof
    assume "x div cs = k \<and> off \<le> x mod cs \<and> x mod cs < off + n"
    with x show "k * cs + off \<le> x \<and> x < k * cs + off + n" by (metis add.assoc nat_add_left_cancel_le nat_add_left_cancel_less)
  next
    assume b: "k * cs + off \<le> x \<and> x < k * cs + off + n"
    then have "x - k * cs < cs" "k * cs \<le> x" using assms by linarith+
    then have "x div cs = k" "x mod cs = x - k * cs"
      using assms(1) by (simp_all add: div_nat_eqI mod_nat_eqI algebra_simps)
    with b show "x div cs = k \<and> off \<le> x mod cs \<and> x mod cs < off + n" by linarith
  qed
qed

lemma apply_ranges_view:
  assumes "cache_ok c" and "tiles (vc_chunk_size c) p e rs" and "length data = data_offset + (e - p)"
  shows "\<exists>c' tot'. apply_ranges now data rs (c, tot, data_offset) = Done (c', tot', length data) \<and>
    cache_ok c' \<and> vc_mapper c' = vc_mapper c \<and>
    (\<forall>x. volume_view backing c' x =
       (if p \<le> x \<and> x < e then data ! (data_offset + (x - p)) else volume_view backing c x))"
  using assms
proof (induction rs arbitrary: c tot p data_offset)
  case Nil
  then show ?case by auto
next
  case (Cons r rs)
  let ?cs = "vc_chunk_size c" and ?n = "range_length r" and ?off = "offset_in_chunk r"
  have t: "chunk_id r * ?cs + ?off = p" "0 < ?n" "?off + ?n \<le> ?cs" "tiles ?cs (p + ?n) e rs"
    using Cons.prems(2) by auto
  have pe: "p + ?n \<le> e" by (rule tiles_le [OF t(4)])
  have cs: "0 < ?cs" using Cons.prems(1) by (simp add: cache_ok_def)
  have dl: "data_offset + ?n \<le> length data" using Cons.prems(3) pe by linarith
  obtain c1 tot1 where r1: "apply_range now data r (c, tot, data_offset) = Done (c1, tot1, data_offset + ?n)"
    "cache_ok c1" "vc_mapper c1 = vc_mapper c"
    "\<And>cid i. i < ?cs \<Longrightarrow> chunk_view backing c1 cid i =
      (if cid = chunk_id r \<and> ?off \<le> i \<and> i < ?off + ?n
       then data ! (data_offset + (i - ?off)) else chunk_view backing c cid i)"
    using apply_range_view [OF Cons.prems(1) t(2,3) dl, of now tot backing] by auto
  have view1: "volume_view backing c1 x =
      (if p \<le> x \<and> x < p + ?n then data ! (data_offset + (x - p)) else volume_view backing c x)" for x
  proof -
    have "x mod ?cs - ?off = x - p" if "x div ?cs = chunk_id r"
      using t(1) that div_mult_mod_eq [of x ?cs] by simp
    with in_piece [OF cs t(3), of x "chunk_id r"] t(1) r1(4) [of "x mod ?cs" "x div ?cs"] cs r1(3)
    show ?thesis by (auto simp: volume_view_def)
  qed
  obtain c2 tot2 where r2: "apply_ranges now data rs (c1, tot1, data_offset + ?n) = Done (c2, tot2, length data)"
    "cache_ok c2" "vc_mapper c2 = vc_mapper c1"
    "\<And>x. volume_view backing c2 x = (if p + ?n \<le> x \<and> x < e then data ! (data_offset + ?n + (x - (p + ?n)))
        else volume_view backing c1 x)"
    using Cons.IH [OF r1(2), of "p + ?n" "data_offset + ?n" tot1] t(4) r1(3) Cons.prems(3) pe by auto
  have "volume_view backing c2 x = (if p \<le> x \<and> x < e then data ! (data_offset + (x - p))
      else volume_view backing c x)" for x
    using r2(4) [of x] view1 [of x] pe by auto
  with r1 r2 show ?case by auto
qed

text \<open>A write of the gateway: its range and one chunk after it fit in a \<open>u64\<close>.\<close>

lemma apply_volume_view:
  assumes "cache_ok c" and "off + length data + vc_chunk_size c \<le> 2 ^ 64"
  shows "\<exists>c' tot'. apply_ranges now data (byte_range_to_chunks (vc_mapper c) off (length data)) (c, tot, 0) =
      Done (c', tot', length data) \<and>
    cache_ok c' \<and> vc_mapper c' = vc_mapper c \<and>
    (\<forall>backing. volume_view backing c' = write_at off data (volume_view backing c))"
proof -
  have t: "tiles (vc_chunk_size c) off (off + length data)
      (byte_range_to_chunks (vc_mapper c) off (length data))"
    using assms by (intro byte_range_to_chunks_tiles) (auto simp: cache_ok_def)
  have "\<exists>c' tot'. apply_ranges now data (byte_range_to_chunks (vc_mapper c) off (length data)) (c, tot, 0) =
      Done (c', tot', length data) \<and> cache_ok c' \<and> vc_mapper c' = vc_mapper c \<and>
      volume_view backing c' = write_at off data (volume_view backing c)" for backing
    using apply_ranges_view [OF assms(1) t, of data 0 now tot backing] by (auto simp: write_at_def fun_eq_iff)
  then show ?thesis by (metis (no_types, lifting) outcome.inject(1) prod.inject)
qed

section \<open>Reading\<close>

lemma volume_chunk_view:
  assumes "cache_ok c" and "volume_chunk cid c = Some b"
  shows "length b = vc_chunk_size c \<and> (\<forall>backing i. chunk_view backing c cid i = b ! i)"
  using assms(2) cache_okD(5,7) [OF assms(1)]
  by (auto simp: volume_chunk_def chunk_view_def dirty_ok_def split: option.splits if_splits)

lemma read_ranges_view:
  assumes "cache_ok c" and "tiles (vc_chunk_size c) p e rs"
  shows "read_ranges c rs acc =
    Done (if list_all (\<lambda>r. volume_chunk (chunk_id r) c \<noteq> None) rs
          then Some (acc @ map (volume_view backing c) [p ..< e]) else None)"
  using assms(2)
proof (induction rs arbitrary: p acc)
  case Nil
  then show ?case by simp
next
  case (Cons r rs)
  let ?cs = "vc_chunk_size c" and ?n = "range_length r" and ?off = "offset_in_chunk r"
  have t: "chunk_id r * ?cs + ?off = p" "0 < ?n" "?off + ?n \<le> ?cs" "tiles ?cs (p + ?n) e rs"
    using Cons.prems by auto
  have cs: "0 < ?cs" by (rule cache_okD(1) [OF assms(1)])
  have step: "read_ranges c (r # rs) acc = (case volume_chunk (chunk_id r) c of
      None \<Rightarrow> Done None
    | Some b \<Rightarrow> (case slice_of ?off (?off + ?n) b of None \<Rightarrow> Panic
        | Some piece \<Rightarrow> read_ranges c rs (acc @ piece)))"
    by (simp add: volume_chunk_def Let_def)
  show ?case
  proof (cases "volume_chunk (chunk_id r) c")
    case None
    then show ?thesis unfolding step by simp
  next
    case (Some b)
    have b: "length b = ?cs" "\<And>i. chunk_view backing c (chunk_id r) i = b ! i"
      using volume_chunk_view [OF assms(1) Some] by auto
    have "take ?n (drop ?off b) = map (volume_view backing c) [p ..< p + ?n]"
    proof (rule nth_equalityI)
      fix j assume "j < length (take ?n (drop ?off b))"
      then have j: "j < ?n" using b t by simp
      have "(p + j) div ?cs = chunk_id r \<and> (p + j) mod ?cs = ?off + j"
      proof -
        have d: "(p + j) div ?cs = chunk_id r" using in_piece [OF cs t(3), of "p + j" "chunk_id r"] t(1) j by simp
        then show ?thesis using div_mult_mod_eq [of "p + j" ?cs] t(1) by simp
      qed
      then show "take ?n (drop ?off b) ! j = map (volume_view backing c) [p ..< p + ?n] ! j"
        using j b t by (simp add: volume_view_def)
    qed (use b t in simp)
    then have piece: "slice_of ?off (?off + ?n) b = Some (map (volume_view backing c) [p ..< p + ?n])"
      using b t by (simp add: slice_of_def)
    have "[p ..< e] = [p ..< p + ?n] @ [p + ?n ..< e]"
      using tiles_le [OF t(4)] upt_add_eq_append [of p "p + ?n" "e - (p + ?n)"] by simp
    with Some piece Cons.IH [OF t(4)] show ?thesis unfolding step by simp
  qed
qed

section \<open>Merging, loading, flushing\<close>

lemma copy_ranges_view:
  assumes "ranges_ok cs rs" and "length data = cs" and "length w = cs"
  shows "\<exists>w'. copy_ranges data rs w = Done w' \<and> length w' = cs \<and>
    (\<forall>i < cs. w' ! i = (if in_ranges i rs then data ! i else w ! i))"
  using assms
proof (induction rs arbitrary: w)
  case Nil
  then show ?case by simp
next
  case (Cons r rs)
  obtain off n where r: "r = (off, n)" by (cases r)
  have b: "off + n \<le> cs" using Cons.prems r by simp
  let ?w = "overlay off (take n (drop off data)) w"
  have s: "slice_of off (off + n) data = Some (take n (drop off data))"
    using b Cons.prems by (simp add: slice_of_def)
  have lw: "length ?w = cs" using b Cons.prems by simp
  have w: "?w ! i = (if in_range i r then data ! i else w ! i)" if "i < cs" for i
    using that b Cons.prems r by (auto simp: nth_overlay in_range_def)
  obtain w' where "copy_ranges data rs ?w = Done w'" "length w' = cs"
    "\<And>i. i < cs \<Longrightarrow> w' ! i = (if in_ranges i rs then data ! i else ?w ! i)"
    using Cons.IH [of ?w] Cons.prems lw by auto
  with s b Cons.prems w r show ?case by auto
qed

lemma resolve_volume_view:
  assumes ok: "cache_ok c" and base: "base = backing cid"
  shows "\<exists>c'. resolve_volume cid base c = Done c' \<and> cache_ok c' \<and> vc_mapper c' = vc_mapper c \<and>
    (\<forall>x. volume_view backing c' x = volume_view backing c x) \<and>
    (\<forall>d. bt_get cid (vc_dirty c') = Some d \<longrightarrow> dc_pending d = None)"
proof (cases "\<exists>d rs. bt_get cid (vc_dirty c) = Some d \<and> dc_pending d = Some rs")
  case False
  then have "resolve_volume cid base c = Done c"
    by (auto simp: resolve_volume_def Let_def split: option.splits)
  with False ok show ?thesis by auto
next
  case True
  then obtain d rs where d: "bt_get cid (vc_dirty c) = Some d" "dc_pending d = Some rs" by blast
  let ?cs = "vc_chunk_size c"
  define w where "w = resize ?cs 0 (take (min (length base) ?cs) base)"
  have dok: "length (dc_data d) = ?cs" "ranges_ok ?cs rs"
    using cache_okD(5) [OF ok d(1)] d(2) by (auto simp: dirty_ok_def)
  have w: "length w = ?cs" "\<And>i. i < ?cs \<Longrightarrow> w ! i = stored backing cid i"
    using base by (auto simp: w_def nth_resize stored_def)
  obtain w' where w': "copy_ranges (dc_data d) rs w = Done w'" "length w' = ?cs"
      "\<And>i. i < ?cs \<Longrightarrow> w' ! i = (if in_ranges i rs then dc_data d ! i else w ! i)"
    using copy_ranges_view [OF dok(2,1) w(1)] by blast
  define c' where "c' = c\<lparr>vc_dirty := bt_put cid (d\<lparr>dc_data := w',
      dc_version := u64_add (vc_next_version c) 1, dc_pending := None\<rparr>) (vc_dirty c),
      vc_next_version := u64_add (vc_next_version c) 1\<rparr>"
  have res: "resolve_volume cid base c = Done c'"
    using d w' by (simp add: resolve_volume_def Let_def c'_def w_def [symmetric])
  have ok': "cache_ok c'"
    using ok w'(2) cache_okD(6) [OF ok d(1)] by (auto simp: cache_ok_def c'_def dirty_ok_def)
  have "chunk_view backing c' k i = chunk_view backing c k i" if "i < ?cs" for k i
  proof (cases "k = cid")
    case True
    then show ?thesis using that w'(3) w(2) d by (simp add: chunk_view_def c'_def)
  qed (auto simp: c'_def intro!: chunk_view_cong)
  moreover have "x mod ?cs < ?cs" for x using cache_okD(1) [OF ok] by simp
  ultimately have "volume_view backing c' x = volume_view backing c x" for x
    by (simp add: volume_view_def c'_def)
  with res ok' show ?thesis by (auto simp: c'_def)
qed

lemma add_clean_view:
  assumes ok: "cache_ok c" and data: "length data = vc_chunk_size c"
    and same: "\<And>i. i < vc_chunk_size c \<Longrightarrow> data ! i = stored backing cid i"
  shows "cache_ok (add_clean_volume cid data c) \<and>
    (\<forall>x. volume_view backing (add_clean_volume cid data c) x = volume_view backing c x)"
proof -
  let ?c = "add_clean_volume cid data c"
  have "cache_ok ?c"
    using ok data by (auto simp: cache_ok_def add_clean_volume_def bt_has_def)
  moreover have "chunk_view backing ?c k i = chunk_view backing c k i" if "i < vc_chunk_size c" for k i
    using that same by (auto simp: chunk_view_def add_clean_volume_def bt_has_def split: option.splits)
  moreover have "x mod vc_chunk_size c < vc_chunk_size c" for x using cache_okD(1) [OF ok] by simp
  ultimately show ?thesis by (simp add: volume_view_def add_clean_volume_def)
qed

text \<open>Storing a chunk the cache holds whole changes nothing seen through the cache.\<close>

lemma store_view:
  assumes "volume_chunk cid c \<noteq> None"
  shows "volume_view (backing(cid := b)) c = volume_view backing c"
  using assms
  by (auto simp: volume_view_def chunk_view_def stored_def volume_chunk_def fun_eq_iff
      split: option.splits if_splits)

section \<open>Flushing\<close>

text \<open>
  \<open>c\<close> comes after \<open>c0\<close>: a chunk of \<open>c\<close> whose version \<open>c0\<close> could already have given is the
  chunk \<open>c0\<close> had. Every operation that changes a chunk gives it a new version.
\<close>

definition versions_ok :: "volume_cache \<Rightarrow> bool" where
  "versions_ok c \<longleftrightarrow> (\<forall>cid d. bt_get cid (vc_dirty c) = Some d \<longrightarrow> dc_version d \<le> vc_next_version c)"

definition evolved :: "volume_cache \<Rightarrow> volume_cache \<Rightarrow> bool" where
  "evolved c0 c \<longleftrightarrow>
     vc_next_version c0 \<le> vc_next_version c \<and> versions_ok c \<and>
     (\<forall>cid d. bt_get cid (vc_dirty c) = Some d \<and> dc_version d \<le> vc_next_version c0 \<longrightarrow>
        bt_get cid (vc_dirty c0) = Some d)"

lemma evolved_refl: "versions_ok c \<Longrightarrow> evolved c c"
  by (simp add: evolved_def)

lemma evolved_put:
  assumes "evolved c0 c" and "vc_next_version c + 1 < 2 ^ 64"
    and "vc_next_version c' = u64_add (vc_next_version c) 1" and "dc_version dd = u64_add (vc_next_version c) 1"
    and "\<And>x. bt_get x (vc_dirty c') = (if x = cid then Some dd else bt_get x (vc_dirty c))"
  shows "evolved c0 c'"
  unfolding evolved_def versions_ok_def
proof (intro conjI allI impI)
  have n: "vc_next_version c' = vc_next_version c + 1" "dc_version dd = vc_next_version c + 1"
    using assms(2-4) by simp_all
  show "vc_next_version c0 \<le> vc_next_version c'" using assms(1) n by (simp add: evolved_def)
  show "dc_version d \<le> vc_next_version c'" if "bt_get x (vc_dirty c') = Some d" for x d
    using that assms(1,5) n by (cases "x = cid") (auto simp: evolved_def versions_ok_def le_SucI)
  show "bt_get x (vc_dirty c0) = Some d"
    if "bt_get x (vc_dirty c') = Some d \<and> dc_version d \<le> vc_next_version c0" for x d
    using that assms(1,5) n by (cases "x = cid") (auto simp: evolved_def)
qed

lemma evolved_apply_range:
  assumes "evolved c0 c" and ok: "cache_ok c" and "vc_next_version c + 1 < 2 ^ 64"
    and r: "offset_in_chunk rg + range_length rg \<le> vc_chunk_size c"
    and d: "k + range_length rg \<le> length data"
    and res: "apply_range now data rg (c, tot, k) = Done (c', tot', k')"
  shows "evolved c0 c' \<and> vc_next_version c' = vc_next_version c + 1"
proof -
  obtain e since p c1 where t: "take_chunk (chunk_id rg) c = (e, since, p, c1)"
    by (cases "take_chunk (chunk_id rg) c")
  note F = take_chunk_facts [OF ok t]
  have piece: "slice_of k (k + range_length rg) data = Some (take (range_length rg) (drop k data))"
    using d by (simp add: slice_of_def)
  note eq = apply_range_eq [OF t refl F(6) r piece, of now tot, unfolded res]
  have n: "vc_next_version c' = u64_add (vc_next_version c) 1" using eq F(12) by simp
  obtain dd where dd: "vc_dirty c' = bt_put (chunk_id rg) dd (vc_dirty c1)"
      "dc_version dd = u64_add (vc_next_version c) 1"
    using eq F(12) by simp
  have "evolved c0 c'" by (rule evolved_put [OF assms(1,3) n dd(2), of "chunk_id rg"]) (simp add: dd(1) F(4))
  with n assms(3) show ?thesis by simp
qed

lemma evolved_apply_ranges:
  assumes "evolved c0 c" and "cache_ok c" and "vc_next_version c + length rs < 2 ^ 64"
    and "tiles (vc_chunk_size c) p e rs" and "length data = k + (e - p)"
    and "apply_ranges now data rs (c, tot, k) = Done (c', tot', k')"
  shows "evolved c0 c'"
  using assms
proof (induction rs arbitrary: c tot k p)
  case Nil
  then show ?case by simp
next
  case (Cons r rs)
  have pe: "p + range_length r \<le> e" using Cons.prems(4) tiles_le by auto
  then have dl: "k + range_length r \<le> length data" using Cons.prems(5) by linarith
  obtain c1 tot1 where r1: "apply_range now data r (c, tot, k) = Done (c1, tot1, k + range_length r)"
    "cache_ok c1" "vc_mapper c1 = vc_mapper c"
    using apply_range_view [OF Cons.prems(2) _ _ dl, of now tot "\<lambda>_. []"] Cons.prems(4) by auto
  have "vc_next_version c + 1 < 2 ^ 64" using Cons.prems(3) by simp
  note e1 = evolved_apply_range [OF Cons.prems(1,2) this _ dl r1(1)]
  show ?case
    by (rule Cons.IH [of c1 "p + range_length r" "k + range_length r" tot1])
      (use e1 r1 Cons.prems pe in auto)
qed

lemma evolved_resolve:
  assumes "evolved c0 c" and "vc_next_version c + 1 < 2 ^ 64" and res: "resolve_volume cid base c = Done c'"
  shows "evolved c0 c'"
proof (cases "c' = c")
  case False
  then obtain d rs w where "bt_get cid (vc_dirty c) = Some d" "dc_pending d = Some rs"
    and "copy_ranges (dc_data d) rs (resize (vc_chunk_size c) 0 (take (min (length base) (vc_chunk_size c)) base)) = Done w"
    using res by (auto simp: resolve_volume_def Let_def split: option.splits outcome.splits)
  then obtain dd where "vc_next_version c' = u64_add (vc_next_version c) 1"
      "dc_version dd = u64_add (vc_next_version c) 1" "vc_dirty c' = bt_put cid dd (vc_dirty c)"
    using res by (simp add: resolve_volume_def Let_def) force
  with evolved_put [OF assms(1,2), of c' dd cid] show ?thesis by simp
qed (use assms(1) in simp)

lemma evolved_add_clean: "evolved c0 c \<Longrightarrow> evolved c0 (add_clean_volume cid data c)"
  by (simp add: evolved_def versions_ok_def add_clean_volume_def)

lemma evolved_flush_mark: "evolved c0 c \<Longrightarrow> evolved c0 (fst (flush_mark (c, tot) p))"
  by (cases p) (auto simp: flush_mark_def Let_def evolved_def versions_ok_def split: option.splits if_splits)

text \<open>The flushed chunks, with the versions they had when they were taken.\<close>

definition taken_from :: "volume_cache \<Rightarrow> nat \<times> nat \<Rightarrow> bool" where
  "taken_from c0 p \<longleftrightarrow> p \<in> set (map (\<lambda>(cid, _, v). (cid, v)) (volume_dirty_chunks c0))"

lemma taken_from_iff:
  assumes "cache_ok c0"
  shows "taken_from c0 (cid, v) \<longleftrightarrow>
    (\<exists>d. bt_get cid (vc_dirty c0) = Some d \<and> dc_pending d = None \<and> dc_version d = v)"
  using bt_get_items [OF cache_okD(3) [OF assms]]
  by (force simp: taken_from_def volume_dirty_chunks_def)

lemma flush_mark_view:
  assumes ok: "cache_ok c" and ev: "evolved c0 c" and ok0: "cache_ok c0" "versions_ok c0"
    and p: "taken_from c0 (cid, v)"
  shows "cache_ok (fst (flush_mark (c, tot) (cid, v))) \<and>
    vc_mapper (fst (flush_mark (c, tot) (cid, v))) = vc_mapper c \<and>
    volume_view backing (fst (flush_mark (c, tot) (cid, v))) = volume_view backing c \<and>
    (\<forall>k. k \<noteq> cid \<or> (\<exists>d. bt_get k (vc_dirty c) = Some d \<and> dc_version d \<noteq> v) \<longrightarrow>
       bt_get k (vc_dirty (fst (flush_mark (c, tot) (cid, v)))) = bt_get k (vc_dirty c))"
proof (cases "\<exists>d. bt_get cid (vc_dirty c) = Some d \<and> dc_version d = v")
  case False
  then have "flush_mark (c, tot) (cid, v) = (c, tot)"
    by (auto simp: flush_mark_def split: option.split)
  with ok show ?thesis by simp
next
  case True
  then obtain d where d: "bt_get cid (vc_dirty c) = Some d" "dc_version d = v" by blast
  obtain d0 where d0: "bt_get cid (vc_dirty c0) = Some d0" "dc_pending d0 = None" "dc_version d0 = v"
    using p taken_from_iff [OF ok0(1)] by blast
  have "dc_version d \<le> vc_next_version c0" using ok0(2) d0 d(2) by (auto simp: versions_ok_def)
  then have "bt_get cid (vc_dirty c0) = Some d" using ev d(1) by (simp add: evolved_def)
  then have "d = d0" using d0(1) by simp
  then have pn: "dc_pending d = None" using d0 by simp
  define c' where "c' = fst (flush_mark (c, tot) (cid, v))"
  have c': "vc_dirty c' = bt_del cid (vc_dirty c)" "vc_clean c' = bt_put cid (dc_data d) (vc_clean c)"
    "vc_mapper c' = vc_mapper c"
    using d by (simp_all add: c'_def flush_mark_def Let_def)
  have "chunk_view backing c' k i = chunk_view backing c k i" for k i
  proof (cases "k = cid")
    case True
    then show ?thesis using c' d pn by (simp add: chunk_view_def)
  qed (use c' in \<open>auto intro!: chunk_view_cong\<close>)
  then have "volume_view backing c' = volume_view backing c" using c' by (simp add: volume_view_def fun_eq_iff)
  moreover have "cache_ok c'"
    using ok c' cache_okD(5) [OF ok d(1)] by (auto simp: cache_ok_def dirty_ok_def)
  moreover have "bt_get k (vc_dirty c') = bt_get k (vc_dirty c)"
    if "k \<noteq> cid \<or> (\<exists>d. bt_get k (vc_dirty c) = Some d \<and> dc_version d \<noteq> v)" for k
    using that c'(1) d by (cases "k = cid") simp_all
  ultimately show ?thesis unfolding c'_def [symmetric] using c'(3) by blast
qed

section \<open>The accounting of dirty bytes\<close>

definition accounted :: "volume_cache \<Rightarrow> bool" where
  "accounted c \<longleftrightarrow> vc_dirty_bytes c = vc_chunk_size c * length (vc_dirty c)"

lemma apply_range_accounted:
  assumes ok: "cache_ok c" and ac: "accounted c" and db: "vc_dirty_bytes c \<le> tot"
    and sp: "tot + vc_chunk_size c < 2 ^ 64"
    and r: "offset_in_chunk rg + range_length rg \<le> vc_chunk_size c" and d: "k + range_length rg \<le> length data"
    and res: "apply_range now data rg (c, tot, k) = Done (c', tot', k')"
  shows "accounted c' \<and> tot' + vc_dirty_bytes c = tot + vc_dirty_bytes c' \<and> tot' \<le> tot + vc_chunk_size c"
proof -
  obtain e since p c1 where t: "take_chunk (chunk_id rg) c = (e, since, p, c1)"
    by (cases "take_chunk (chunk_id rg) c")
  note F = take_chunk_facts [OF ok t]
  have piece: "slice_of k (k + range_length rg) data = Some (take (range_length rg) (drop k data))"
    using d by (simp add: slice_of_def)
  note eq = apply_range_eq [OF t refl F(6) r piece, of now tot, unfolded res]
  obtain dd where c': "vc_dirty c' = bt_put (chunk_id rg) dd (vc_dirty c1)" "vc_mapper c' = vc_mapper c"
      "vc_dirty_bytes c' = (if since \<noteq> None then vc_dirty_bytes c else vc_dirty_bytes c + vc_chunk_size c)"
      "tot' = (if since \<noteq> None then tot else tot + vc_chunk_size c)"
    using eq F(1,11) db sp by simp
  have "\<not> bt_has (chunk_id rg) (vc_dirty c1)" by (simp add: bt_has_def F(4))
  then have "length (vc_dirty c') = Suc (length (vc_dirty c1))"
    using c'(1) length_bt_put [OF F(2)] by simp
  moreover have "length (vc_dirty c1) = (if since \<noteq> None then length (vc_dirty c) - 1 else length (vc_dirty c))"
    using t length_bt_del [OF cache_okD(3) [OF ok]] by (auto simp: take_chunk_def bt_has_def split: option.splits)
  moreover have "0 < length (vc_dirty c)" if "since \<noteq> None"
    using that F(10) by (cases "vc_dirty c") (auto simp: bt_has_def)
  ultimately have "length (vc_dirty c') = (if since \<noteq> None then length (vc_dirty c) else Suc (length (vc_dirty c)))"
    by auto
  with ac c' show ?thesis by (auto simp: accounted_def simp del: length_0_conv)
qed

lemma apply_ranges_accounted:
  assumes "cache_ok c" and "accounted c" and "vc_dirty_bytes c \<le> tot"
    and "tot + vc_chunk_size c * length rs < 2 ^ 64"
    and "tiles (vc_chunk_size c) p e rs" and "length data = k + (e - p)"
    and "apply_ranges now data rs (c, tot, k) = Done (c', tot', k')"
  shows "accounted c' \<and> tot' + vc_dirty_bytes c = tot + vc_dirty_bytes c'"
  using assms
proof (induction rs arbitrary: c tot k p)
  case Nil
  then show ?case by simp
next
  case (Cons r rs)
  have pe: "p + range_length r \<le> e" using Cons.prems(5) tiles_le by auto
  then have dl: "k + range_length r \<le> length data" using Cons.prems(6) by linarith
  have off: "offset_in_chunk r + range_length r \<le> vc_chunk_size c" using Cons.prems(5) by simp
  obtain c1 tot1 where r1: "apply_range now data r (c, tot, k) = Done (c1, tot1, k + range_length r)"
    "cache_ok c1" "vc_mapper c1 = vc_mapper c"
    using apply_range_view [OF Cons.prems(1) _ _ dl, of now tot "\<lambda>_. []"] Cons.prems(5) by auto
  have sp: "tot + vc_chunk_size c < 2 ^ 64" using Cons.prems(4) by simp
  note a1 = apply_range_accounted [OF Cons.prems(1-3) sp off dl r1(1)]
  have "accounted c' \<and> tot' + vc_dirty_bytes c1 = tot1 + vc_dirty_bytes c'"
    by (rule Cons.IH [of c1 tot1 "p + range_length r" "k + range_length r"])
      (use a1 r1 Cons.prems pe in auto)
  with a1 show ?case by simp
qed

lemma flush_mark_accounted:
  assumes "cache_ok c" and "accounted c" and "vc_dirty_bytes c \<le> tot" and "tot < 2 ^ 64"
    and "flush_mark (c, tot) p = (c', tot')"
  shows "accounted c' \<and> tot' + vc_dirty_bytes c = tot + vc_dirty_bytes c' \<and> tot' \<le> tot"
proof (cases "\<exists>d. bt_get (fst p) (vc_dirty c) = Some d \<and> dc_version d = snd p")
  case False
  then have "c' = c" "tot' = tot" using assms(5) by (auto simp: flush_mark_def split: option.splits prod.splits)
  with assms(2) show ?thesis by simp
next
  case True
  then obtain d where d: "bt_get (fst p) (vc_dirty c) = Some d" "dc_version d = snd p" by blast
  let ?cs = "vc_chunk_size c"
  have len: "length (dc_data d) = ?cs" using cache_okD(5) [OF assms(1) d(1)] by (simp add: dirty_ok_def)
  have n: "0 < length (vc_dirty c)" using d by (cases "vc_dirty c") auto
  have le: "?cs \<le> vc_dirty_bytes c" using assms(2) n by (cases "length (vc_dirty c)") (simp_all add: accounted_def)
  have c': "vc_dirty c' = bt_del (fst p) (vc_dirty c)" "vc_dirty_bytes c' = vc_dirty_bytes c - ?cs"
    "vc_mapper c' = vc_mapper c" "tot' = tot - ?cs"
    using assms(3-5) d len le by (auto simp: flush_mark_def Let_def split: prod.splits)
  have "length (vc_dirty c') = length (vc_dirty c) - 1"
    using c'(1) length_bt_del [OF cache_okD(3) [OF assms(1)]] d by (simp add: bt_has_def)
  then have "accounted c'" using c' assms(2) by (simp add: accounted_def diff_mult_distrib2)
  with c' assms(3) le show ?thesis by simp
qed

section \<open>The whole cache\<close>

definition volume_ok :: "volume_cache \<Rightarrow> bool" where
  "volume_ok c \<longleftrightarrow> cache_ok c \<and> versions_ok c \<and> accounted c"

definition dirty_total :: "(string \<times> volume_cache) list \<Rightarrow> nat" where
  "dirty_total m = (\<Sum>p\<in>set m. vc_dirty_bytes (snd p))"

definition write_cache_inv :: "write_cache \<Rightarrow> bool" where
  "write_cache_inv wc \<longleftrightarrow>
     bt_sorted (wc_caches wc) \<and>
     (\<forall>v c. bt_get v (wc_caches wc) = Some c \<longrightarrow> volume_ok c) \<and>
     wc_total_dirty wc = dirty_total (wc_caches wc)"

lemma dirty_total_put:
  assumes "bt_sorted m" and "bt_get v m = Some c"
  shows "dirty_total (bt_put v c' m) + vc_dirty_bytes c = dirty_total m + vc_dirty_bytes c'"
  using bt.sum_put [OF assms(1), of vc_dirty_bytes v c'] assms(2) by (simp add: dirty_total_def)

lemma dirty_total_ge:
  assumes "bt_sorted m" and "bt_get v m = Some c"
  shows "vc_dirty_bytes c \<le> dirty_total m"
  using bt.sum_del [OF assms(1), of vc_dirty_bytes v] assms(2) by (simp add: dirty_total_def)

text \<open>Replacing the cache of one volume.\<close>

lemma write_cache_inv_put:
  assumes "write_cache_inv wc" and "bt_get v (wc_caches wc) = Some c" and "volume_ok c'"
    and "tot' + vc_dirty_bytes c = wc_total_dirty wc + vc_dirty_bytes c'"
  shows "write_cache_inv (wc\<lparr>wc_caches := bt_put v c' (wc_caches wc), wc_total_dirty := tot'\<rparr>)"
  using assms dirty_total_put [of "wc_caches wc" v c c'] by (auto simp: write_cache_inv_def)

section \<open>A device of bytes\<close>

text \<open>Applying writes in order.\<close>

fun write_all :: "(nat \<Rightarrow> bytes \<Rightarrow> 's \<Rightarrow> 's option) \<Rightarrow> (nat \<times> bytes) list \<Rightarrow> 's \<Rightarrow> 's option" where
  "write_all w [] s = Some s"
| "write_all w ((off, data) # ws) s =
     (case w off data s of None \<Rightarrow> None | Some s' \<Rightarrow> write_all w ws s')"

definition write_log :: "(nat \<times> bytes) list \<Rightarrow> (nat \<Rightarrow> byte) \<Rightarrow> nat \<Rightarrow> byte" where
  "write_log ws v = fold (\<lambda>(off, data). write_at off data) ws v"

locale block_device =
  fixes ok :: "'s \<Rightarrow> bool"
    and view :: "'s \<Rightarrow> nat \<Rightarrow> byte"
    and fits :: "nat \<Rightarrow> nat \<Rightarrow> bool"
    and wr :: "nat \<Rightarrow> bytes \<Rightarrow> 's \<Rightarrow> 's option"
  assumes wr_ok: "ok s \<Longrightarrow> fits off (length data) \<Longrightarrow> \<exists>s'. wr off data s = Some s' \<and> ok s'"
    and view_wr: "ok s \<Longrightarrow> fits off (length data) \<Longrightarrow> wr off data s = Some s' \<Longrightarrow>
      view s' = write_at off data (view s)"
begin

lemma write_all_ok:
  "ok s \<Longrightarrow> list_all (\<lambda>(off, data). fits off (length data)) ws \<Longrightarrow>
   \<exists>s'. write_all wr ws s = Some s' \<and> ok s' \<and> view s' = write_log ws (view s)"
proof (induction ws arbitrary: s)
  case Nil
  then show ?case by (simp add: write_log_def)
next
  case (Cons w ws)
  obtain off data where w: "w = (off, data)" by (cases w)
  then obtain s1 where s1: "wr off data s = Some s1" "ok s1" using wr_ok Cons.prems by fastforce
  then have "view s1 = write_at off data (view s)" using view_wr Cons.prems w by auto
  with s1 Cons.IH [OF s1(2)] Cons.prems w show ?case by (auto simp: write_log_def)
qed

text \<open>A byte is what the last write that covers it made it.\<close>

lemma last_write_wins:
  assumes "ok s" and "list_all (\<lambda>(off, data). fits off (length data)) (ws @ (off, data) # ws')"
    and "write_all wr (ws @ (off, data) # ws') s = Some s'"
    and "off \<le> x" and "x < off + length data"
    and "list_all (\<lambda>(o', d'). \<not> (o' \<le> x \<and> x < o' + length d')) ws'"
  shows "view s' x = data ! (x - off)"
proof -
  have "view s' = write_log (ws @ (off, data) # ws') (view s)"
    using write_all_ok [OF assms(1,2)] assms(3) by auto
  moreover have "write_log ws' v x = v x" for v
    using assms(6) by (induction ws' arbitrary: v) (auto simp: write_log_def write_at_def)
  ultimately show ?thesis using assms(4,5) by (simp add: write_log_def write_at_def)
qed

text \<open>A byte no write covers keeps its value.\<close>

lemma untouched:
  assumes "ok s" and "list_all (\<lambda>(off, data). fits off (length data)) ws"
    and "write_all wr ws s = Some s'"
    and "list_all (\<lambda>(o', d'). \<not> (o' \<le> x \<and> x < o' + length d')) ws"
  shows "view s' x = view s x"
proof -
  have "write_log ws v x = v x" for v
    using assms(4) by (induction ws arbitrary: v) (auto simp: write_log_def write_at_def)
  with write_all_ok [OF assms(1,2)] assms(3) show ?thesis by auto
qed

end

text \<open>The cache of one volume, its chunks of \<open>cs\<close> bytes, over what is stored.\<close>

definition volume_apply :: "nat \<Rightarrow> nat \<Rightarrow> bytes \<Rightarrow> volume_cache \<Rightarrow> volume_cache option" where
  "volume_apply now off data c =
     (case apply_ranges now data (byte_range_to_chunks (vc_mapper c) off (length data)) (c, 0, 0) of
        Panic \<Rightarrow> None
      | Done (c', _, _) \<Rightarrow> Some c')"

lemma volume_apply_view:
  assumes "cache_ok c" and "off + length data + vc_chunk_size c \<le> 2 ^ 64"
  shows "\<exists>c'. volume_apply now off data c = Some c' \<and> cache_ok c' \<and> vc_mapper c' = vc_mapper c \<and>
    volume_view backing c' = write_at off data (volume_view backing c)"
  using apply_volume_view [OF assms, of now 0] by (auto simp: volume_apply_def)

interpretation cached: block_device "\<lambda>c. cache_ok c \<and> vc_chunk_size c = cs" "volume_view backing"
  "\<lambda>off n. off + n + cs \<le> 2 ^ 64" "volume_apply now"
proof unfold_locales
  fix s off and data :: bytes
  assume "cache_ok s \<and> vc_chunk_size s = cs" and "off + length data + cs \<le> 2 ^ 64"
  then show "\<exists>s'. volume_apply now off data s = Some s' \<and> cache_ok s' \<and> vc_chunk_size s' = cs"
    using volume_apply_view [of s off data now "\<lambda>_. []"] by auto
next
  fix s off s' and data :: bytes
  assume "cache_ok s \<and> vc_chunk_size s = cs" and "off + length data + cs \<le> 2 ^ 64"
    and "volume_apply now off data s = Some s'"
  then show "volume_view backing s' = write_at off data (volume_view backing s)"
    using volume_apply_view [of s off data now backing] by auto
qed

section \<open>What the cache guarantees\<close>

text \<open>A write of \<open>n\<close> bytes at \<open>off\<close> that no counter of the cache overflows on.\<close>

definition write_fits :: "nat \<Rightarrow> nat \<Rightarrow> volume_cache \<Rightarrow> write_cache \<Rightarrow> bool" where
  "write_fits off n c wc \<longleftrightarrow>
     off + n + vc_chunk_size c \<le> 2 ^ 64 \<and>
     wc_total_dirty wc + vc_chunk_size c * length (byte_range_to_chunks (vc_mapper c) off n) < 2 ^ 64 \<and>
     vc_next_version c + length (byte_range_to_chunks (vc_mapper c) off n) < 2 ^ 64"

lemma apply_write_inv:
  assumes inv: "write_cache_inv wc" and c: "bt_get v (wc_caches wc) = Some c"
    and fits: "write_fits off (length data) c wc"
  shows "\<exists>wc' c' tot'. apply_write now v off data wc = Done (Inr wc') \<and> write_cache_inv wc' \<and>
    wc' = wc\<lparr>wc_caches := bt_put v c' (wc_caches wc), wc_total_dirty := tot'\<rparr> \<and>
    evolved c c' \<and> vc_mapper c' = vc_mapper c \<and>
    (\<forall>backing. volume_view backing c' = write_at off data (volume_view backing c))"
proof -
  let ?rs = "byte_range_to_chunks (vc_mapper c) off (length data)"
  have ok: "cache_ok c" "versions_ok c" "accounted c"
    using inv c by (auto simp: write_cache_inv_def volume_ok_def)
  have f: "off + length data + vc_chunk_size c \<le> 2 ^ 64"
    "wc_total_dirty wc + vc_chunk_size c * length ?rs < 2 ^ 64" "vc_next_version c + length ?rs < 2 ^ 64"
    using fits by (auto simp: write_fits_def)
  have t: "tiles (vc_chunk_size c) off (off + length data) ?rs"
    using f(1) ok(1) by (intro byte_range_to_chunks_tiles) (auto simp: cache_ok_def)
  obtain c' tot' where res: "apply_ranges now data ?rs (c, wc_total_dirty wc, 0) = Done (c', tot', length data)"
      "cache_ok c'" "vc_mapper c' = vc_mapper c"
      "\<And>backing. volume_view backing c' = write_at off data (volume_view backing c)"
    using apply_volume_view [OF ok(1) f(1), of now "wc_total_dirty wc"] by blast
  have db: "vc_dirty_bytes c \<le> wc_total_dirty wc"
    using inv c dirty_total_ge by (auto simp: write_cache_inv_def)
  have ev: "evolved c c'"
    by (rule evolved_apply_ranges [OF evolved_refl [OF ok(2)] ok(1) f(3) t _ res(1)]) simp
  have ac: "accounted c' \<and> tot' + vc_dirty_bytes c = wc_total_dirty wc + vc_dirty_bytes c'"
    by (rule apply_ranges_accounted [OF ok(1,3) db f(2) t _ res(1)]) simp
  have "volume_ok c'" using res(2) ev ac by (simp add: volume_ok_def evolved_def)
  with ac write_cache_inv_put [OF inv c this] ev res c show ?thesis by (auto simp: apply_write_def)
qed

lemma log_to_journal_frame:
  "log_to_journal crc io v m off data wc f = (r, wc', f') \<Longrightarrow>
   \<exists>j'. wc' = wc\<lparr>wc_journal := j'\<rparr>"
  by (auto simp: log_to_journal_def split: option.splits prod.splits sum.splits)
    (metis write_cache.surjective write_cache.update_convs(5))+

lemma sync_journal_to_frame:
  "sync_journal_to ok l wc f = (r, wc', f') \<Longrightarrow> \<exists>j'. wc' = wc\<lparr>wc_journal := j'\<rparr>"
  by (auto simp: sync_journal_to_def split: option.splits prod.splits sum.splits)
    (metis write_cache.surjective write_cache.update_convs(5))+

lemma write_cache_inv_journal [simp]:
  "write_cache_inv (wc\<lparr>wc_journal := j\<rparr>) = write_cache_inv wc"
  by (simp add: write_cache_inv_def)

text \<open>
  C4. A write to the cache is a write to the volume. It never panics and keeps the cache's
  invariant (chunks of the right size, none both dirty and clean, dirty bytes counted
  exactly); it leaves every other volume alone; and seen through the cache over any stored
  bytes, afterwards the volume is what it was with the data laid over it, unless the write
  failed before the journal took it, in which case the volume's cache is untouched.
\<close>

theorem cache_write_overlays:
  assumes "write_cache_inv wc" and "bt_get v (wc_caches wc) = Some c" and "data \<noteq> []"
    and "write_fits off (length data) c wc"
  shows "\<exists>r wc' f' c'. cache_write crc io now v off data wc f = Done (r, wc', f') \<and>
    write_cache_inv wc' \<and> bt_get v (wc_caches wc') = Some c' \<and>
    (\<forall>u. u \<noteq> v \<longrightarrow> bt_get u (wc_caches wc') = bt_get u (wc_caches wc)) \<and>
    ((\<forall>backing. volume_view backing c' = write_at off data (volume_view backing c)) \<or>
     c' = c \<and> (\<exists>e. r = Inl e))"
proof -
  have m: "mapper_of v wc = Some (vc_mapper c)" using assms(2) by (simp add: mapper_of_def)
  obtain lr wc1 f1 where log: "log_to_journal crc io v (vc_mapper c) off data wc f = (lr, wc1, f1)"
    using prod_cases3 by blast
  obtain j1 where wc1: "wc1 = wc\<lparr>wc_journal := j1\<rparr>" using log_to_journal_frame [OF log] by blast
  show ?thesis
  proof (cases lr)
    case (Inl e)
    then have "cache_write crc io now v off data wc f = Done (Inl e, wc1, f1)"
      using assms(3) m log by (simp add: cache_write_def)
    with assms(1,2) wc1 show ?thesis by auto
  next
    case (Inr logged)
    have inv1: "write_cache_inv wc1" "bt_get v (wc_caches wc1) = Some c" "write_fits off (length data) c wc1"
      using assms wc1 by (simp_all add: write_fits_def)
    obtain wc2 c' tot' where ap: "apply_write now v off data wc1 = Done (Inr wc2)" "write_cache_inv wc2"
        "wc2 = wc1\<lparr>wc_caches := bt_put v c' (wc_caches wc1), wc_total_dirty := tot'\<rparr>"
        "\<forall>backing. volume_view backing c' = write_at off data (volume_view backing c)"
      using apply_write_inv [OF inv1, of now] by blast
    obtain r wc3 f3 where sy: "sync_journal_to (io_sync io) logged wc2 f1 = (r, wc3, f3)"
      using prod_cases3 by blast
    obtain j3 where wc3: "wc3 = wc2\<lparr>wc_journal := j3\<rparr>" using sync_journal_to_frame [OF sy] by blast
    have "cache_write crc io now v off data wc f = Done (r, wc3, f3)"
      using assms(3) m log Inr ap(1) sy by (simp add: cache_write_def)
    moreover have "write_cache_inv wc3" using ap(2) by (simp only: wc3 write_cache_inv_journal)
    moreover have "bt_get v (wc_caches wc3) = Some c'"
        "\<forall>u. u \<noteq> v \<longrightarrow> bt_get u (wc_caches wc3) = bt_get u (wc_caches wc)"
      using ap(3) wc1 wc3 by simp_all
    ultimately show ?thesis using ap(4) by blast
  qed
qed

definition sample_mapper :: chunk_mapper where
  "sample_mapper = \<lparr>mapper_chunk_size = 4\<rparr>"

definition sample_cache :: write_cache where
  "sample_cache =
     \<lparr>wc_caches = [(''v'', volume_cache_new sample_mapper)], wc_mapper = sample_mapper,
      wc_config = \<lparr>cf_max_cache_bytes = 100, cf_max_dirty_age = 10\<rparr>, wc_total_dirty = 0,
      wc_journal = None\<rparr>"

lemma sample_cache_inv:
  "write_cache_inv sample_cache" "bt_get ''v'' (wc_caches sample_cache) = Some (volume_cache_new sample_mapper)"
  "volume_ok (volume_cache_new sample_mapper)"
  by (auto simp: write_cache_inv_def sample_cache_def bt_sorted_def bt_get_def volume_ok_def cache_ok_def
      volume_cache_new_def versions_ok_def accounted_def dirty_total_def sample_mapper_def)

lemma sample_fits: "write_fits 3 2 (volume_cache_new sample_mapper) sample_cache"
proof -
  have "length (byte_range_to_chunks sample_mapper 3 2) = 2"
    using arg_cong [OF byte_range_chunk_ids [of sample_mapper 3 2], of length]
    by (simp add: sample_mapper_def)
  then show ?thesis
    by (simp add: write_fits_def sample_cache_def volume_cache_new_def) (simp add: sample_mapper_def)
qed

theorem cache_write_overlays_witness:
  "\<exists>r wc' f' c'. cache_write (\<lambda>_. 0) \<lparr>io_write = Wrote, io_cut = Cut_ok, io_sync = True\<rparr> 0 ''v'' 3 [1, 2]
      sample_cache \<lparr>df_bytes = [], df_stable = 0\<rparr> = Done (r, wc', f') \<and>
    bt_get ''v'' (wc_caches wc') = Some c' \<and>
    ((\<forall>backing. volume_view backing c' =
        write_at 3 [1, 2] (volume_view backing (volume_cache_new sample_mapper))) \<or>
     (\<exists>e. r = Inl e))"
proof -
  have fits: "write_fits 3 (length [1 :: byte, 2]) (volume_cache_new sample_mapper) sample_cache"
    using sample_fits by (simp add: numeral_2_eq_2)
  have ne: "[1 :: byte, 2] \<noteq> []" by simp
  from cache_write_overlays [OF sample_cache_inv(1,2) ne fits, of "\<lambda>_. 0"
        "\<lparr>io_write = Wrote, io_cut = Cut_ok, io_sync = True\<rparr>" 0 "\<lparr>df_bytes = [], df_stable = 0\<rparr>"]
  show ?thesis by blast
qed

lemma tiles_chunk_bounds:
  assumes "tiles cs p e rs" and "0 < cs" and "r \<in> set rs"
  shows "p div cs \<le> chunk_id r \<and> chunk_id r \<le> (e - 1) div cs"
  using assms
proof (induction rs arbitrary: p)
  case Nil
  then show ?case by simp
next
  case (Cons r' rs)
  have t: "chunk_id r' * cs + offset_in_chunk r' = p" "0 < range_length r'"
    "offset_in_chunk r' + range_length r' \<le> cs" "tiles cs (p + range_length r') e rs"
    using Cons.prems(1) by auto
  have le: "p + range_length r' \<le> e" by (rule tiles_le [OF t(4)])
  show ?case
  proof (cases "r = r'")
    case True
    have "p div cs = chunk_id r'" using in_piece [OF Cons.prems(2) t(3), of p "chunk_id r'"] t by simp
    moreover have "p div cs \<le> (e - 1) div cs" using le t(2) by (intro div_le_mono) simp
    ultimately show ?thesis using True by simp
  next
    case False
    then have "(p + range_length r') div cs \<le> chunk_id r \<and> chunk_id r \<le> (e - 1) div cs"
      using Cons t by simp
    moreover have "p div cs \<le> (p + range_length r') div cs" by (intro div_le_mono) simp
    ultimately show ?thesis by linarith
  qed
qed

text \<open>
  C5. A read of the cache returns the bytes of the volume, or says it cannot. It never panics;
  what it returns is the volume's bytes whatever the storage under the cache holds; and it
  misses only if some chunk of the range is not held whole.
\<close>

theorem cache_read_returns_the_view:
  assumes "write_cache_inv wc" and "bt_get v (wc_caches wc) = Some c"
    and "off + len + vc_chunk_size c \<le> 2 ^ 64"
  shows "\<exists>r. cache_read v off len wc = Done r \<and>
    (case r of
       Some bs \<Rightarrow> \<forall>backing. bs = map (volume_view backing c) [off ..< off + len]
     | None \<Rightarrow> \<exists>cid. off div vc_chunk_size c \<le> cid \<and> cid \<le> (off + len - 1) div vc_chunk_size c \<and>
         \<not> holds_chunk v cid wc)"
proof (cases "len = 0")
  case True
  then show ?thesis by (simp add: cache_read_def)
next
  case False
  have ok: "cache_ok c" using assms(1,2) by (auto simp: write_cache_inv_def volume_ok_def)
  let ?rs = "byte_range_to_chunks (vc_mapper c) off len"
  have t: "tiles (vc_chunk_size c) off (off + len) ?rs"
    using assms(3) ok by (intro byte_range_to_chunks_tiles) (auto simp: cache_ok_def)
  have rd: "cache_read v off len wc =
      Done (if list_all (\<lambda>r. volume_chunk (chunk_id r) c \<noteq> None) ?rs
            then Some (map (volume_view backing c) [off ..< off + len]) else None)" for backing
    using read_ranges_view [OF ok t, of "[]" backing] assms(2) False by (simp add: cache_read_def)
  show ?thesis
  proof (cases "list_all (\<lambda>r. volume_chunk (chunk_id r) c \<noteq> None) ?rs")
    case True
    define bs where "bs = map (volume_view (\<lambda>_. []) c) [off ..< off + len]"
    have "cache_read v off len wc = Done (Some bs)" using rd [of "\<lambda>_. []"] True by (simp add: bs_def)
    moreover have "bs = map (volume_view backing c) [off ..< off + len]" for backing
      using rd [of "\<lambda>_. []"] rd [of backing] True by (simp add: bs_def)
    ultimately show ?thesis by (intro exI [of _ "Some bs"]) simp
  next
    case False
    then obtain r where "r \<in> set ?rs" "volume_chunk (chunk_id r) c = None" by (auto simp: list_all_iff)
    with tiles_chunk_bounds [OF t cache_okD(1) [OF ok]] assms(2)
    have "\<exists>cid. off div vc_chunk_size c \<le> cid \<and> cid \<le> (off + len - 1) div vc_chunk_size c \<and>
        \<not> holds_chunk v cid wc"
      by (auto simp: holds_chunk_def cache_chunk_def)
    with rd [of "\<lambda>_. []"] False show ?thesis by (intro exI [of _ None]) simp
  qed
qed

theorem cache_read_returns_the_view_witness:
  "\<exists>r. cache_read ''v'' 3 2 sample_cache = Done r \<and>
     (case r of
        Some bs \<Rightarrow> \<forall>backing. bs = map (volume_view backing (volume_cache_new sample_mapper)) [3 ..< 3 + 2]
      | None \<Rightarrow> \<exists>cid. 3 div 4 \<le> cid \<and> cid \<le> (3 + 2 - 1) div 4 \<and> \<not> holds_chunk ''v'' cid sample_cache)"
proof -
  have cs: "vc_chunk_size (volume_cache_new sample_mapper) = 4"
    by (simp add: volume_cache_new_def sample_mapper_def)
  from cache_read_returns_the_view [OF sample_cache_inv(1,2), of 3 2, unfolded cs] show ?thesis by simp
qed

text \<open>
  C7. Merging the stored bytes into a pending chunk loses neither them nor the writes: the volume
  reads the same before and after, over the stored bytes that were merged, the chunk is whole
  afterwards, and the merge never panics.
\<close>

theorem resolve_keeps_the_view:
  assumes "write_cache_inv wc" and "bt_get v (wc_caches wc) = Some c"
  shows "\<exists>wc' c'. resolve v cid (backing cid) wc = Done wc' \<and>
    bt_get v (wc_caches wc') = Some c' \<and> cache_ok c' \<and>
    volume_view backing c' = volume_view backing c \<and> \<not> is_pending v cid wc'"
proof -
  have ok: "cache_ok c" using assms by (auto simp: write_cache_inv_def volume_ok_def)
  obtain c' where c': "resolve_volume cid (backing cid) c = Done c'" "cache_ok c'"
      "\<And>x. volume_view backing c' x = volume_view backing c x"
      "\<And>d. bt_get cid (vc_dirty c') = Some d \<Longrightarrow> dc_pending d = None"
    using resolve_volume_view [OF ok refl, of cid backing] by blast
  then have "resolve v cid (backing cid) wc = Done (wc\<lparr>wc_caches := bt_put v c' (wc_caches wc)\<rparr>)"
    using assms(2) by (simp add: resolve_def on_volume_def)
  moreover have "volume_view backing c' = volume_view backing c" using c'(3) by (simp add: fun_eq_iff)
  moreover have "\<not> is_pending v cid (wc\<lparr>wc_caches := bt_put v c' (wc_caches wc)\<rparr>)"
    using c'(4) by (auto simp: is_pending_def split: option.split)
  ultimately show ?thesis using c'(2) by auto
qed

theorem resolve_keeps_the_view_witness:
  "\<exists>wc' c'. resolve ''v'' 0 ((\<lambda>_. [9, 9, 9, 9]) (0 :: nat)) sample_cache = Done wc' \<and>
    bt_get ''v'' (wc_caches wc') = Some c' \<and>
    volume_view (\<lambda>_. [9, 9, 9, 9]) c' = volume_view (\<lambda>_. [9, 9, 9, 9]) (volume_cache_new sample_mapper)"
  using resolve_keeps_the_view [OF sample_cache_inv(1,2), of 0 "\<lambda>_. [9, 9, 9, 9]"] by blast

lemma foldl_flush_mark:
  assumes "cache_ok c" "accounted c" "evolved c0 c" "vc_dirty_bytes c \<le> tot" "tot < 2 ^ 64"
    and "cache_ok c0" "versions_ok c0" "list_all (taken_from c0) flushed"
  shows "cache_ok (fst (foldl flush_mark (c, tot) flushed)) \<and>
    accounted (fst (foldl flush_mark (c, tot) flushed)) \<and>
    evolved c0 (fst (foldl flush_mark (c, tot) flushed)) \<and>
    snd (foldl flush_mark (c, tot) flushed) + vc_dirty_bytes c =
      tot + vc_dirty_bytes (fst (foldl flush_mark (c, tot) flushed)) \<and>
    volume_view backing (fst (foldl flush_mark (c, tot) flushed)) = volume_view backing c \<and>
    (\<forall>k d. bt_get k (vc_dirty c) = Some d \<and> (k, dc_version d) \<notin> set flushed \<longrightarrow>
       bt_get k (vc_dirty (fst (foldl flush_mark (c, tot) flushed))) = Some d)"
  using assms
proof (induction flushed arbitrary: c tot)
  case Nil
  then show ?case by simp
next
  case (Cons p ps)
  obtain cid v where p: "p = (cid, v)" by (cases p)
  obtain c1 tot1 where s: "flush_mark (c, tot) p = (c1, tot1)" by (cases "flush_mark (c, tot) p")
  have v1: "cache_ok c1" "volume_view backing c1 = volume_view backing c"
    "\<And>k. k \<noteq> cid \<or> (\<exists>d. bt_get k (vc_dirty c) = Some d \<and> dc_version d \<noteq> v) \<Longrightarrow>
       bt_get k (vc_dirty c1) = bt_get k (vc_dirty c)"
    using flush_mark_view [OF Cons.prems(1,3,6,7), of cid v tot backing] Cons.prems(8) s p by auto
  have e1: "evolved c0 c1" using evolved_flush_mark [OF Cons.prems(3), of tot p] s by simp
  have a1: "accounted c1 \<and> tot1 + vc_dirty_bytes c = tot + vc_dirty_bytes c1 \<and> tot1 \<le> tot"
    by (rule flush_mark_accounted [OF Cons.prems(1,2,4,5) s])
  have b1: "vc_dirty_bytes c1 \<le> tot1" "tot1 < 2 ^ 64" using a1 Cons.prems(4,5) by linarith+
  note IH = Cons.IH [OF v1(1) _ e1 b1 Cons.prems(6,7), of]
  have keep: "bt_get k (vc_dirty c1) = Some d"
    if "bt_get k (vc_dirty c) = Some d" "(k, dc_version d) \<noteq> (cid, v)" for k d
    using v1(3) [of k] that by auto
  show ?case using IH a1 v1(2) keep Cons.prems(8) s p by (auto simp del: split_paired_All)
qed

text \<open>
  C6. Marking a flush done drops no write. Let some chunks be taken to be flushed, and the
  cache change in any way after that (\<open>evolved\<close>); marking the taken versions flushed keeps the
  invariant, leaves the volume reading the same over any stored bytes, and leaves dirty, as it
  is, every chunk written or merged again since.
\<close>

theorem mark_flushed_drops_no_write:
  assumes "write_cache_inv wc" and "bt_get v (wc_caches wc) = Some c" and "wc_total_dirty wc < 2 ^ 64"
    and "volume_ok c0" and "evolved c0 c" and "list_all (taken_from c0) flushed"
  shows "\<exists>c'. bt_get v (wc_caches (mark_flushed v flushed wc)) = Some c' \<and>
    write_cache_inv (mark_flushed v flushed wc) \<and>
    (\<forall>backing. volume_view backing c' = volume_view backing c) \<and>
    (\<forall>cid d. bt_get cid (vc_dirty c) = Some d \<and> (cid, dc_version d) \<notin> set flushed \<longrightarrow>
       bt_get cid (vc_dirty c') = Some d)"
proof -
  have ok: "cache_ok c" "accounted c" "cache_ok c0" "versions_ok c0"
    using assms by (auto simp: write_cache_inv_def volume_ok_def)
  have db: "vc_dirty_bytes c \<le> wc_total_dirty wc"
    using assms(1,2) dirty_total_ge by (auto simp: write_cache_inv_def)
  obtain c' tot' where s: "foldl flush_mark (c, wc_total_dirty wc) flushed = (c', tot')"
    by (cases "foldl flush_mark (c, wc_total_dirty wc) flushed")
  note fm = foldl_flush_mark [OF ok(1,2) assms(5) db assms(3) ok(3,4) assms(6), unfolded s fst_conv snd_conv]
  have mf: "mark_flushed v flushed wc =
      wc\<lparr>wc_caches := bt_put v c' (wc_caches wc), wc_total_dirty := tot'\<rparr>"
    using assms(2) s by (simp add: mark_flushed_def)
  have "volume_ok c'" using fm by (auto simp: volume_ok_def evolved_def)
  with write_cache_inv_put [OF assms(1,2) this] fm mf show ?thesis by auto
qed

definition sample_dirty :: volume_cache where
  "sample_dirty =
     \<lparr>vc_dirty = [(0, \<lparr>dc_data = [1, 2, 3, 4], dc_dirty_since = 0, dc_last_modified = 0, dc_version = 1,
                      dc_pending = None\<rparr>)],
      vc_clean = [], vc_dirty_bytes = 4, vc_clean_bytes = 0, vc_next_version = 1, vc_mapper = sample_mapper\<rparr>"

lemma sample_dirty_ok: "volume_ok sample_dirty"
  by (auto simp: volume_ok_def sample_dirty_def cache_ok_def dirty_ok_def versions_ok_def accounted_def
      sample_mapper_def bt_sorted_def bt_get_def split: if_splits)

theorem mark_flushed_drops_no_write_witness:
  "\<exists>c'. bt_get ''v'' (wc_caches (mark_flushed ''v'' [(0, 1)]
      (sample_cache\<lparr>wc_caches := [(''v'', sample_dirty)], wc_total_dirty := 4\<rparr>))) = Some c' \<and>
    (\<forall>backing. volume_view backing c' = volume_view backing sample_dirty)"
proof -
  let ?wc = "sample_cache\<lparr>wc_caches := [(''v'', sample_dirty)], wc_total_dirty := 4\<rparr>"
  have get: "bt_get ''v'' (wc_caches ?wc) = Some sample_dirty" by (simp add: bt_get_def)
  have inv: "write_cache_inv ?wc"
    using sample_dirty_ok
    by (auto simp: write_cache_inv_def bt_sorted_def bt_get_def dirty_total_def split: if_splits)
      (simp add: sample_dirty_def)
  have ev: "evolved sample_dirty sample_dirty"
    using sample_dirty_ok by (intro evolved_refl) (simp add: volume_ok_def)
  have tk: "list_all (taken_from sample_dirty) [(0, 1)]"
    by (simp add: taken_from_def volume_dirty_chunks_def sample_dirty_def)
  from mark_flushed_drops_no_write [OF inv get _ sample_dirty_ok ev tk] show ?thesis by auto
qed

section \<open>Zeroing a range\<close>

definition caches_ok :: "write_cache \<Rightarrow> bool" where
  "caches_ok wc \<longleftrightarrow> (\<forall>v c. bt_get v (wc_caches wc) = Some c \<longrightarrow> cache_ok c)"

lemma cache_write_view:
  assumes "caches_ok wc" and "bt_get v (wc_caches wc) = Some c" and "data \<noteq> []"
    and "off + length data + vc_chunk_size c \<le> 2 ^ 64"
  shows "\<exists>r wc' f' c'. cache_write crc io now v off data wc f = Done (r, wc', f') \<and>
    caches_ok wc' \<and> bt_get v (wc_caches wc') = Some c' \<and> vc_mapper c' = vc_mapper c \<and>
    (r = Inr () \<longrightarrow> (\<forall>backing. volume_view backing c' = write_at off data (volume_view backing c)))"
proof -
  have m: "mapper_of v wc = Some (vc_mapper c)" using assms(2) by (simp add: mapper_of_def)
  have ok: "cache_ok c" using assms(1,2) by (simp add: caches_ok_def)
  obtain lr wc1 f1 where log: "log_to_journal crc io v (vc_mapper c) off data wc f = (lr, wc1, f1)"
    using prod_cases3 by blast
  obtain j1 where wc1: "wc1 = wc\<lparr>wc_journal := j1\<rparr>" using log_to_journal_frame [OF log] by blast
  show ?thesis
  proof (cases lr)
    case (Inl e)
    then have "cache_write crc io now v off data wc f = Done (Inl e, wc1, f1)"
      using assms(3) m log by (simp add: cache_write_def)
    with assms(1,2) wc1 show ?thesis by (auto simp: caches_ok_def)
  next
    case (Inr logged)
    obtain c' tot' where ap: "apply_ranges now data (byte_range_to_chunks (vc_mapper c) off (length data))
          (c, wc_total_dirty wc1, 0) = Done (c', tot', length data)"
        "cache_ok c'" "vc_mapper c' = vc_mapper c"
        "\<forall>backing. volume_view backing c' = write_at off data (volume_view backing c)"
      using apply_volume_view [OF ok assms(4), of now "wc_total_dirty wc1"] by blast
    define wc2 where "wc2 = wc1\<lparr>wc_caches := bt_put v c' (wc_caches wc1), wc_total_dirty := tot'\<rparr>"
    have aw: "apply_write now v off data wc1 = Done (Inr wc2)"
      using ap(1) assms(2) wc1 by (simp add: apply_write_def wc2_def)
    obtain r wc3 f3 where sy: "sync_journal_to (io_sync io) logged wc2 f1 = (r, wc3, f3)"
      using prod_cases3 by blast
    obtain j3 where wc3: "wc3 = wc2\<lparr>wc_journal := j3\<rparr>" using sync_journal_to_frame [OF sy] by blast
    have "cache_write crc io now v off data wc f = Done (r, wc3, f3)"
      using assms(3) m log Inr aw sy by (simp add: cache_write_def)
    moreover have "caches_ok wc3" "bt_get v (wc_caches wc3) = Some c'"
      using assms(1) ap(2) wc1 by (auto simp: wc3 wc2_def caches_ok_def)
    ultimately show ?thesis using ap(3,4) by blast
  qed
qed

lemma write_at_append:
  "write_at (off + length xs) ys (write_at off xs v) = write_at off (xs @ ys) v"
  by (auto simp: write_at_def fun_eq_iff nth_append)

lemma zero_pieces_view:
  assumes "caches_ok wc" and "bt_get v (wc_caches wc) = Some c" and "end' + vc_chunk_size c \<le> 2 ^ 64"
    and "at \<le> end'"
  shows "\<exists>r wc' f' c'. zero_pieces crc ios now v end' k at wc f = Done (r, wc', f') \<and>
    bt_get v (wc_caches wc') = Some c' \<and> cache_ok c' \<and>
    (r = Inr () \<longrightarrow>
      (\<forall>backing. volume_view backing c' = write_at at (replicate (end' - at) 0) (volume_view backing c)))"
  using assms
proof (induction "end' - at" arbitrary: at k wc f c rule: less_induct)
  case less
  show ?case
  proof (cases "at < end'")
    case False
    then have "zero_pieces crc ios now v end' k at wc f = Done (Inr (), wc, f)" by (simp add: zero_pieces.simps)
    moreover have "write_at at (replicate (end' - at) 0) w = w" for w
      using False by (auto simp: write_at_def fun_eq_iff)
    moreover have "cache_ok c" using less.prems(1,2) by (simp add: caches_ok_def)
    ultimately show ?thesis using less.prems(2) by simp
  next
    case True
    define n where "n = min (end' - at) ZERO_PIECE"
    have n: "0 < n" "at + n \<le> end'" using True by (auto simp: n_def ZERO_PIECE_def)
    then have ne: "replicate n (0 :: byte) \<noteq> []" by simp
    have fit: "at + length (replicate n (0 :: byte)) + vc_chunk_size c \<le> 2 ^ 64" using n less.prems(3) by simp
    obtain r1 wc1 f1 c1 where w: "cache_write crc (ios k) now v at (replicate n 0) wc f = Done (r1, wc1, f1)"
        "caches_ok wc1" "bt_get v (wc_caches wc1) = Some c1" "vc_mapper c1 = vc_mapper c"
        "r1 = Inr () \<Longrightarrow> (\<forall>backing. volume_view backing c1 = write_at at (replicate n 0) (volume_view backing c))"
      using cache_write_view [OF less.prems(1,2) ne fit, of crc "ios k" now f] by blast
    have step: "zero_pieces crc ios now v end' k at wc f =
        (case r1 of Inl e \<Rightarrow> Done (Inl e, wc1, f1) | Inr _ \<Rightarrow> zero_pieces crc ios now v end' (Suc k) (at + n) wc1 f1)"
      using True w(1) ne by (subst zero_pieces.simps) (simp add: write_durable_def Let_def n_def [symmetric] split: sum.split)
    show ?thesis
    proof (cases r1)
      case (Inl e)
      with step w(2,3) show ?thesis by (auto simp: caches_ok_def)
    next
      case (Inr u)
      have lt: "end' - (at + n) < end' - at" using n True by simp
      obtain r2 wc2 f2 c2 where IH: "zero_pieces crc ios now v end' (Suc k) (at + n) wc1 f1 = Done (r2, wc2, f2)"
          "bt_get v (wc_caches wc2) = Some c2" "cache_ok c2"
          "r2 = Inr () \<Longrightarrow> (\<forall>backing. volume_view backing c2 =
             write_at (at + n) (replicate (end' - (at + n)) 0) (volume_view backing c1))"
        using less.hyps [OF lt w(2,3), of "Suc k" f1] less.prems(3) w(4) n(2) by auto
      have "replicate (end' - at) (0 :: byte) = replicate n 0 @ replicate (end' - (at + n)) 0"
        using n(2) by (simp flip: replicate_add)
      then have "write_at (at + n) (replicate (end' - (at + n)) 0) (write_at at (replicate n 0) x) =
          write_at at (replicate (end' - at) 0) x" for x
        using write_at_append [of at "replicate n 0" "replicate (end' - (at + n)) 0" x] by simp
      with step Inr IH w(5) show ?thesis by auto
    qed
  qed
qed

text \<open>
  C8. Zeroing a range, written a piece at a time, zeroes all of it and nothing else: it always
  ends, never panics, and when it reports success the volume is what it was with zeros laid
  over exactly that range. A range that does not fit in a \<open>u64\<close> is refused and nothing is
  written.
\<close>

theorem write_zeroes_zeroes_the_range:
  assumes "caches_ok wc" and "bt_get v (wc_caches wc) = Some c" and "vc_chunk_size c + (off + len) \<le> 2 ^ 64 \<or> 2 ^ 64 \<le> off + len"
  shows "\<exists>r wc' f' c'. write_zeroes crc ios now v off len wc f = Done (r, wc', f') \<and>
    bt_get v (wc_caches wc') = Some c' \<and>
    (r = Inr () \<longrightarrow>
      (\<forall>backing. volume_view backing c' = write_at off (replicate len 0) (volume_view backing c))) \<and>
    (2 ^ 64 \<le> off + len \<longrightarrow> r = Inl InvalidSize \<and> wc' = wc \<and> f' = f)"
proof (cases "2 ^ 64 \<le> off + len")
  case True
  then show ?thesis using assms(2) by (simp add: write_zeroes_def checked_add_def)
next
  case False
  then have le: "off + len + vc_chunk_size c \<le> 2 ^ 64" using assms(3) by auto
  obtain r wc' f' c' where z: "zero_pieces crc ios now v (off + len) 0 off wc f = Done (r, wc', f')"
      "bt_get v (wc_caches wc') = Some c'"
      "r = Inr () \<Longrightarrow> (\<forall>backing. volume_view backing c' =
         write_at off (replicate (off + len - off) 0) (volume_view backing c))"
    using zero_pieces_view [OF assms(1,2) le, of off crc ios now 0 f] by auto
  with False show ?thesis by (auto simp: write_zeroes_def checked_add_def)
qed

theorem write_zeroes_zeroes_the_range_witness:
  "\<exists>r wc' f' c'. write_zeroes (\<lambda>_. 0) (\<lambda>_. \<lparr>io_write = Wrote, io_cut = Cut_ok, io_sync = True\<rparr>) 0 ''v'' 2 5
      sample_cache \<lparr>df_bytes = [], df_stable = 0\<rparr> = Done (r, wc', f') \<and>
    bt_get ''v'' (wc_caches wc') = Some c' \<and>
    (r = Inr () \<longrightarrow> (\<forall>backing. volume_view backing c' =
       write_at 2 (replicate 5 0) (volume_view backing (volume_cache_new sample_mapper))))"
proof -
  have ok: "caches_ok sample_cache"
    using sample_cache_inv(1) by (auto simp: caches_ok_def write_cache_inv_def volume_ok_def)
  have cs: "vc_chunk_size (volume_cache_new sample_mapper) + (2 + 5) \<le> 2 ^ 64 \<or> 2 ^ 64 \<le> (2 :: nat) + 5"
    by (simp add: volume_cache_new_def sample_mapper_def)
  from write_zeroes_zeroes_the_range [OF ok sample_cache_inv(2) cs, of "\<lambda>_. 0"
      "\<lambda>_. \<lparr>io_write = Wrote, io_cut = Cut_ok, io_sync = True\<rparr>" 0 "\<lparr>df_bytes = [], df_stable = 0\<rparr>"]
  show ?thesis by blast
qed

end
