(* ===== verification/Volumes.thy ===== *)
theory Volumes
  imports Write_Cache
begin

text \<open>
  Volumes and snapshots (\<open>crates/block/src/volume.rs\<close>): the manager's maps as sorted association
  lists, the sets of snapshot ids as lists without repetition. New ids (\<open>Uuid::new_v4\<close>) and the
  current time are arguments; what is assumed of a new id is that nothing has it yet.
\<close>

datatype volume_state = Creating | Available | Attached | Error_state | Deleting

definition volume_state_from :: "int \<Rightarrow> volume_state" where
  "volume_state_from value =
     (if value = 1 then Creating
      else if value = 2 then Available
      else if value = 3 then Attached
      else if value = 4 then Error_state
      else if value = 5 then Deleting
      else Available)"

fun volume_state_to :: "volume_state \<Rightarrow> int" where
  "volume_state_to Creating = 1"
| "volume_state_to Available = 2"
| "volume_state_to Attached = 3"
| "volume_state_to Error_state = 4"
| "volume_state_to Deleting = 5"

record volume =
  vol_volume_id :: string
  vol_name :: string
  vol_size_bytes :: nat
  vol_used_bytes :: nat
  vol_pool :: string
  vol_state :: volume_state
  vol_created_at :: nat
  vol_updated_at :: nat
  vol_parent_snapshot_id :: "string option"
  vol_chunk_size :: nat
  vol_metadata :: "(string \<times> string) list"

definition volume_new :: "string \<Rightarrow> nat \<Rightarrow> string \<Rightarrow> nat \<Rightarrow> string \<Rightarrow> volume" where
  "volume_new uuid now name size_bytes pool =
     \<lparr>vol_volume_id = uuid, vol_name = name, vol_size_bytes = size_bytes, vol_used_bytes = 0,
      vol_pool = pool, vol_state = Creating, vol_created_at = now, vol_updated_at = now,
      vol_parent_snapshot_id = None, vol_chunk_size = DEFAULT_CHUNK_SIZE, vol_metadata = []\<rparr>"

definition chunk_count :: "volume \<Rightarrow> nat" where
  "chunk_count v = div_ceil (vol_size_bytes v) (vol_chunk_size v)"

definition can_modify :: "volume \<Rightarrow> bool" where
  "can_modify v \<longleftrightarrow> vol_state v = Available"

definition can_attach :: "volume \<Rightarrow> bool" where
  "can_attach v \<longleftrightarrow> vol_state v = Available"

definition can_delete :: "volume \<Rightarrow> bool" where
  "can_delete v \<longleftrightarrow> vol_state v = Available"

record chunk_ref =
  cr_object_key :: string
  cr_etag :: string
  cr_size :: nat

record snapshot =
  sn_snapshot_id :: string
  sn_volume_id :: string
  sn_name :: string
  sn_size_bytes :: nat
  sn_unique_bytes :: nat
  sn_created_at :: nat
  sn_metadata :: "(string \<times> string) list"
  sn_chunk_refs :: "(nat \<times> chunk_ref) list"

record volume_manager =
  vm_volumes :: "(string \<times> volume) list"
  vm_volume_names :: "(string \<times> string) list"
  vm_snapshots :: "(string \<times> snapshot) list"
  vm_volume_snapshots :: "(string \<times> string list) list"
  vm_volume_chunks :: "(string \<times> (nat \<times> chunk_ref) list) list"
  vm_chunk_mapper :: chunk_mapper

definition volume_manager_new :: volume_manager where
  "volume_manager_new =
     \<lparr>vm_volumes = [], vm_volume_names = [], vm_snapshots = [], vm_volume_snapshots = [],
      vm_volume_chunks = [], vm_chunk_mapper = chunk_mapper_default\<rparr>"

definition with_chunk_size :: "nat \<Rightarrow> volume_manager outcome" where
  "with_chunk_size cs =
     (case chunk_mapper_new cs of
        Panic \<Rightarrow> Panic
      | Done m \<Rightarrow> Done (volume_manager_new\<lparr>vm_chunk_mapper := m\<rparr>))"

text \<open>The four insertions that store a volume.\<close>

definition store_volume :: "volume \<Rightarrow> (nat \<times> chunk_ref) list \<Rightarrow> volume_manager \<Rightarrow> volume_manager" where
  "store_volume v chunks m =
     m\<lparr>vm_volumes := bt_put (vol_volume_id v) v (vm_volumes m),
       vm_volume_names := bt_put (vol_name v) (vol_volume_id v) (vm_volume_names m),
       vm_volume_chunks := bt_put (vol_volume_id v) chunks (vm_volume_chunks m),
       vm_volume_snapshots := bt_put (vol_volume_id v) [] (vm_volume_snapshots m)\<rparr>"

definition create_volume ::
  "string \<Rightarrow> nat \<Rightarrow> string \<Rightarrow> nat \<Rightarrow> string \<Rightarrow> volume_manager \<Rightarrow>
   (block_error + volume) \<times> volume_manager" where
  "create_volume uuid now name size_bytes pool m =
     (if size_bytes = 0 then (Inl InvalidSize, m)
      else if bt_has name (vm_volume_names m) then (Inl (VolumeExists name), m)
      else
        let v = (volume_new uuid now name size_bytes pool)
                  \<lparr>vol_chunk_size := mapper_chunk_size (vm_chunk_mapper m), vol_state := Available\<rparr>
        in (Inr v, store_volume v [] m))"

definition restore_volume ::
  "volume \<Rightarrow> volume_manager \<Rightarrow> (block_error + unit) \<times> volume_manager" where
  "restore_volume v m =
     (if bt_has (vol_name v) (vm_volume_names m) then (Inl (VolumeExists (vol_name v)), m)
      else (Inr (), store_volume v [] m))"

definition get_volume :: "string \<Rightarrow> volume_manager \<Rightarrow> block_error + volume" where
  "get_volume volume_id m =
     (case bt_get volume_id (vm_volumes m) of
        None \<Rightarrow> Inl (VolumeNotFound volume_id)
      | Some v \<Rightarrow> Inr v)"

definition get_volume_by_name :: "string \<Rightarrow> volume_manager \<Rightarrow> block_error + volume" where
  "get_volume_by_name name m =
     (case bt_get name (vm_volume_names m) of
        None \<Rightarrow> Inl (VolumeNotFound name)
      | Some volume_id \<Rightarrow> get_volume volume_id m)"

definition list_volumes :: "volume_manager \<Rightarrow> volume list" where
  "list_volumes m = map snd (vm_volumes m)"

definition delete_volume ::
  "string \<Rightarrow> bool \<Rightarrow> volume_manager \<Rightarrow> (block_error + unit) \<times> volume_manager" where
  "delete_volume volume_id force m =
     (case get_volume volume_id m of
        Inl e \<Rightarrow> (Inl e, m)
      | Inr v \<Rightarrow>
          if vol_state v = Attached \<and> \<not> force then (Inl (VolumeAttached volume_id), m)
          else
            let has_snapshots =
              (case bt_get volume_id (vm_volume_snapshots m) of None \<Rightarrow> False | Some s \<Rightarrow> s \<noteq> [])
            in if has_snapshots \<and> \<not> force then (Inl (VolumeHasSnapshots volume_id), m)
               else
                 (Inr (),
                  m\<lparr>vm_volumes := bt_del volume_id (vm_volumes m),
                    vm_volume_names := bt_del (vol_name v) (vm_volume_names m),
                    vm_volume_chunks := bt_del volume_id (vm_volume_chunks m),
                    vm_volume_snapshots := bt_del volume_id (vm_volume_snapshots m)\<rparr>))"

definition resize_volume ::
  "nat \<Rightarrow> string \<Rightarrow> nat \<Rightarrow> volume_manager \<Rightarrow> (block_error + volume) \<times> volume_manager" where
  "resize_volume now volume_id new_size_bytes m =
     (case bt_get volume_id (vm_volumes m) of
        None \<Rightarrow> (Inl (VolumeNotFound volume_id), m)
      | Some v \<Rightarrow>
          if \<not> can_modify v then (Inl (VolumeAttached volume_id), m)
          else if new_size_bytes < vol_size_bytes v
            then (Inl (CannotShrink (vol_size_bytes v) new_size_bytes), m)
          else
            let v' = v\<lparr>vol_size_bytes := new_size_bytes, vol_updated_at := now\<rparr>
            in (Inr v', m\<lparr>vm_volumes := bt_put volume_id v' (vm_volumes m)\<rparr>))"

definition set_volume_state ::
  "nat \<Rightarrow> string \<Rightarrow> volume_state \<Rightarrow> volume_manager \<Rightarrow> (block_error + unit) \<times> volume_manager" where
  "set_volume_state now volume_id st m =
     (case bt_get volume_id (vm_volumes m) of
        None \<Rightarrow> (Inl (VolumeNotFound volume_id), m)
      | Some v \<Rightarrow>
          (Inr (),
           m\<lparr>vm_volumes := bt_put volume_id (v\<lparr>vol_state := st, vol_updated_at := now\<rparr>) (vm_volumes m)\<rparr>))"

section \<open>Chunks\<close>

definition get_chunk :: "string \<Rightarrow> nat \<Rightarrow> volume_manager \<Rightarrow> chunk_ref option" where
  "get_chunk volume_id cid m =
     (case bt_get volume_id (vm_volume_chunks m) of None \<Rightarrow> None | Some chunks \<Rightarrow> bt_get cid chunks)"

definition set_chunk :: "string \<Rightarrow> nat \<Rightarrow> chunk_ref \<Rightarrow> volume_manager \<Rightarrow> volume_manager" where
  "set_chunk volume_id cid r m =
     (case bt_get volume_id (vm_volume_chunks m) of
        None \<Rightarrow> m
      | Some chunks \<Rightarrow>
          m\<lparr>vm_volume_chunks := bt_put volume_id (bt_put cid r chunks) (vm_volume_chunks m)\<rparr>)"

definition is_chunk_allocated :: "string \<Rightarrow> nat \<Rightarrow> volume_manager \<Rightarrow> bool" where
  "is_chunk_allocated volume_id cid m \<longleftrightarrow>
     (case bt_get volume_id (vm_volume_chunks m) of None \<Rightarrow> False | Some chunks \<Rightarrow> bt_has cid chunks)"

definition get_allocated_chunks :: "string \<Rightarrow> volume_manager \<Rightarrow> nat list" where
  "get_allocated_chunks volume_id m =
     (case bt_get volume_id (vm_volume_chunks m) of None \<Rightarrow> [] | Some chunks \<Rightarrow> map fst chunks)"

section \<open>Snapshots\<close>

definition create_snapshot ::
  "string \<Rightarrow> nat \<Rightarrow> string \<Rightarrow> string \<Rightarrow> volume_manager \<Rightarrow> (block_error + snapshot) \<times> volume_manager" where
  "create_snapshot uuid now volume_id name m =
     (case get_volume volume_id m of
        Inl e \<Rightarrow> (Inl e, m)
      | Inr v \<Rightarrow>
          let chunk_refs =
                (case bt_get volume_id (vm_volume_chunks m) of None \<Rightarrow> [] | Some chunks \<Rightarrow> chunks);
              s = \<lparr>sn_snapshot_id = uuid, sn_volume_id = volume_id, sn_name = name,
                   sn_size_bytes = vol_size_bytes v, sn_unique_bytes = 0, sn_created_at = now,
                   sn_metadata = [], sn_chunk_refs = chunk_refs\<rparr>;
              m1 = m\<lparr>vm_snapshots := bt_put uuid s (vm_snapshots m)\<rparr>;
              m2 = (case bt_get volume_id (vm_volume_snapshots m1) of
                      None \<Rightarrow> m1
                    | Some snaps \<Rightarrow>
                        m1\<lparr>vm_volume_snapshots :=
                             bt_put volume_id (List.insert uuid snaps) (vm_volume_snapshots m1)\<rparr>)
          in (Inr s, m2))"

definition get_snapshot :: "string \<Rightarrow> volume_manager \<Rightarrow> block_error + snapshot" where
  "get_snapshot snapshot_id m =
     (case bt_get snapshot_id (vm_snapshots m) of
        None \<Rightarrow> Inl (SnapshotNotFound snapshot_id)
      | Some s \<Rightarrow> Inr s)"

definition list_snapshots :: "string \<Rightarrow> volume_manager \<Rightarrow> snapshot list" where
  "list_snapshots volume_id m =
     List.map_filter (\<lambda>sid. bt_get sid (vm_snapshots m))
       (case bt_get volume_id (vm_volume_snapshots m) of None \<Rightarrow> [] | Some s \<Rightarrow> s)"

definition delete_snapshot ::
  "string \<Rightarrow> volume_manager \<Rightarrow> (block_error + unit) \<times> volume_manager" where
  "delete_snapshot snapshot_id m =
     (case get_snapshot snapshot_id m of
        Inl e \<Rightarrow> (Inl e, m)
      | Inr s \<Rightarrow>
          let m1 = (case bt_get (sn_volume_id s) (vm_volume_snapshots m) of
                      None \<Rightarrow> m
                    | Some snaps \<Rightarrow>
                        m\<lparr>vm_volume_snapshots :=
                            bt_put (sn_volume_id s) (removeAll snapshot_id snaps) (vm_volume_snapshots m)\<rparr>)
          in (Inr (), m1\<lparr>vm_snapshots := bt_del snapshot_id (vm_snapshots m1)\<rparr>))"

definition clone_from_snapshot ::
  "string \<Rightarrow> nat \<Rightarrow> string \<Rightarrow> string \<Rightarrow> string option \<Rightarrow> volume_manager \<Rightarrow>
   (block_error + volume) \<times> volume_manager" where
  "clone_from_snapshot uuid now snapshot_id name pool m =
     (case get_snapshot snapshot_id m of
        Inl e \<Rightarrow> (Inl e, m)
      | Inr s \<Rightarrow>
          if bt_has name (vm_volume_names m) then (Inl (VolumeExists name), m)
          else
            let v = \<lparr>vol_volume_id = uuid, vol_name = name, vol_size_bytes = sn_size_bytes s,
                     vol_used_bytes = sn_unique_bytes s,
                     vol_pool = (case pool of Some p \<Rightarrow> p | None \<Rightarrow> ''default''),
                     vol_state = Available, vol_created_at = now, vol_updated_at = now,
                     vol_parent_snapshot_id = Some snapshot_id,
                     vol_chunk_size = mapper_chunk_size (vm_chunk_mapper m), vol_metadata = []\<rparr>
            in (Inr v, store_volume v (sn_chunk_refs s) m))"

section \<open>Runs of the manager\<close>

datatype vm_op =
    Op_create string nat string nat string
  | Op_restore volume
  | Op_delete string bool
  | Op_resize nat string nat
  | Op_set_state nat string volume_state
  | Op_set_chunk string nat chunk_ref
  | Op_snapshot string nat string string
  | Op_delete_snapshot string
  | Op_clone string nat string string "string option"

fun vm_exec :: "vm_op \<Rightarrow> volume_manager \<Rightarrow> volume_manager" where
  "vm_exec (Op_create u now n sz p) m = snd (create_volume u now n sz p m)"
| "vm_exec (Op_restore v) m = snd (restore_volume v m)"
| "vm_exec (Op_delete i f) m = snd (delete_volume i f m)"
| "vm_exec (Op_resize now i sz) m = snd (resize_volume now i sz m)"
| "vm_exec (Op_set_state now i st) m = snd (set_volume_state now i st m)"
| "vm_exec (Op_set_chunk i c r) m = set_chunk i c r m"
| "vm_exec (Op_snapshot u now i n) m = snd (create_snapshot u now i n m)"
| "vm_exec (Op_delete_snapshot i) m = snd (delete_snapshot i m)"
| "vm_exec (Op_clone u now i n p) m = snd (clone_from_snapshot u now i n p m)"

text \<open>A new id is one nothing has, and a volume is put back under an id that is not in use.\<close>

fun fresh_op :: "vm_op \<Rightarrow> volume_manager \<Rightarrow> bool" where
  "fresh_op (Op_create u now n sz p) m = (\<not> bt_has u (vm_volumes m))"
| "fresh_op (Op_restore v) m = (\<not> bt_has (vol_volume_id v) (vm_volumes m))"
| "fresh_op (Op_snapshot u now i n) m = (\<not> bt_has u (vm_snapshots m))"
| "fresh_op (Op_clone u now i n p) m = (\<not> bt_has u (vm_volumes m))"
| "fresh_op op m = True"

fun vm_run :: "vm_op list \<Rightarrow> volume_manager \<Rightarrow> volume_manager" where
  "vm_run [] m = m"
| "vm_run (op # ops) m = vm_run ops (vm_exec op m)"

fun fresh_run :: "vm_op list \<Rightarrow> volume_manager \<Rightarrow> bool" where
  "fresh_run [] m = True"
| "fresh_run (op # ops) m = (fresh_op op m \<and> fresh_run ops (vm_exec op m))"

text \<open>
  The manager's maps agree: a name stands for the one volume that has it, every volume has its
  chunks and its set of snapshots, and a volume's snapshots exist and are of that volume.
\<close>

definition names_agree :: "volume_manager \<Rightarrow> bool" where
  "names_agree m \<longleftrightarrow>
     (\<forall>i v. bt_get i (vm_volumes m) = Some v \<longrightarrow>
        vol_volume_id v = i \<and> bt_get (vol_name v) (vm_volume_names m) = Some i) \<and>
     (\<forall>n i. bt_get n (vm_volume_names m) = Some i \<longrightarrow>
        (\<exists>v. bt_get i (vm_volumes m) = Some v \<and> vol_name v = n))"

definition parts_agree :: "volume_manager \<Rightarrow> bool" where
  "parts_agree m \<longleftrightarrow>
     (\<forall>i. bt_has i (vm_volume_chunks m) = bt_has i (vm_volumes m)) \<and>
     (\<forall>i. bt_has i (vm_volume_snapshots m) = bt_has i (vm_volumes m)) \<and>
     (\<forall>i sids sid. bt_get i (vm_volume_snapshots m) = Some sids \<and> sid \<in> set sids \<longrightarrow>
        (\<exists>s. bt_get sid (vm_snapshots m) = Some s \<and> sn_volume_id s = i)) \<and>
     (\<forall>sid s. bt_get sid (vm_snapshots m) = Some s \<longrightarrow> sn_snapshot_id s = sid)"

definition vm_inv :: "volume_manager \<Rightarrow> bool" where
  "vm_inv m \<longleftrightarrow> names_agree m \<and> parts_agree m"

lemma bt_has_put [simp]: "bt_has k' (bt_put k v m) \<longleftrightarrow> k' = k \<or> bt_has k' m"
  by (simp add: bt_has_def)

lemma bt_has_del [simp]: "bt_has k' (bt_del k m) \<longleftrightarrow> k' \<noteq> k \<and> bt_has k' m"
  by (simp add: bt_has_def)

lemma vm_inv_new: "vm_inv volume_manager_new"
  by (simp add: vm_inv_def names_agree_def parts_agree_def volume_manager_new_def bt_has_def)

lemma store_volume_inv:
  assumes "vm_inv m" and "\<not> bt_has (vol_volume_id v) (vm_volumes m)" and "\<not> bt_has (vol_name v) (vm_volume_names m)"
  shows "vm_inv (store_volume v chunks m)"
proof -
  have n: "bt_get (vol_volume_id v) (vm_volumes m) = None" "bt_get (vol_name v) (vm_volume_names m) = None"
    using assms(2,3) by (simp_all add: bt_has_def)
  have a: "names_agree m" and p: "parts_agree m" using assms(1) by (auto simp: vm_inv_def)
  have "names_agree (store_volume v chunks m)"
    using a n unfolding names_agree_def store_volume_def
    by simp (metis option.distinct(1) option.inject)
  moreover have "parts_agree (store_volume v chunks m)"
    using p by (simp add: parts_agree_def store_volume_def) (metis empty_iff list.set(1) option.inject)
  ultimately show ?thesis by (simp add: vm_inv_def)
qed

lemma names_agreeD:
  assumes "names_agree m"
  shows "\<And>i v. bt_get i (vm_volumes m) = Some v \<Longrightarrow> vol_volume_id v = i"
    and "\<And>i v. bt_get i (vm_volumes m) = Some v \<Longrightarrow> bt_get (vol_name v) (vm_volume_names m) = Some i"
    and "\<And>n i. bt_get n (vm_volume_names m) = Some i \<Longrightarrow> \<exists>v. bt_get i (vm_volumes m) = Some v \<and> vol_name v = n"
  using assms by (auto simp: names_agree_def)

lemma delete_volume_cases:
  obtains "snd (delete_volume i force m) = m"
  | v where "bt_get i (vm_volumes m) = Some v"
      "snd (delete_volume i force m) =
         m\<lparr>vm_volumes := bt_del i (vm_volumes m), vm_volume_names := bt_del (vol_name v) (vm_volume_names m),
           vm_volume_chunks := bt_del i (vm_volume_chunks m),
           vm_volume_snapshots := bt_del i (vm_volume_snapshots m)\<rparr>"
proof (cases "bt_get i (vm_volumes m)")
  case None
  then show thesis by (intro that(1)) (simp add: delete_volume_def get_volume_def)
next
  case (Some v)
  define hs where "hs = (case bt_get i (vm_volume_snapshots m) of None \<Rightarrow> False | Some s \<Rightarrow> s \<noteq> [])"
  show thesis
  proof (cases "\<not> force \<and> (vol_state v = Attached \<or> hs)")
    case True
    then show thesis
      by (intro that(1)) (auto simp: delete_volume_def get_volume_def Some Let_def hs_def [symmetric])
  next
    case False
    then show thesis
      by (intro that(2) [OF Some]) (auto simp: delete_volume_def get_volume_def Some Let_def hs_def [symmetric])
  qed
qed

lemma delete_volume_inv:
  assumes "vm_inv m"
  shows "vm_inv (snd (delete_volume i force m))"
proof (cases rule: delete_volume_cases [of i force m])
  case 1
  with assms show ?thesis by simp
next
  case (2 v)
  have a: "names_agree m" and p: "parts_agree m" using assms by (auto simp: vm_inv_def)
  note A = names_agreeD [OF a]
  have "names_agree (snd (delete_volume i force m))"
    unfolding 2(2) names_agree_def
  proof (intro conjI allI impI, goal_cases)
    case (1 j w)
    then have "j \<noteq> i" "bt_get j (vm_volumes m) = Some w" by (auto split: if_splits)
    then show ?case using A(1) by blast
  next
    case (2 j w)
    then have "j \<noteq> i" "bt_get j (vm_volumes m) = Some w" by (auto split: if_splits)
    then show ?case using A(2) [of j w] A(2) [OF \<open>bt_get i (vm_volumes m) = Some v\<close>] by auto
  next
    case (3 n j)
    then have n: "n \<noteq> vol_name v" "bt_get n (vm_volume_names m) = Some j" by (auto split: if_splits)
    obtain w where w: "bt_get j (vm_volumes m) = Some w" "vol_name w = n" using A(3) [OF n(2)] by blast
    with n(1) \<open>bt_get i (vm_volumes m) = Some v\<close> have "j \<noteq> i" by auto
    with w show ?case by auto
  qed
  moreover have "parts_agree (snd (delete_volume i force m))"
    using p unfolding 2(2) by (auto simp: parts_agree_def)
  ultimately show ?thesis by (simp add: vm_inv_def)
qed

lemma update_volume_inv:
  assumes "vm_inv m" and "bt_get i (vm_volumes m) = Some v" and "vol_volume_id v' = vol_volume_id v"
    and "vol_name v' = vol_name v"
  shows "vm_inv (m\<lparr>vm_volumes := bt_put i v' (vm_volumes m)\<rparr>)"
proof -
  have a: "names_agree m" and p: "parts_agree m" using assms by (auto simp: vm_inv_def)
  note A = names_agreeD [OF a]
  have "names_agree (m\<lparr>vm_volumes := bt_put i v' (vm_volumes m)\<rparr>)"
    unfolding names_agree_def
  proof (intro conjI allI impI)
    fix j w assume "bt_get j (vm_volumes (m\<lparr>vm_volumes := bt_put i v' (vm_volumes m)\<rparr>)) = Some w"
    then show "vol_volume_id w = j"
      "bt_get (vol_name w) (vm_volume_names (m\<lparr>vm_volumes := bt_put i v' (vm_volumes m)\<rparr>)) = Some j"
      using A(1,2) assms(2-4) by (auto split: if_splits)
  next
    fix n j assume "bt_get n (vm_volume_names (m\<lparr>vm_volumes := bt_put i v' (vm_volumes m)\<rparr>)) = Some j"
    then show "\<exists>w. bt_get j (vm_volumes (m\<lparr>vm_volumes := bt_put i v' (vm_volumes m)\<rparr>)) = Some w \<and> vol_name w = n"
      using A(3) [of n j] assms(2,4) by auto
  qed
  moreover have "parts_agree (m\<lparr>vm_volumes := bt_put i v' (vm_volumes m)\<rparr>)"
    using p assms(2) by (auto simp: parts_agree_def bt_has_def split: if_splits)
  ultimately show ?thesis by (simp add: vm_inv_def)
qed

lemma create_snapshot_inv:
  assumes "vm_inv m" and "\<not> bt_has u (vm_snapshots m)"
  shows "vm_inv (snd (create_snapshot u now i n m))"
proof (cases "bt_get i (vm_volumes m)")
  case None
  with assms(1) show ?thesis by (simp add: create_snapshot_def get_volume_def)
next
  case (Some v)
  have a: "names_agree m" and p: "parts_agree m" using assms by (auto simp: vm_inv_def)
  obtain sids where s: "bt_get i (vm_volume_snapshots m) = Some sids"
  proof -
    have "bt_has i (vm_volume_snapshots m)" using p Some by (simp add: parts_agree_def bt_has_def)
    then show ?thesis using that by (auto simp: bt_has_def)
  qed
  define s where "s = \<lparr>sn_snapshot_id = u, sn_volume_id = i, sn_name = n, sn_size_bytes = vol_size_bytes v,
      sn_unique_bytes = 0, sn_created_at = now, sn_metadata = [],
      sn_chunk_refs = (case bt_get i (vm_volume_chunks m) of None \<Rightarrow> [] | Some chunks \<Rightarrow> chunks)\<rparr>"
  have sn: "sn_volume_id s = i" "sn_snapshot_id s = u" by (simp_all add: s_def)
  have eq: "snd (create_snapshot u now i n m) =
      m\<lparr>vm_snapshots := bt_put u s (vm_snapshots m),
        vm_volume_snapshots := bt_put i (List.insert u sids) (vm_volume_snapshots m)\<rparr>"
    using Some s by (simp add: create_snapshot_def get_volume_def Let_def s_def)
  have u: "bt_get u (vm_snapshots m) = None" using assms(2) by (simp add: bt_has_def)
  have "parts_agree (snd (create_snapshot u now i n m))"
    unfolding eq parts_agree_def
  proof (intro conjI allI impI, goal_cases)
    case (3 j l sid)
    show ?case
    proof (cases "sid = u")
      case True
      have "j = i"
        using 3 True p u by (fastforce simp: parts_agree_def split: if_splits)
      with True sn show ?thesis by simp
    next
      case False
      then have "\<exists>l'. bt_get j (vm_volume_snapshots m) = Some l' \<and> sid \<in> set l'"
        using 3 s by (auto split: if_splits)
      then show ?thesis using p False by (auto simp: parts_agree_def)
    qed
  qed (use p sn Some in \<open>auto simp: parts_agree_def bt_has_def split: if_splits\<close>)
  moreover have "names_agree (snd (create_snapshot u now i n m))"
    using a unfolding eq by (simp add: names_agree_def)
  ultimately show ?thesis by (simp add: vm_inv_def)
qed

lemma delete_snapshot_inv:
  assumes "vm_inv m"
  shows "vm_inv (snd (delete_snapshot sid m))"
proof (cases "bt_get sid (vm_snapshots m)")
  case None
  with assms show ?thesis by (simp add: delete_snapshot_def get_snapshot_def)
next
  case (Some s)
  have a: "names_agree m" and p: "parts_agree m" using assms by (auto simp: vm_inv_def)
  let ?i = "sn_volume_id s"
  have "names_agree (snd (delete_snapshot sid m))"
    using a Some by (auto simp: delete_snapshot_def get_snapshot_def Let_def names_agree_def split: option.splits)
  moreover have "parts_agree (snd (delete_snapshot sid m))"
  proof (cases "bt_get ?i (vm_volume_snapshots m)")
    case None
    have eq: "snd (delete_snapshot sid m) = m\<lparr>vm_snapshots := bt_del sid (vm_snapshots m)\<rparr>"
      using Some None by (simp add: delete_snapshot_def get_snapshot_def)
    have "x \<noteq> sid" if "bt_get j (vm_volume_snapshots m) = Some l" "x \<in> set l" for j l x
      using that p Some None by (fastforce simp: parts_agree_def)
    with p show ?thesis unfolding eq by (auto simp: parts_agree_def)
  next
    case (Some sids)
    have eq: "snd (delete_snapshot sid m) =
        m\<lparr>vm_volume_snapshots := bt_put ?i (removeAll sid sids) (vm_volume_snapshots m),
          vm_snapshots := bt_del sid (vm_snapshots m)\<rparr>"
      using Some \<open>bt_get sid (vm_snapshots m) = Some s\<close> by (simp add: delete_snapshot_def get_snapshot_def)
    have "x \<noteq> sid" if "bt_get j (vm_volume_snapshots m) = Some l" "x \<in> set l" "j \<noteq> ?i" for j l x
      using that p \<open>bt_get sid (vm_snapshots m) = Some s\<close> by (fastforce simp: parts_agree_def)
    with p Some show ?thesis
      unfolding eq by (auto simp: parts_agree_def bt_has_def split: if_splits)
  qed
  ultimately show ?thesis by (simp add: vm_inv_def)
qed

lemma vm_exec_inv:
  assumes "vm_inv m" and "fresh_op op m"
  shows "vm_inv (vm_exec op m)"
proof (cases op)
  case (Op_create u now n sz p)
  with assms show ?thesis
    by (auto simp: create_volume_def Let_def volume_new_def intro!: store_volume_inv)
next
  case (Op_restore v)
  with assms show ?thesis by (auto simp: restore_volume_def intro!: store_volume_inv)
next
  case (Op_delete i f)
  with delete_volume_inv [OF assms(1)] show ?thesis by simp
next
  case (Op_resize now i sz)
  with assms show ?thesis
    by (auto simp: resize_volume_def Let_def intro!: update_volume_inv split: option.split)
next
  case (Op_set_state now i st)
  with assms show ?thesis
    by (auto simp: set_volume_state_def Let_def intro!: update_volume_inv split: option.split)
next
  case (Op_set_chunk i c r)
  with assms(1) show ?thesis
    by (auto simp: set_chunk_def vm_inv_def names_agree_def parts_agree_def bt_has_def split: option.split)
next
  case (Op_snapshot u now i n)
  with create_snapshot_inv [OF assms(1)] assms(2) show ?thesis by simp
next
  case (Op_delete_snapshot i)
  with delete_snapshot_inv [OF assms(1)] show ?thesis by simp
next
  case (Op_clone u now i n p)
  with assms show ?thesis
    by (auto simp: clone_from_snapshot_def get_snapshot_def Let_def intro!: store_volume_inv split: option.split)
qed

lemma vm_run_inv: "vm_inv m \<Longrightarrow> fresh_run ops m \<Longrightarrow> vm_inv (vm_run ops m)"
  by (induction ops arbitrary: m) (auto intro: vm_exec_inv)

section \<open>What the manager guarantees\<close>

text \<open>
  C10. In every run of the manager, as long as new ids are new, names and volumes stay in step:
  looking a volume up by its name finds that volume, a lookup by name finds only a volume of
  that name, no two volumes share one, and the snapshots listed for a volume exist and were
  taken of it.
\<close>

theorem names_and_volumes_agree:
  assumes "fresh_run ops volume_manager_new" and "m = vm_run ops volume_manager_new"
  shows "(\<forall>i v. get_volume i m = Inr v \<longrightarrow> vol_volume_id v = i \<and> get_volume_by_name (vol_name v) m = Inr v) \<and>
    (\<forall>n v. get_volume_by_name n m = Inr v \<longrightarrow> vol_name v = n) \<and>
    (\<forall>i s. s \<in> set (list_snapshots i m) \<longrightarrow> sn_volume_id s = i \<and> get_snapshot (sn_snapshot_id s) m = Inr s)"
proof -
  have "vm_inv m" unfolding assms(2) by (rule vm_run_inv [OF vm_inv_new assms(1)])
  then have a: "names_agree m" and p: "parts_agree m" by (auto simp: vm_inv_def)
  note A = names_agreeD [OF a]
  have 1: "vol_volume_id v = i \<and> get_volume_by_name (vol_name v) m = Inr v" if "get_volume i m = Inr v" for i v
  proof -
    have g: "bt_get i (vm_volumes m) = Some v" using that by (simp add: get_volume_def split: option.splits)
    then show ?thesis using A(1) A(2) [OF g] by (simp add: get_volume_by_name_def get_volume_def)
  qed
  have 2: "vol_name v = n" if "get_volume_by_name n m = Inr v" for n v
    using that A(3) by (fastforce simp: get_volume_by_name_def get_volume_def split: option.splits)
  have 3: "sn_volume_id s = i \<and> get_snapshot (sn_snapshot_id s) m = Inr s" if ls: "s \<in> set (list_snapshots i m)" for i s
  proof -
    obtain sids where l1: "bt_get i (vm_volume_snapshots m) = Some sids"
      using ls by (cases "bt_get i (vm_volume_snapshots m)") (simp_all add: list_snapshots_def map_filter_simps)
    then obtain sid where l: "bt_get i (vm_volume_snapshots m) = Some sids" "sid \<in> set sids"
        "bt_get sid (vm_snapshots m) = Some s"
      using ls by (auto simp: list_snapshots_def map_filter_def)
    have "sn_snapshot_id s = sid" using p l(3) by (simp add: parts_agree_def)
    moreover have "sn_volume_id s = i" using p l by (fastforce simp: parts_agree_def)
    ultimately show ?thesis using l(3) by (simp add: get_snapshot_def)
  qed
  from 1 2 3 show ?thesis by blast
qed

definition sample_run :: "vm_op list" where
  "sample_run = [Op_create ''a'' 1 ''vol'' 10 ''p'', Op_snapshot ''s'' 2 ''a'' ''snap'',
     Op_set_chunk ''a'' 0 \<lparr>cr_object_key = ''k'', cr_etag = ''e'', cr_size = 4\<rparr>]"

definition sample_volume :: volume where
  "sample_volume =
     \<lparr>vol_volume_id = ''a'', vol_name = ''vol'', vol_size_bytes = 10, vol_used_bytes = 0, vol_pool = ''p'',
      vol_state = Available, vol_created_at = 1, vol_updated_at = 1, vol_parent_snapshot_id = None,
      vol_chunk_size = DEFAULT_CHUNK_SIZE, vol_metadata = []\<rparr>"

lemma sample_created:
  "vm_exec (Op_create ''a'' 1 ''vol'' 10 ''p'') volume_manager_new =
     \<lparr>vm_volumes = [(''a'', sample_volume)], vm_volume_names = [(''vol'', ''a'')], vm_snapshots = [],
      vm_volume_snapshots = [(''a'', [])], vm_volume_chunks = [(''a'', [])],
      vm_chunk_mapper = chunk_mapper_default\<rparr>"
  by (simp add: create_volume_def Let_def store_volume_def volume_new_def volume_manager_new_def bt_has_def
      chunk_mapper_default_def sample_volume_def)

lemma sample_run_fresh: "fresh_run sample_run volume_manager_new"
  unfolding sample_run_def fresh_run.simps sample_created
  by (simp add: bt_has_def volume_manager_new_def)

lemma sample_run_volume: "get_volume ''a'' (vm_run sample_run volume_manager_new) = Inr sample_volume"
  unfolding sample_run_def vm_run.simps sample_created
  by (auto simp: create_snapshot_def set_chunk_def get_volume_def Let_def bt_get_def split: option.split)

theorem names_and_volumes_agree_witness:
  "vol_volume_id sample_volume = ''a'' \<and>
   get_volume_by_name (vol_name sample_volume) (vm_run sample_run volume_manager_new) = Inr sample_volume"
  using names_and_volumes_agree [OF sample_run_fresh refl] sample_run_volume by blast

text \<open>Nothing but deleting a snapshot changes it.\<close>

lemma vm_exec_keeps_snapshot:
  assumes "bt_get sid (vm_snapshots m) = Some s" and "fresh_op op m" and "op \<noteq> Op_delete_snapshot sid"
  shows "bt_get sid (vm_snapshots (vm_exec op m)) = Some s"
proof (cases op)
  case (Op_delete i f)
  show ?thesis
    by (cases rule: delete_volume_cases [of i f m]) (use assms(1) Op_delete in auto)
next
  case (Op_snapshot u now i n)
  then have "u \<noteq> sid" using assms by (auto simp: bt_has_def)
  then show ?thesis
    using assms(1) Op_snapshot
    by (auto simp: create_snapshot_def get_volume_def Let_def split: option.split)
next
  case (Op_delete_snapshot i)
  then have "i \<noteq> sid" using assms(3) by simp
  then show ?thesis
    using assms(1) Op_delete_snapshot
    by (auto simp: delete_snapshot_def get_snapshot_def Let_def split: option.split)
qed (use assms(1) in \<open>auto simp: create_volume_def restore_volume_def resize_volume_def set_volume_state_def
      set_chunk_def clone_from_snapshot_def get_snapshot_def store_volume_def Let_def split: option.split\<close>)

lemma vm_run_keeps_snapshot:
  "bt_get sid (vm_snapshots m) = Some s \<Longrightarrow> fresh_run ops m \<Longrightarrow> Op_delete_snapshot sid \<notin> set ops \<Longrightarrow>
   bt_get sid (vm_snapshots (vm_run ops m)) = Some s"
proof (induction ops arbitrary: m)
  case (Cons op ops)
  then have "bt_get sid (vm_snapshots (vm_exec op m)) = Some s"
    by (intro vm_exec_keeps_snapshot) auto
  with Cons show ?case by simp
qed simp

text \<open>
  C9. A snapshot is a picture of its volume. Whatever happens after it is taken (writes that
  move chunks, resizes, other snapshots and clones, even the deletion of the volume), short of
  deleting the snapshot itself, a volume cloned from it later has the size the volume had and,
  chunk for chunk, the references the volume had when the snapshot was taken.
\<close>

theorem clone_is_the_volume_at_snapshot_time:
  assumes "create_snapshot u now i n m = (Inr s, m')" and "get_volume i m = Inr v"
    and "fresh_run ops m'" and "Op_delete_snapshot u \<notin> set ops"
    and "clone_from_snapshot u' now' u name pool (vm_run ops m') = (Inr c, m'')"
  shows "vol_size_bytes c = vol_size_bytes v \<and> (\<forall>cid. get_chunk (vol_volume_id c) cid m'' = get_chunk i cid m)"
proof -
  have s: "bt_get u (vm_snapshots m') = Some s" "sn_size_bytes s = vol_size_bytes v"
      "sn_chunk_refs s = (case bt_get i (vm_volume_chunks m) of None \<Rightarrow> [] | Some chunks \<Rightarrow> chunks)"
    using assms(1,2) by (auto simp: create_snapshot_def Let_def split: option.splits)
  have "bt_get u (vm_snapshots (vm_run ops m')) = Some s"
    by (rule vm_run_keeps_snapshot [OF s(1) assms(3,4)])
  with assms(5) s(2,3) show ?thesis
    by (auto simp: clone_from_snapshot_def get_snapshot_def Let_def get_chunk_def store_volume_def
        split: if_splits option.split)
qed

theorem clone_is_the_volume_at_snapshot_time_witness:
  "\<exists>c m''. clone_from_snapshot ''b'' 9 ''s'' ''vol2'' None
      (vm_run [Op_set_chunk ''a'' 0 \<lparr>cr_object_key = ''k'', cr_etag = ''e'', cr_size = 4\<rparr>]
        (snd (create_snapshot ''s'' 2 ''a'' ''snap'' (vm_run [Op_create ''a'' 1 ''vol'' 10 ''p''] volume_manager_new)))) =
      (Inr c, m'') \<and>
    vol_size_bytes c = 10 \<and> get_chunk (vol_volume_id c) 0 m'' = None"
proof -
  let ?m = "vm_run [Op_create ''a'' 1 ''vol'' 10 ''p''] volume_manager_new"
  let ?op = "Op_set_chunk ''a'' 0 \<lparr>cr_object_key = ''k'', cr_etag = ''e'', cr_size = 4\<rparr>"
  have m: "?m = \<lparr>vm_volumes = [(''a'', sample_volume)], vm_volume_names = [(''vol'', ''a'')], vm_snapshots = [],
      vm_volume_snapshots = [(''a'', [])], vm_volume_chunks = [(''a'', [])],
      vm_chunk_mapper = chunk_mapper_default\<rparr>"
    using sample_created by simp
  obtain s m' where sn: "create_snapshot ''s'' 2 ''a'' ''snap'' ?m = (Inr s, m')"
    and names: "vm_volume_names m' = [(''vol'', ''a'')]" "bt_get ''s'' (vm_snapshots m') = Some s"
    unfolding m by (simp add: create_snapshot_def get_volume_def bt_get_def Let_def volume_manager_new_def)
  have v: "get_volume ''a'' ?m = Inr sample_volume" unfolding m by (simp add: get_volume_def bt_get_def)
  have n2: "vm_volume_names (vm_run [?op] m') = [(''vol'', ''a'')]" "vm_snapshots (vm_run [?op] m') = vm_snapshots m'"
    using names(1) by (simp_all add: set_chunk_def split: option.split)
  obtain c m'' where cl: "clone_from_snapshot ''b'' 9 ''s'' ''vol2'' None (vm_run [?op] m') = (Inr c, m'')"
    using names(2) n2 by (simp add: clone_from_snapshot_def get_snapshot_def bt_has_def bt_get_def Let_def)
  have "get_chunk ''a'' 0 ?m = None" unfolding m by (simp add: get_chunk_def bt_get_def)
  with clone_is_the_volume_at_snapshot_time [OF sn v _ _ cl] cl sn show ?thesis by (auto simp: sample_volume_def)
qed



end
