(* ===== verification/Stripe_Sharing.thy ===== *)
theory Stripe_Sharing
  imports Prelude
begin

text \<open>
  What the shared-stripe registry promises. The abstract state has the rows that hold a stripe,
  each under the name of an owner, and the registry's list of owners of a stripe. The invariant
  says that the registry knows exactly the owners of a stripe that some row holds, and that a
  stripe with no entry has one row at most; under it, the registry calls a stripe free exactly
  when no row is left that holds it.
\<close>

record 'k sharing =
  sh_rows :: "'k \<Rightarrow> (bytes \<times> bytes) option"
  sh_reg :: "bytes \<Rightarrow> bytes list option"

text \<open>\<open>g\<close> gives the group of a row: the volume or snapshot whose chunk map it is in.\<close>

definition held :: "'k sharing \<Rightarrow> bytes set" where
  "held A = {s. \<exists>k ow. sh_rows A k = Some (s, ow)}"

definition owners_of :: "'k sharing \<Rightarrow> bytes \<Rightarrow> bytes set" where
  "owners_of A s = {ow. \<exists>k. sh_rows A k = Some (s, ow)}"

definition rows_apart :: "('k \<Rightarrow> 'g) \<Rightarrow> 'k sharing \<Rightarrow> bool" where
  "rows_apart g A \<longleftrightarrow>
     (\<forall>k k' s ow ow'. sh_rows A k = Some (s, ow) \<and> sh_rows A k' = Some (s, ow') \<and> k \<noteq> k' \<longrightarrow>
        ow \<noteq> ow' \<and> g k \<noteq> g k')"

definition registry_exact :: "'k sharing \<Rightarrow> bool" where
  "registry_exact A \<longleftrightarrow>
     (\<forall>k s ow. sh_rows A k = Some (s, ow) \<longrightarrow>
        (case sh_reg A s of
           None \<Rightarrow> \<forall>k' ow'. sh_rows A k' = Some (s, ow') \<longrightarrow> k' = k
         | Some R \<Rightarrow> distinct R \<and> set R = owners_of A s))"

definition sharing_inv :: "('k \<Rightarrow> 'g) \<Rightarrow> 'k sharing \<Rightarrow> bool" where
  "sharing_inv g A \<longleftrightarrow> rows_apart g A \<and> registry_exact A"

section \<open>The three moves\<close>

definition reg_release ::
  "(bytes \<Rightarrow> bytes list option) \<Rightarrow> bytes \<Rightarrow> bytes \<Rightarrow> bool \<times> (bytes \<Rightarrow> bytes list option)" where
  "reg_release reg s ow =
     (case reg s of
        None \<Rightarrow> (True, reg)
      | Some R \<Rightarrow>
          if ow \<in> set R then
            (if filter (\<lambda>x. x \<noteq> ow) R = [] then (True, reg(s := None))
             else (False, reg(s := Some (filter (\<lambda>x. x \<noteq> ow) R))))
          else (False, reg))"

definition reg_share ::
  "(bytes \<Rightarrow> bytes list option) \<Rightarrow> bytes \<Rightarrow> bytes \<Rightarrow> bytes \<Rightarrow> (bytes \<Rightarrow> bytes list option) option" where
  "reg_share reg s ow sharer =
     (let add = (\<lambda>R. if sharer \<in> set R then R else R @ [sharer]) in
      case reg s of
        None \<Rightarrow> Some (reg(s := Some (add [ow])))
      | Some R \<Rightarrow> if ow \<in> set R then Some (reg(s := Some (add R))) else None)"

definition drop_row :: "'k \<Rightarrow> 'k sharing \<Rightarrow> bool \<times> 'k sharing" where
  "drop_row k A =
     (case sh_rows A k of
        None \<Rightarrow> (False, A)
      | Some (s, ow) \<Rightarrow>
          (let (f, reg) = reg_release (sh_reg A) s ow
           in (f, \<lparr>sh_rows = (sh_rows A)(k := None), sh_reg = reg\<rparr>)))"

definition write_new :: "'k \<Rightarrow> bytes \<Rightarrow> 'k sharing \<Rightarrow> 'k sharing" where
  "write_new k s A = A\<lparr>sh_rows := (sh_rows A)(k \<mapsto> (s, s))\<rparr>"

lemma rows_apartD:
  "rows_apart g A \<Longrightarrow> sh_rows A k = Some (s, ow) \<Longrightarrow> sh_rows A k' = Some (s, ow') \<Longrightarrow>
     ow = ow' \<or> g k = g k' \<Longrightarrow> k = k'"
  unfolding rows_apart_def by blast

text \<open>A move concerns one stripe: at the others rows and registry stay as they are.\<close>

lemma owners_of_same:
  "(\<And>k ow. sh_rows A' k = Some (s, ow) \<longleftrightarrow> sh_rows A k = Some (s, ow)) \<Longrightarrow> owners_of A' s = owners_of A s"
  by (simp add: owners_of_def)

lemma registry_exactI:
  assumes "registry_exact A"
    and same: "\<And>s' k ow. s' \<noteq> s \<Longrightarrow> sh_rows A' k = Some (s', ow) \<longleftrightarrow> sh_rows A k = Some (s', ow)"
    and reg: "\<And>s'. s' \<noteq> s \<Longrightarrow> sh_reg A' s' = sh_reg A s'"
    and here: "\<And>k ow. sh_rows A' k = Some (s, ow) \<Longrightarrow>
      (case sh_reg A' s of
         None \<Rightarrow> \<forall>k' ow'. sh_rows A' k' = Some (s, ow') \<longrightarrow> k' = k
       | Some R \<Rightarrow> distinct R \<and> set R = owners_of A' s)"
  shows "registry_exact A'"
  unfolding registry_exact_def
proof (intro allI impI)
  fix k s1 ow
  assume row: "sh_rows A' k = Some (s1, ow)"
  show "case sh_reg A' s1 of
      None \<Rightarrow> \<forall>k' ow'. sh_rows A' k' = Some (s1, ow') \<longrightarrow> k' = k
    | Some R \<Rightarrow> distinct R \<and> set R = owners_of A' s1"
  proof (cases "s1 = s")
    case True
    show ?thesis using here [of k ow] row unfolding True by blast
  next
    case False
    with row same have "sh_rows A k = Some (s1, ow)" by simp
    with assms(1) have "case sh_reg A s1 of
        None \<Rightarrow> \<forall>k' ow'. sh_rows A k' = Some (s1, ow') \<longrightarrow> k' = k
      | Some R \<Rightarrow> distinct R \<and> set R = owners_of A s1"
      unfolding registry_exact_def by blast
    then show ?thesis
      by (cases "sh_reg A s1") (simp_all add: same [OF False] reg [OF False] owners_of_same [OF same [OF False]])
  qed
qed

lemma drop_row_inv:
  assumes inv: "sharing_inv g A" and row: "sh_rows A k = Some (s, ow)" and d: "drop_row k A = (f, A')"
  shows "sharing_inv g A'" and "held A' = (if f then held A - {s} else held A)" and "f \<longleftrightarrow> s \<notin> held A'"
proof -
  have apart: "rows_apart g A" and exact: "registry_exact A" using inv by (auto simp: sharing_inv_def)
  have rows': "sh_rows A' = (sh_rows A)(k := None)"
    using d row by (auto simp: drop_row_def split: prod.splits)
  have same: "sh_rows A' k1 = Some (s', o1) \<longleftrightarrow> sh_rows A k1 = Some (s', o1)" if "s' \<noteq> s" for s' k1 o1
    using that row by (auto simp: rows')
  have reg: "sh_reg A' s' = sh_reg A s'" if "s' \<noteq> s" for s'
    using that d row by (auto simp: drop_row_def reg_release_def split: option.splits if_splits)
  have owners': "x \<in> owners_of A' s \<longleftrightarrow> x \<in> owners_of A s - {ow}" for x
    using rows_apartD [OF apart row] row unfolding owners_of_def rows'
    by (cases "x = ow") (auto simp: fun_upd_def, metis option.inject prod.inject)
  have held': "s \<notin> held A' \<longleftrightarrow> owners_of A' s = {}" by (auto simp: held_def owners_of_def)
  have here: "(f \<longleftrightarrow> s \<notin> held A') \<and>
      (s \<in> held A' \<longrightarrow> (\<exists>R. sh_reg A' s = Some R \<and> distinct R \<and> set R = owners_of A' s))"
  proof (cases "sh_reg A s")
    case None
    then have f: "f" using d row by (simp add: drop_row_def reg_release_def)
    have "k' = k" if "sh_rows A k' = Some (s, ow')" for k' ow'
      using exact row None that unfolding registry_exact_def by fastforce
    then have "s \<notin> held A'" by (auto simp: held_def rows' split: if_splits)
    with f show ?thesis by simp
  next
    case (Some R)
    then have R: "distinct R" "set R = owners_of A s"
      using exact row unfolding registry_exact_def by fastforce+
    have "ow \<in> set R" using R(2) row by (auto simp: owners_of_def)
    then have f: "f \<longleftrightarrow> filter (\<lambda>x. x \<noteq> ow) R = []"
      and regs: "\<not> f \<Longrightarrow> sh_reg A' s = Some (filter (\<lambda>x. x \<noteq> ow) R)"
      using d row Some by (auto simp: drop_row_def reg_release_def split: if_splits)
    have rest: "set (filter (\<lambda>x. x \<noteq> ow) R) = owners_of A' s" using R(2) owners' by auto
    then have "f \<longleftrightarrow> s \<notin> held A'" using f held' by (metis set_empty)
    with regs rest R(1) show ?thesis by (auto simp: distinct_filter)
  qed
  have "registry_exact A'"
  proof (rule registry_exactI [OF exact same reg])
    fix k1 o1
    assume "sh_rows A' k1 = Some (s, o1)"
    then have "s \<in> held A'" unfolding held_def by blast
    with here show "case sh_reg A' s of
        None \<Rightarrow> \<forall>k' ow'. sh_rows A' k' = Some (s, ow') \<longrightarrow> k' = k1
      | Some R \<Rightarrow> distinct R \<and> set R = owners_of A' s" by auto
  qed
  moreover have "rows_apart g A'" using apart by (auto simp: rows_apart_def rows')
  ultimately show "sharing_inv g A'" by (simp add: sharing_inv_def)
  show f: "f \<longleftrightarrow> s \<notin> held A'" using here by blast
  have other: "s' \<in> held A' \<longleftrightarrow> s' \<in> held A" if "s' \<noteq> s" for s'
    using same [OF that] by (simp add: held_def)
  have "s \<in> held A" using row unfolding held_def by blast
  then have "x \<in> held A' \<longleftrightarrow> x \<in> (if f then held A - {s} else held A)" for x
    using f other [of x] by (cases "x = s") auto
  then show "held A' = (if f then held A - {s} else held A)" by blast
qed

lemma write_new_inv:
  assumes "sharing_inv g A" and none: "sh_rows A k = None" and "s \<notin> held A" and reg: "sh_reg A s = None"
  shows "sharing_inv g (write_new k s A)" and "held (write_new k s A) = insert s (held A)"
proof -
  let ?A' = "write_new k s A"
  have apart: "rows_apart g A" and exact: "registry_exact A" using assms(1) by (auto simp: sharing_inv_def)
  have fresh: "sh_rows A k' \<noteq> Some (s, ow)" for k' ow using assms(3) unfolding held_def by blast
  have rows': "sh_rows ?A' = (sh_rows A)(k \<mapsto> (s, s))" by (simp add: write_new_def)
  have same: "sh_rows ?A' k1 = Some (s', o1) \<longleftrightarrow> sh_rows A k1 = Some (s', o1)" if "s' \<noteq> s" for s' k1 o1
    using that none by (auto simp: rows')
  have only: "k1 = k" if "sh_rows ?A' k1 = Some (s, o1)" for k1 o1
    using that fresh by (auto simp: rows' split: if_splits)
  have "registry_exact ?A'"
  proof (rule registry_exactI [OF exact same])
    fix k1 o1
    assume "sh_rows ?A' k1 = Some (s, o1)"
    then have "\<forall>k' ow'. sh_rows ?A' k' = Some (s, ow') \<longrightarrow> k' = k1" using only by blast
    moreover have "sh_reg ?A' s = None" using reg by (simp add: write_new_def)
    ultimately show "case sh_reg ?A' s of
        None \<Rightarrow> \<forall>k' ow'. sh_rows ?A' k' = Some (s, ow') \<longrightarrow> k' = k1
      | Some R \<Rightarrow> distinct R \<and> set R = owners_of ?A' s"
      by simp
  qed (simp_all add: write_new_def)
  moreover have "rows_apart g ?A'"
    unfolding rows_apart_def
  proof (intro allI impI)
    fix k1 k2 s1 o1 o2
    assume r: "sh_rows ?A' k1 = Some (s1, o1) \<and> sh_rows ?A' k2 = Some (s1, o2) \<and> k1 \<noteq> k2"
    then have "s1 \<noteq> s" using only by blast
    with r same have "sh_rows A k1 = Some (s1, o1) \<and> sh_rows A k2 = Some (s1, o2) \<and> k1 \<noteq> k2" by simp
    with apart show "o1 \<noteq> o2 \<and> g k1 \<noteq> g k2" unfolding rows_apart_def by blast
  qed
  ultimately show "sharing_inv g ?A'" by (simp add: sharing_inv_def)
  have other: "s' \<in> held ?A' \<longleftrightarrow> s' \<in> held A" if "s' \<noteq> s" for s'
    using same [OF that] by (simp add: held_def)
  have "sh_rows ?A' k = Some (s, s)" by (simp add: rows')
  then have "s \<in> held ?A'" unfolding held_def by blast
  then have "x \<in> held ?A' \<longleftrightarrow> x \<in> insert s (held A)" for x
    using other [of x] by (cases "x = s") auto
  then show "held ?A' = insert s (held A)" by blast
qed

text \<open>Another row \<open>k'\<close> holds the stripe of row \<open>k\<close> too, as \<open>sharer\<close>.\<close>

definition share_row :: "'k \<Rightarrow> 'k \<Rightarrow> bytes \<Rightarrow> 'k sharing \<Rightarrow> 'k sharing option" where
  "share_row k k' sharer A =
     (case sh_rows A k of
        None \<Rightarrow> None
      | Some (s, ow) \<Rightarrow>
          map_option (\<lambda>reg. \<lparr>sh_rows = (sh_rows A)(k' \<mapsto> (s, sharer)), sh_reg = reg\<rparr>)
            (reg_share (sh_reg A) s ow sharer))"

lemma share_row_inv:
  assumes inv: "sharing_inv g A" and row: "sh_rows A k = Some (s, ow)" and none: "sh_rows A k' = None"
    and new: "\<And>k1 o1. sh_rows A k1 = Some (s, o1) \<Longrightarrow> o1 \<noteq> sharer \<and> g k1 \<noteq> g k'"
  obtains A' where "share_row k k' sharer A = Some A'" and "sharing_inv g A'" and "held A' = held A"
    and "sh_rows A' = (sh_rows A)(k' \<mapsto> (s, sharer))"
proof -
  have apart: "rows_apart g A" and exact: "registry_exact A" using inv by (auto simp: sharing_inv_def)
  define R where "R = (case sh_reg A s of None \<Rightarrow> [ow] | Some R \<Rightarrow> R)"
  have R: "distinct R \<and> set R = owners_of A s"
  proof (cases "sh_reg A s")
    case None
    then have "k1 = k" if "sh_rows A k1 = Some (s, o1)" for k1 o1
      using exact row that unfolding registry_exact_def by fastforce
    then have "x \<in> owners_of A s \<longleftrightarrow> x = ow" for x
      using row unfolding owners_of_def by fastforce
    with None show ?thesis by (simp add: R_def set_eq_iff)
  next
    case (Some R')
    then show ?thesis using exact row unfolding registry_exact_def by (fastforce simp: R_def)
  qed
  have "ow \<in> owners_of A s" using row unfolding owners_of_def by blast
  moreover have "sharer \<notin> owners_of A s" using new unfolding owners_of_def by blast
  ultimately have mem: "ow \<in> set R" "sharer \<notin> set R" using R by simp_all
  then have "reg_share (sh_reg A) s ow sharer = Some ((sh_reg A)(s := Some (R @ [sharer])))"
    by (cases "sh_reg A s") (simp_all add: reg_share_def R_def)
  with row have sr: "share_row k k' sharer A =
      Some \<lparr>sh_rows = (sh_rows A)(k' \<mapsto> (s, sharer)), sh_reg = (sh_reg A)(s := Some (R @ [sharer]))\<rparr>" (is "_ = Some ?A'")
    by (simp add: share_row_def)
  have same: "sh_rows ?A' k1 = Some (s', o1) \<longleftrightarrow> sh_rows A k1 = Some (s', o1)" if "s' \<noteq> s" for s' k1 o1
    using that none by auto
  have owners: "owners_of ?A' s = insert sharer (owners_of A s)"
  proof (intro set_eqI iffI)
    fix x
    assume "x \<in> owners_of ?A' s"
    then obtain k1 where "sh_rows ?A' k1 = Some (s, x)" unfolding owners_of_def by blast
    then show "x \<in> insert sharer (owners_of A s)"
      by (cases "k1 = k'") (auto simp: owners_of_def)
  next
    fix x
    assume "x \<in> insert sharer (owners_of A s)"
    then consider "x = sharer" | k1 where "sh_rows A k1 = Some (s, x)" unfolding owners_of_def by blast
    then show "x \<in> owners_of ?A' s"
    proof cases
      case 1
      then have "sh_rows ?A' k' = Some (s, x)" by simp
      then show ?thesis unfolding owners_of_def by blast
    next
      case (2 k1)
      then have "sh_rows ?A' k1 = Some (s, x)" using none by auto
      then show ?thesis unfolding owners_of_def by blast
    qed
  qed
  have reg': "sh_reg ?A' s = Some (R @ [sharer])" by simp
  have dist: "distinct (R @ [sharer])" using R mem(2) by simp
  have set': "set (R @ [sharer]) = owners_of ?A' s" unfolding owners using R by auto
  have "registry_exact ?A'"
  proof (rule registry_exactI [OF exact same])
    show "case sh_reg ?A' s of
        None \<Rightarrow> \<forall>k'a ow'. sh_rows ?A' k'a = Some (s, ow') \<longrightarrow> k'a = k1
      | Some R \<Rightarrow> distinct R \<and> set R = owners_of ?A' s" for k1
      unfolding reg' option.case by (rule conjI [OF dist set'])
  qed simp_all
  moreover have "rows_apart g ?A'"
    unfolding rows_apart_def
  proof (intro allI impI)
    fix k1 k2 s1 o1 o2
    assume r: "sh_rows ?A' k1 = Some (s1, o1) \<and> sh_rows ?A' k2 = Some (s1, o2) \<and> k1 \<noteq> k2"
    consider "k1 = k'" | "k1 \<noteq> k'" "k2 = k'" | "k1 \<noteq> k'" "k2 \<noteq> k'" by blast
    then show "o1 \<noteq> o2 \<and> g k1 \<noteq> g k2"
    proof cases
      case 1
      with r have "o1 = sharer" "sh_rows A k2 = Some (s, o2)" by auto
      with new [of k2 o2] 1 show ?thesis by metis
    next
      case 2
      with r have "o2 = sharer" "sh_rows A k1 = Some (s, o1)" by auto
      with new [of k1 o1] 2 show ?thesis by metis
    next
      case 3
      with r have "sh_rows A k1 = Some (s1, o1) \<and> sh_rows A k2 = Some (s1, o2) \<and> k1 \<noteq> k2" by simp
      with apart show ?thesis unfolding rows_apart_def by blast
    qed
  qed
  ultimately have "sharing_inv g ?A'" by (simp add: sharing_inv_def)
  moreover have "s' \<in> held ?A' \<longleftrightarrow> s' \<in> held A" for s'
  proof (cases "s' = s")
    case True
    have "sh_rows ?A' k' = Some (s, sharer)" by simp
    then have "s \<in> held ?A'" "s \<in> held A" using row unfolding held_def by blast+
    with True show ?thesis by simp
  next
    case False
    then show ?thesis using same [OF False] by (simp add: held_def)
  qed
  then have "held ?A' = held A" by blast
  ultimately show ?thesis by (intro that [OF sr]) simp_all
qed

end
