(* ===== verification/Meta_Store.thy ===== *)
theory Meta_Store
  imports Btree_Map
begin

text \<open>
  The compare-and-swap command of the replicated metadata store
  (\<open>crates/meta-store/src/raft.rs\<close>, \<open>raft_storage.rs\<close>): which commands are refused whatever
  the state, and how a committed one is applied. The tables of the database are one map from a
  table's name and a key to the stored bytes; what the bytes are is left open (\<open>'b\<close>), since
  applying a command only compares and stores them.
\<close>

type_synonym 'b tables = "((string \<times> string) \<times> 'b) list"

datatype cas_table =
    Buckets | BucketPolicies | IcebergNamespaces | IcebergTables | DeltaShares | DeltaTables
  | DeltaRecipients | Config | Pools | Tenants | IamPolicies | Users | Groups | AccessKeys
  | IcebergWarehouses | PolicyAttachments | DataFilters | MultipartUploads | ObjectListings
  | PlacementGroups | UnityCatalogs | UnitySchemas | UnityTables | UnityFunctions | UnityVolumes
  | UnityModels | UnityModelVersions | Named string

fun cas_table_name :: "cas_table \<Rightarrow> string" where
  "cas_table_name Buckets = ''buckets''"
| "cas_table_name BucketPolicies = ''bucket_policies''"
| "cas_table_name IcebergNamespaces = ''iceberg_namespaces''"
| "cas_table_name IcebergTables = ''iceberg_tables''"
| "cas_table_name DeltaShares = ''delta_shares''"
| "cas_table_name DeltaTables = ''delta_tables''"
| "cas_table_name DeltaRecipients = ''delta_recipients''"
| "cas_table_name Config = ''config''"
| "cas_table_name Pools = ''pools''"
| "cas_table_name Tenants = ''tenants''"
| "cas_table_name IamPolicies = ''iam_policies''"
| "cas_table_name Users = ''users''"
| "cas_table_name Groups = ''groups''"
| "cas_table_name AccessKeys = ''access_keys''"
| "cas_table_name IcebergWarehouses = ''iceberg_warehouses''"
| "cas_table_name PolicyAttachments = ''policy_attachments''"
| "cas_table_name DataFilters = ''data_filters''"
| "cas_table_name MultipartUploads = ''multipart_uploads''"
| "cas_table_name ObjectListings = ''object_listings''"
| "cas_table_name PlacementGroups = ''placement_groups''"
| "cas_table_name UnityCatalogs = ''unity_catalogs''"
| "cas_table_name UnitySchemas = ''unity_schemas''"
| "cas_table_name UnityTables = ''unity_tables''"
| "cas_table_name UnityFunctions = ''unity_functions''"
| "cas_table_name UnityVolumes = ''unity_volumes''"
| "cas_table_name UnityModels = ''unity_models''"
| "cas_table_name UnityModelVersions = ''unity_model_versions''"
| "cas_table_name (Named n) = n"

record 'b cas_op =
  co_table :: cas_table
  co_key :: string
  co_expected :: "'b option"
  co_new_value :: "'b option"

definition MAX_OPS :: nat where
  "MAX_OPS = 256"

definition RAFT_TABLES :: "string list" where
  "RAFT_TABLES = [''raft_logs'', ''raft_vote'', ''raft_state'']"

datatype refusal = Too_many_ops nat | No_table_name | Raft_table string | Mistyped_table string

fun table_refusal :: "cas_table \<Rightarrow> refusal option" where
  "table_refusal (Named n) =
     (if n = '''' then Some No_table_name
      else if n \<in> set RAFT_TABLES then Some (Raft_table n)
      else None)"
| "table_refusal _ = None"

fun find_map :: "('a \<Rightarrow> 'c option) \<Rightarrow> 'a list \<Rightarrow> 'c option" where
  "find_map f [] = None"
| "find_map f (x # xs) = (case f x of Some y \<Rightarrow> Some y | None \<Rightarrow> find_map f xs)"

text \<open>\<open>MetaCommand::refusal\<close> of a \<open>MultiCas\<close>.\<close>

definition multi_cas_refusal :: "'b cas_op list \<Rightarrow> refusal option" where
  "multi_cas_refusal ops =
     (if MAX_OPS < length ops then Some (Too_many_ops (length ops))
      else find_map (\<lambda>op. table_refusal (co_table op)) ops)"

datatype meta_response = MultiCasOk | MultiCasConflict "nat list" | Rejected refusal

definition co_row :: "'b cas_op \<Rightarrow> string \<times> string" where
  "co_row op = (cas_table_name (co_table op), co_key op)"

text \<open>The first pass: the positions whose row is not what was expected.\<close>

fun mismatches :: "nat \<Rightarrow> 'b cas_op list \<Rightarrow> 'b tables \<Rightarrow> nat list" where
  "mismatches i [] t = []"
| "mismatches i (op # ops) t =
     (if bt_get (co_row op) t = co_expected op then mismatches (Suc i) ops t
      else i # mismatches (Suc i) ops t)"

text \<open>The second pass: every new value written, every other row deleted, in order.\<close>

definition write_row :: "string \<times> string \<Rightarrow> 'b option \<Rightarrow> 'b tables \<Rightarrow> 'b tables" where
  "write_row k v t = (case v of Some b \<Rightarrow> bt_put k b t | None \<Rightarrow> bt_del k t)"

fun write_ops :: "'b cas_op list \<Rightarrow> 'b tables \<Rightarrow> 'b tables" where
  "write_ops [] t = t"
| "write_ops (op # ops) t = write_ops ops (write_row (co_row op) (co_new_value op) t)"

text \<open>
  \<open>mistyped n\<close>: the database has a table \<open>n\<close> of other types than strings to bytes. An error of
  the storage itself stops the node before anything is answered, and is left out.
\<close>

definition apply_multi_cas ::
  "(string \<Rightarrow> bool) \<Rightarrow> 'b cas_op list \<Rightarrow> 'b tables \<Rightarrow> meta_response \<times> 'b tables" where
  "apply_multi_cas mistyped ops t =
     (case find (\<lambda>op. mistyped (cas_table_name (co_table op))) ops of
        Some op \<Rightarrow> (Rejected (Mistyped_table (cas_table_name (co_table op))), t)
      | None \<Rightarrow>
          if mismatches 0 ops t \<noteq> [] then (MultiCasConflict (mismatches 0 ops t), t)
          else (MultiCasOk, write_ops ops t))"

text \<open>\<open>apply_command\<close> on a \<open>MultiCas\<close>, and on a \<open>Batch\<close> of them (group commit).\<close>

definition apply_command ::
  "(string \<Rightarrow> bool) \<Rightarrow> 'b cas_op list \<Rightarrow> 'b tables \<Rightarrow> meta_response \<times> 'b tables" where
  "apply_command mistyped ops t =
     (case multi_cas_refusal ops of
        Some r \<Rightarrow> (Rejected r, t)
      | None \<Rightarrow> apply_multi_cas mistyped ops t)"

fun apply_batch ::
  "(string \<Rightarrow> bool) \<Rightarrow> 'b cas_op list list \<Rightarrow> 'b tables \<Rightarrow> meta_response list \<times> 'b tables" where
  "apply_batch mistyped [] t = ([], t)"
| "apply_batch mistyped (c # cs) t =
     (let (r, t') = apply_command mistyped c t; (rs, t'') = apply_batch mistyped cs t' in (r # rs, t''))"

section \<open>What a command does\<close>

lemma bt_get_write_row [simp]:
  "bt_get k' (write_row k v t) = (if k' = k then v else bt_get k' t)"
  by (simp add: write_row_def split: option.split)

lemma bt_sorted_write_row [simp]: "bt_sorted t \<Longrightarrow> bt_sorted (write_row k v t)"
  by (simp add: write_row_def split: option.split)

lemma bt_sorted_write_ops: "bt_sorted t \<Longrightarrow> bt_sorted (write_ops ops t)"
  by (induction ops arbitrary: t) auto

lemma set_mismatches:
  "set (mismatches i ops t) =
     {i + j | j. j < length ops \<and> bt_get (co_row (ops ! j)) t \<noteq> co_expected (ops ! j)}"
proof (induction i ops t rule: mismatches.induct)
  case (2 i op ops t)
  have "{i + j | j. j < length (op # ops) \<and> bt_get (co_row ((op # ops) ! j)) t \<noteq> co_expected ((op # ops) ! j)} =
      (if bt_get (co_row op) t = co_expected op then {} else {i}) \<union>
      {Suc i + j | j. j < length ops \<and> bt_get (co_row (ops ! j)) t \<noteq> co_expected (ops ! j)}"
    (is "?L = ?R")
  proof (intro set_eqI iffI)
    fix x
    assume "x \<in> ?L"
    then obtain j where j: "x = i + j" "j < length (op # ops)"
      "bt_get (co_row ((op # ops) ! j)) t \<noteq> co_expected ((op # ops) ! j)" by blast
    then show "x \<in> ?R" by (cases j) auto
  next
    fix x
    assume "x \<in> ?R"
    then consider "x = i" "bt_get (co_row op) t \<noteq> co_expected op"
      | j where "x = Suc i + j" "j < length ops" "bt_get (co_row (ops ! j)) t \<noteq> co_expected (ops ! j)"
      by (auto split: if_splits)
    then show "x \<in> ?L"
    proof cases
      case 1
      then show ?thesis by force
    next
      case (2 j)
      then show ?thesis by (intro CollectI exI [of _ "Suc j"]) simp
    qed
  qed
  with 2 show ?case by auto
qed simp

lemma mismatches_Nil_iff:
  "mismatches i ops t = [] \<longleftrightarrow> list_all (\<lambda>op. bt_get (co_row op) t = co_expected op) ops"
  by (induction i ops t rule: mismatches.induct) auto

text \<open>Of the operations on one row the last one stands.\<close>

definition row_after :: "'b cas_op list \<Rightarrow> string \<times> string \<Rightarrow> 'b option \<Rightarrow> 'b option" where
  "row_after ops k old =
     (case find (\<lambda>op. co_row op = k) (rev ops) of Some op \<Rightarrow> co_new_value op | None \<Rightarrow> old)"

lemma find_append':
  "find P (xs @ ys) = (case find P xs of Some x \<Rightarrow> Some x | None \<Rightarrow> find P ys)"
  by (induction xs) auto

lemma bt_get_write_ops: "bt_get k (write_ops ops t) = row_after ops k (bt_get k t)"
  by (induction ops arbitrary: t) (auto simp: row_after_def find_append' split: option.split)

text \<open>
  C25. A compare-and-swap is all or nothing. If it is answered Ok then every row held what was
  expected of it, and afterwards every row has the value of the last operation on it, or is as it
  was; if it is answered a conflict, the positions reported are exactly those whose row held
  something else, there is one, and no row changes; and a refused command changes none either.
\<close>

theorem multi_cas_all_or_nothing:
  "case apply_command mistyped ops t of
     (MultiCasOk, t') \<Rightarrow>
       length ops \<le> MAX_OPS \<and> list_all (\<lambda>op. bt_get (co_row op) t = co_expected op) ops \<and>
       (\<forall>k. bt_get k t' = row_after ops k (bt_get k t))
   | (MultiCasConflict is, t') \<Rightarrow>
       t' = t \<and> is \<noteq> [] \<and>
       set is = {j. j < length ops \<and> bt_get (co_row (ops ! j)) t \<noteq> co_expected (ops ! j)}
   | (Rejected r, t') \<Rightarrow> t' = t"
proof -
  have *: "set (mismatches 0 ops t) = {j. j < length ops \<and> bt_get (co_row (ops ! j)) t \<noteq> co_expected (ops ! j)}"
    by (simp add: set_mismatches)
  show ?thesis
  proof (cases "multi_cas_refusal ops")
    case (Some r)
    then show ?thesis by (simp add: apply_command_def)
  next
    case None
    then have len: "length ops \<le> MAX_OPS" by (auto simp: multi_cas_refusal_def split: if_splits)
    show ?thesis
    proof (cases "find (\<lambda>op. mistyped (cas_table_name (co_table op))) ops")
      case (Some op)
      with None show ?thesis by (simp add: apply_command_def apply_multi_cas_def)
    next
      case found: None
      show ?thesis
      proof (cases "mismatches 0 ops t = []")
        case True
        then have "apply_command mistyped ops t = (MultiCasOk, write_ops ops t)"
          using None found by (simp add: apply_command_def apply_multi_cas_def)
        with True len show ?thesis by (simp add: bt_get_write_ops mismatches_Nil_iff)
      next
        case False
        then have "apply_command mistyped ops t = (MultiCasConflict (mismatches 0 ops t), t)"
          using None found by (simp add: apply_command_def apply_multi_cas_def)
        with False * show ?thesis by simp
      qed
    qed
  qed
qed

lemma apply_command_ok:
  assumes "multi_cas_refusal ops = None" and "\<And>n. \<not> mistyped n"
    and "list_all (\<lambda>op. bt_get (co_row op) t = co_expected op) ops"
  shows "apply_command mistyped ops t = (MultiCasOk, write_ops ops t)"
proof -
  have "find (\<lambda>op. mistyped (cas_table_name (co_table op))) ops = None"
    using assms(2) by (simp add: find_None_iff)
  with assms(1,3) show ?thesis
    by (simp add: apply_command_def apply_multi_cas_def mismatches_Nil_iff)
qed

end
