(* ===== verification/Block_Meta.thy ===== *)
theory Block_Meta
  imports Chunk_Map Meta_Store
begin

text \<open>
  Block storage metadata as the meta service keeps it (\<open>crates/meta/src/service/block_meta.rs\<close>):
  volumes, each volume's chunk map, snapshots and clones, and the shared-stripe registry that
  says who holds a stripe. Every handler reads this node's caches, builds row operations, and
  commits them in one compare-and-swap of the replicated store (\<open>Meta_Store\<close>).

  The protobuf encoding and \<open>hex::encode\<close> are other packages' code: a \<open>codec\<close> is an argument of
  every definition that uses them. New ids and the time are arguments too. How each Raft write
  ends is a script in the state (\<open>ms_raft\<close>).
\<close>

section \<open>Messages\<close>

datatype meta_volume_state = VS_Unknown | VS_Creating | VS_Available | VS_Attached | VS_Error | VS_Deleting

datatype snapshot_state = SS_Unknown | SS_Creating | SS_Available | SS_Deleting | SS_Error

record volume_qos =
  vq_max_iops :: nat
  vq_min_iops :: nat
  vq_max_bandwidth_bps :: nat
  vq_burst_iops :: nat
  vq_burst_seconds :: nat
  vq_priority :: nat
  vq_target_latency_us :: nat

record meta_volume =
  mv_volume_id :: string
  mv_name :: string
  mv_size_bytes :: nat
  mv_used_bytes :: nat
  mv_pool :: string
  mv_state :: meta_volume_state
  mv_created_at :: nat
  mv_updated_at :: nat
  mv_parent_snapshot_id :: string
  mv_chunk_size_bytes :: nat
  mv_metadata :: "(string \<times> string) list"
  mv_qos :: "volume_qos option"
  mv_attached_read_only :: bool

record meta_snapshot =
  mp_snapshot_id :: string
  mp_volume_id :: string
  mp_name :: string
  mp_size_bytes :: nat
  mp_unique_bytes :: nat
  mp_state :: snapshot_state
  mp_created_at :: nat
  mp_metadata :: "(string \<times> string) list"

record shard_location =
  sl_position :: nat
  sl_node_id :: bytes
  sl_disk_id :: bytes
  sl_offset :: nat
  sl_shard_type :: nat
  sl_local_group :: nat
  sl_crc32c :: "nat option"

record stripe_meta =
  st_stripe_id :: nat
  st_ec_k :: nat
  st_ec_m :: nat
  st_shards :: "shard_location list"
  st_ec_type :: nat
  st_ec_local_parity :: nat
  st_ec_global_parity :: nat
  st_local_group_size :: nat
  st_data_size :: nat
  st_object_id :: bytes
  st_encryption_iv :: bytes
  st_slice_offset :: nat
  st_slice_length :: nat
  st_pack_id :: bytes
  st_shards_in_metadata :: bool

text \<open>A chunk's record: the stripe with its bytes, and the referrer it holds the stripe as.\<close>

record block_chunk_ref =
  bc_chunk_id :: nat
  bc_stripe :: "stripe_meta option"
  bc_owner :: bytes

text \<open>\<open>dec_name\<close> is \<open>String::from_utf8\<close> on a row of the name table.\<close>

record 'b codec =
  enc_volume :: "meta_volume \<Rightarrow> 'b"
  dec_volume :: "'b \<Rightarrow> meta_volume option"
  enc_snapshot :: "meta_snapshot \<Rightarrow> 'b"
  dec_snapshot :: "'b \<Rightarrow> meta_snapshot option"
  enc_chunk :: "block_chunk_ref \<Rightarrow> 'b"
  dec_chunk :: "'b \<Rightarrow> block_chunk_ref option"
  enc_refs :: "bytes list \<Rightarrow> 'b"
  dec_refs :: "'b \<Rightarrow> bytes list option"
  enc_name :: "string \<Rightarrow> 'b"
  dec_name :: "'b \<Rightarrow> string option"
  hex_encode :: "bytes \<Rightarrow> string"

text \<open>What the code relies on of them: a message decodes to what was encoded, and different
  bytes have different hexadecimal forms.\<close>

definition codec_ok :: "'b codec \<Rightarrow> bool" where
  "codec_ok cd \<longleftrightarrow>
     (\<forall>v. dec_volume cd (enc_volume cd v) = Some v) \<and>
     (\<forall>s. dec_snapshot cd (enc_snapshot cd s) = Some s) \<and>
     (\<forall>c. dec_chunk cd (enc_chunk cd c) = Some c) \<and>
     (\<forall>r. dec_refs cd (enc_refs cd r) = Some r) \<and>
     (\<forall>n. dec_name cd (enc_name cd n) = Some n) \<and>
     (\<forall>x y. hex_encode cd x = hex_encode cd y \<longrightarrow> x = y)"

section \<open>Tables and the service's state\<close>

definition VOLUMES :: string where "VOLUMES = ''block_volumes''"

definition NAMES :: string where "NAMES = ''block_volume_names''"

definition CHUNKS :: string where "CHUNKS = ''block_chunks''"

definition SNAPSHOTS :: string where "SNAPSHOTS = ''block_snapshots''"

definition SNAP_CHUNKS :: string where "SNAP_CHUNKS = ''block_snapshot_chunks''"

definition TABLES :: "string list" where
  "TABLES = [VOLUMES, NAMES, CHUNKS, SNAPSHOTS, SNAP_CHUNKS]"

definition STRIPE_REFS :: string where "STRIPE_REFS = ''stripe_refs''"

definition BATCH :: nat where "BATCH = 100"

definition META_CHUNK_SIZE :: nat where "META_CHUNK_SIZE = 4 * 1024 * 1024"

datatype meta_status =
    Not_found | Internal | Invalid_argument | Already_exists | Failed_precondition | Aborted
  | Raft_write_failed

text \<open>
  How a Raft write ends: the command is applied and answered; or the caller gets an error, and
  the command was lost, or was committed all the same (\<open>Raft_err True\<close>).
\<close>

datatype raft_result = Raft_ok | Raft_err bool

datatype meta_mode = Raft_mode | Store_mode | Memory_mode

record 'b meta_service =
  ms_block :: "'b tables"
  ms_refs :: "(string \<times> bytes list) list"
  ms_mode :: meta_mode
  ms_store :: "'b tables"
  ms_raft :: "raft_result list"

definition u64_max :: nat where
  "u64_max = 2 ^ 64 - 1"

definition format_016x :: "nat \<Rightarrow> string" where
  "format_016x n = replicate (16 - length (hex_lower n)) (CHR ''0'') @ hex_lower n"

definition block_chunk_key :: "string \<Rightarrow> nat \<Rightarrow> string" where
  "block_chunk_key i chunk = i @ [CHR 0x00] @ format_016x chunk"

definition block_get :: "string \<Rightarrow> string \<Rightarrow> 'b meta_service \<Rightarrow> 'b option" where
  "block_get t key m = bt_get (t, key) (ms_block m)"

text \<open>The rows of a table in key order, and \<open>chunks_of\<close>: those in a range of keys.\<close>

definition table_rows :: "string \<Rightarrow> 'b tables \<Rightarrow> (string \<times> 'b) list" where
  "table_rows t rows = map (\<lambda>(k, v). (snd k, v)) (filter (\<lambda>(k, v). fst k = t) rows)"

definition chunks_of :: "string \<Rightarrow> string \<Rightarrow> nat \<Rightarrow> nat \<Rightarrow> 'b tables \<Rightarrow> (string \<times> 'b) list" where
  "chunks_of t i start end' rows =
     (let lo = block_chunk_key i start;
          hi = (if end' = u64_max then i @ [CHR 0x01] else block_chunk_key i end')
      in filter (\<lambda>(k, v). lo \<le> k \<and> k < hi) (table_rows t rows))"

text \<open>\<open>BlockTables::set\<close> ignores a table that is not one of the block tables.\<close>

definition tables_set :: "string \<Rightarrow> string \<Rightarrow> 'b option \<Rightarrow> 'b tables \<Rightarrow> 'b tables" where
  "tables_set t key value rows = (if t \<in> set TABLES then write_row (t, key) value rows else rows)"

record 'b block_op =
  bo_table :: string
  bo_key :: string
  bo_new :: "'b option"

definition put_op :: "string \<Rightarrow> string \<Rightarrow> 'b \<Rightarrow> 'b block_op" where
  "put_op t key raw = \<lparr>bo_table = t, bo_key = key, bo_new = Some raw\<rparr>"

definition delete_op :: "string \<Rightarrow> string \<Rightarrow> 'b block_op" where
  "delete_op t key = \<lparr>bo_table = t, bo_key = key, bo_new = None\<rparr>"

section \<open>Registry changes within one write\<close>

text \<open>\<open>Refs\<close>: changes over what is committed; \<open>None\<close> removes the entry.\<close>

type_synonym refs_changed = "(string \<times> bytes list option) list"

definition refs_get :: "string \<Rightarrow> refs_changed \<Rightarrow> 'b meta_service \<Rightarrow> bytes list option" where
  "refs_get key changed m = (case bt_get key changed of Some v \<Rightarrow> v | None \<Rightarrow> bt_get key (ms_refs m))"

definition refs_share ::
  "'b codec \<Rightarrow> 'b meta_service \<Rightarrow> bytes \<Rightarrow> bytes \<Rightarrow> bytes \<Rightarrow> refs_changed \<Rightarrow> meta_status + refs_changed" where
  "refs_share cd m stripe_id owner sharer changed =
     (let key = hex_encode cd stripe_id in
      and_then
        (case refs_get key changed m of
           Some r \<Rightarrow> if owner \<notin> set r then Inl Internal else Inr r
         | None \<Rightarrow> Inr [owner])
        (\<lambda>refs. Inr (bt_put key (Some (if sharer \<in> set refs then refs else refs @ [sharer])) changed)))"

definition refs_release ::
  "'b codec \<Rightarrow> 'b meta_service \<Rightarrow> bytes \<Rightarrow> bytes \<Rightarrow> refs_changed \<Rightarrow> bool \<times> refs_changed" where
  "refs_release cd m stripe_id referrer changed =
     (let key = hex_encode cd stripe_id in
      case refs_get key changed m of
        None \<Rightarrow> (True, changed)
      | Some r \<Rightarrow>
          if referrer \<in> set r then
            (let rest = filter (\<lambda>x. x \<noteq> referrer) r in
             if rest = [] then (True, bt_put key None changed)
             else (False, bt_put key (Some rest) changed))
          else (False, changed))"

definition refs_into_ops :: "'b codec \<Rightarrow> refs_changed \<Rightarrow> 'b block_op list" where
  "refs_into_ops cd changed =
     map (\<lambda>(key, v). \<lparr>bo_table = STRIPE_REFS, bo_key = key, bo_new = map_option (enc_refs cd) v\<rparr>) changed"

section \<open>Committing\<close>

definition apply_block_event :: "string \<Rightarrow> string \<Rightarrow> 'b option \<Rightarrow> 'b meta_service \<Rightarrow> 'b meta_service" where
  "apply_block_event t key v m = m\<lparr>ms_block := tables_set t key v (ms_block m)\<rparr>"

definition apply_stripe_refs_event ::
  "'b codec \<Rightarrow> string \<Rightarrow> 'b option \<Rightarrow> 'b meta_service \<Rightarrow> 'b meta_service" where
  "apply_stripe_refs_event cd key v m =
     (case v of
        Some raw \<Rightarrow>
          (case dec_refs cd raw of
             Some r \<Rightarrow> m\<lparr>ms_refs := bt_put key r (ms_refs m)\<rparr>
           | None \<Rightarrow> m)
      | None \<Rightarrow> m\<lparr>ms_refs := bt_del key (ms_refs m)\<rparr>)"

definition mirror_op :: "'b codec \<Rightarrow> 'b block_op \<Rightarrow> 'b meta_service \<Rightarrow> 'b meta_service" where
  "mirror_op cd op m =
     (if bo_table op = STRIPE_REFS then apply_stripe_refs_event cd (bo_key op) (bo_new op) m
      else apply_block_event (bo_table op) (bo_key op) (bo_new op) m)"

fun mirror_ops :: "'b codec \<Rightarrow> 'b block_op list \<Rightarrow> 'b meta_service \<Rightarrow> 'b meta_service" where
  "mirror_ops cd [] m = m"
| "mirror_ops cd (op # ops) m = mirror_ops cd ops (mirror_op cd op m)"

text \<open>What each operation expects of its row: what this node's cache says.\<close>

definition expected_of :: "'b codec \<Rightarrow> 'b block_op \<Rightarrow> 'b meta_service \<Rightarrow> 'b option" where
  "expected_of cd op m =
     (if bo_table op = STRIPE_REFS then map_option (enc_refs cd) (bt_get (bo_key op) (ms_refs m))
      else block_get (bo_table op) (bo_key op) m)"

definition cas_of :: "'b codec \<Rightarrow> 'b block_op \<Rightarrow> 'b meta_service \<Rightarrow> 'b cas_op" where
  "cas_of cd op m =
     \<lparr>co_table = Named (bo_table op), co_key = bo_key op, co_expected = expected_of cd op m,
      co_new_value = bo_new op\<rparr>"

text \<open>
  A Raft write of the command: applied to the replicated store, and, once applied, mirrored into
  this node's caches by the apply listener.
\<close>

definition client_write ::
  "'b codec \<Rightarrow> 'b block_op list \<Rightarrow> 'b meta_service \<Rightarrow> (meta_status + meta_response) \<times> 'b meta_service" where
  "client_write cd ops m =
     (let (answer, t) = apply_command (\<lambda>_. False) (map (\<lambda>op. cas_of cd op m) ops) (ms_store m);
          rest = m\<lparr>ms_raft := tl (ms_raft m)\<rparr>;
          applied = (if answer = MultiCasOk then mirror_ops cd ops (rest\<lparr>ms_store := t\<rparr>) else rest)
      in case ms_raft m of
           Raft_err committed # _ \<Rightarrow> (Inl Raft_write_failed, if committed then applied else rest)
         | _ \<Rightarrow> (Inr answer, applied))"

fun store_ops :: "'b block_op list \<Rightarrow> 'b tables \<Rightarrow> 'b tables" where
  "store_ops [] t = t"
| "store_ops (op # ops) t = store_ops ops (write_row (bo_table op, bo_key op) (bo_new op) t)"

definition block_commit ::
  "'b codec \<Rightarrow> 'b block_op list \<Rightarrow> 'b meta_service \<Rightarrow> (meta_status + bool) \<times> 'b meta_service" where
  "block_commit cd ops m =
     (if ops = [] then (Inr True, m)
      else case ms_mode m of
        Raft_mode \<Rightarrow>
          (case client_write cd ops m of
             (Inl e, m') \<Rightarrow> (Inl e, m')
           | (Inr MultiCasOk, m') \<Rightarrow> (Inr True, mirror_ops cd ops m')
           | (Inr (MultiCasConflict _), m') \<Rightarrow> (Inr False, m')
           | (Inr (Rejected _), m') \<Rightarrow> (Inl Internal, m'))
      | Store_mode \<Rightarrow> (Inr True, mirror_ops cd ops (m\<lparr>ms_store := store_ops ops (ms_store m)\<rparr>))
      | Memory_mode \<Rightarrow> (Inr True, mirror_ops cd ops m))"

text \<open>\<open>block_retry\<close>: build on the current state and commit, eight times at most.\<close>

fun block_retry_n ::
  "nat \<Rightarrow> 'b codec \<Rightarrow> ('b meta_service \<Rightarrow> meta_status + ('b block_op list \<times> 'a)) \<Rightarrow> 'b meta_service \<Rightarrow>
     (meta_status + 'a) \<times> 'b meta_service" where
  "block_retry_n 0 cd build m = (Inl Aborted, m)"
| "block_retry_n (Suc n) cd build m =
     (case build m of
        Inl e \<Rightarrow> (Inl e, m)
      | Inr (ops, out) \<Rightarrow>
          (case block_commit cd ops m of
             (Inl e, m') \<Rightarrow> (Inl e, m')
           | (Inr done, m') \<Rightarrow> if done then (Inr out, m') else block_retry_n n cd build m'))"

definition block_retry ::
  "'b codec \<Rightarrow> ('b meta_service \<Rightarrow> meta_status + ('b block_op list \<times> 'a)) \<Rightarrow> 'b meta_service \<Rightarrow>
     (meta_status + 'a) \<times> 'b meta_service" where
  "block_retry = block_retry_n 8"

text \<open>The question mark operator in a handler.\<close>

definition then_do ::
  "('e + 'a) \<times> 's \<Rightarrow> ('a \<Rightarrow> 's \<Rightarrow> ('e + 'c) \<times> 's) \<Rightarrow> ('e + 'c) \<times> 's" where
  "then_do r f = (case r of (Inl e, s) \<Rightarrow> (Inl e, s) | (Inr a, s) \<Rightarrow> f a s)"
section \<open>Volumes\<close>

definition meta_get_volume :: "'b codec \<Rightarrow> string \<Rightarrow> 'b meta_service \<Rightarrow> meta_status + meta_volume" where
  "meta_get_volume cd i m =
     (case block_get VOLUMES i m of
        None \<Rightarrow> Inl Not_found
      | Some raw \<Rightarrow> (case dec_volume cd raw of None \<Rightarrow> Inl Internal | Some v \<Rightarrow> Inr v))"

definition meta_get_snapshot :: "'b codec \<Rightarrow> string \<Rightarrow> 'b meta_service \<Rightarrow> meta_status + meta_snapshot" where
  "meta_get_snapshot cd i m =
     (case block_get SNAPSHOTS i m of
        None \<Rightarrow> Inl Not_found
      | Some raw \<Rightarrow> (case dec_snapshot cd raw of None \<Rightarrow> Inl Internal | Some s \<Rightarrow> Inr s))"

definition put_volume :: "'b codec \<Rightarrow> meta_volume \<Rightarrow> 'b block_op" where
  "put_volume cd v = put_op VOLUMES (mv_volume_id v) (enc_volume cd v)"

definition put_name :: "'b codec \<Rightarrow> meta_volume \<Rightarrow> 'b block_op" where
  "put_name cd v = put_op NAMES (mv_name v) (enc_name cd (mv_volume_id v))"

definition put_snapshot :: "'b codec \<Rightarrow> meta_snapshot \<Rightarrow> 'b block_op" where
  "put_snapshot cd s = put_op SNAPSHOTS (mp_snapshot_id s) (enc_snapshot cd s)"

definition create_volume_build ::
  "'b codec \<Rightarrow> meta_volume \<Rightarrow> 'b meta_service \<Rightarrow> meta_status + ('b block_op list \<times> meta_volume)" where
  "create_volume_build cd v m =
     (if block_get NAMES (mv_name v) m \<noteq> None then Inl Already_exists
      else Inr ([put_volume cd v, put_name cd v], v))"

text \<open>
  \<open>uuid\<close> is the id the handler draws, \<open>now\<close> the time it reads; each attempt draws and reads its
  own, and the one that commits is meant.
\<close>

definition block_create_volume_impl ::
  "'b codec \<Rightarrow> string \<Rightarrow> nat \<Rightarrow> string \<Rightarrow> nat \<Rightarrow> string \<Rightarrow> nat \<Rightarrow> (string \<times> string) list \<Rightarrow> 'b meta_service \<Rightarrow>
     (meta_status + meta_volume) \<times> 'b meta_service" where
  "block_create_volume_impl cd uuid now name size_bytes pool chunk_size_bytes metadata m =
     (if name = '''' \<or> size_bytes = 0 then (Inl Invalid_argument, m)
      else block_retry cd (create_volume_build cd
        \<lparr>mv_volume_id = uuid, mv_name = name, mv_size_bytes = size_bytes, mv_used_bytes = 0, mv_pool = pool,
         mv_state = VS_Available, mv_created_at = now, mv_updated_at = now, mv_parent_snapshot_id = '''',
         mv_chunk_size_bytes = (if chunk_size_bytes = 0 then META_CHUNK_SIZE else chunk_size_bytes),
         mv_metadata = metadata, mv_qos = None, mv_attached_read_only = False\<rparr>) m)"

definition block_get_volume_impl ::
  "'b codec \<Rightarrow> string \<Rightarrow> string \<Rightarrow> 'b meta_service \<Rightarrow> meta_status + meta_volume" where
  "block_get_volume_impl cd volume_id name m =
     (if volume_id = '''' then
        (case block_get NAMES name m of
           None \<Rightarrow> Inl Not_found
         | Some raw \<Rightarrow>
             (case dec_name cd raw of None \<Rightarrow> Inl Internal | Some i \<Rightarrow> meta_get_volume cd i m))
      else meta_get_volume cd volume_id m)"

definition block_list_volumes_impl :: "'b codec \<Rightarrow> 'b meta_service \<Rightarrow> meta_volume list" where
  "block_list_volumes_impl cd m =
     sort_key mv_name (List.map_filter (\<lambda>(k, raw). dec_volume cd raw) (table_rows VOLUMES (ms_block m)))"

definition update_volume_build ::
  "'b codec \<Rightarrow> nat \<Rightarrow> string \<Rightarrow> nat \<Rightarrow> meta_volume_state \<Rightarrow> bool \<Rightarrow> 'b meta_service \<Rightarrow>
     meta_status + ('b block_op list \<times> meta_volume)" where
  "update_volume_build cd now volume_id size_bytes state read_only m =
     and_then (meta_get_volume cd volume_id m) (\<lambda>v.
       if size_bytes \<noteq> 0 \<and> size_bytes < mv_size_bytes v then Inl Invalid_argument
       else
         (let v1 = (if size_bytes \<noteq> 0 then v\<lparr>mv_size_bytes := size_bytes\<rparr> else v);
              v2 = (if state \<noteq> VS_Unknown
                    then v1\<lparr>mv_state := state, mv_attached_read_only := (state = VS_Attached \<and> read_only)\<rparr>
                    else v1);
              v3 = v2\<lparr>mv_updated_at := now\<rparr>
          in Inr ([put_volume cd v3], v3)))"

definition block_update_volume_impl ::
  "'b codec \<Rightarrow> nat \<Rightarrow> string \<Rightarrow> nat \<Rightarrow> meta_volume_state \<Rightarrow> bool \<Rightarrow> 'b meta_service \<Rightarrow>
     (meta_status + meta_volume) \<times> 'b meta_service" where
  "block_update_volume_impl cd now volume_id size_bytes state read_only =
     block_retry cd (update_volume_build cd now volume_id size_bytes state read_only)"

section \<open>Releasing chunks\<close>

text \<open>The two tables of chunk records, of volumes and of snapshots.\<close>

datatype chunk_table = Volume_chunks | Snapshot_chunks

fun chunk_table_name :: "chunk_table \<Rightarrow> string" where
  "chunk_table_name Volume_chunks = CHUNKS"
| "chunk_table_name Snapshot_chunks = SNAP_CHUNKS"

fun release_rows ::
  "'b codec \<Rightarrow> 'b meta_service \<Rightarrow> string \<Rightarrow> bool \<Rightarrow> (string \<times> 'b) list \<Rightarrow> refs_changed \<Rightarrow> stripe_meta list \<Rightarrow>
     meta_status + (refs_changed \<times> stripe_meta list)" where
  "release_rows cd m owner_id referrer_is_owner [] changed free = Inr (changed, free)"
| "release_rows cd m owner_id referrer_is_owner ((key, raw) # rows) changed free =
     (case dec_chunk cd raw of
        None \<Rightarrow> Inl Internal
      | Some r \<Rightarrow>
          (case bc_stripe r of
             None \<Rightarrow> release_rows cd m owner_id referrer_is_owner rows changed free
           | Some stripe \<Rightarrow>
               (let referrer = (if referrer_is_owner then as_bytes owner_id else bc_owner r);
                    (freed, changed') = refs_release cd m (st_object_id stripe) referrer changed
                in release_rows cd m owner_id referrer_is_owner rows changed'
                     (if freed then free @ [stripe] else free))))"

definition release_build ::
  "'b codec \<Rightarrow> chunk_table \<Rightarrow> string \<Rightarrow> bool \<Rightarrow> 'b meta_service \<Rightarrow>
     meta_status + ('b block_op list \<times> bool \<times> stripe_meta list)" where
  "release_build cd tbl owner_id referrer_is_owner m =
     (let rows = take BATCH (chunks_of (chunk_table_name tbl) owner_id 0 u64_max (ms_block m)) in
      if rows = [] then Inr ([], True, [])
      else and_then (release_rows cd m owner_id referrer_is_owner rows [] [])
        (\<lambda>(changed, free).
           Inr (map (\<lambda>(key, raw). delete_op (chunk_table_name tbl) key) rows @ refs_into_ops cd changed,
                False, free)))"

text \<open>The block rows after the row operations are mirrored, and after deleting keys.\<close>

lemma mirror_ops_append: "mirror_ops cd (xs @ ys) m = mirror_ops cd ys (mirror_ops cd xs m)"
  by (induction xs arbitrary: m) auto

lemma mirror_refs_block [simp]:
  "ms_block (mirror_ops cd (refs_into_ops cd changed) m) = ms_block m"
  by (induction changed arbitrary: m)
    (auto simp: refs_into_ops_def mirror_op_def apply_stripe_refs_event_def split: option.split)

lemma STRIPE_REFS_table [simp]: "STRIPE_REFS \<notin> set TABLES" "chunk_table_name tbl \<noteq> STRIPE_REFS"
  "chunk_table_name tbl \<in> set TABLES"
  by (cases tbl; simp add: STRIPE_REFS_def TABLES_def VOLUMES_def NAMES_def CHUNKS_def SNAPSHOTS_def SNAP_CHUNKS_def)+

lemma map_delete_op: "map (\<lambda>(key, raw). delete_op t key) rows = map (delete_op t) (map fst rows)"
  by (simp add: case_prod_beta comp_def)

lemma mirror_deletes_block:
  "ms_block (mirror_ops cd (map (delete_op (chunk_table_name tbl)) ks) m) =
     filter (\<lambda>p. fst p \<notin> Pair (chunk_table_name tbl) ` set ks) (ms_block m)"
proof (induction ks arbitrary: m)
  case (Cons k ks)
  show ?case
    unfolding list.map mirror_ops.simps Cons.IH
    by (simp add: mirror_op_def delete_op_def apply_block_event_def tables_set_def write_row_def bt_del_def)
qed simp

lemma chunks_of_filter:
  "chunks_of t i a b (filter (\<lambda>p. fst p \<notin> Pair t ` set ks) rows) =
     filter (\<lambda>p. fst p \<notin> set ks) (chunks_of t i a b rows)"
  by (induction rows) (auto simp: chunks_of_def table_rows_def Let_def split: prod.splits)
text \<open>A commit changes the caches by its operations, mirrored once or twice, or not at all.\<close>

lemma client_write_caches:
  assumes "client_write cd ops m = (r, m')"
  shows "ms_mode m' = ms_mode m \<and>
    (\<exists>m1. m' = mirror_ops cd ops m1 \<and> ms_block m1 = ms_block m \<and> ms_refs m1 = ms_refs m \<and> ms_mode m1 = ms_mode m \<or>
          ms_block m' = ms_block m \<and> ms_refs m' = ms_refs m \<and> r \<noteq> Inr MultiCasOk)"
proof -
  have mode: "ms_mode (mirror_ops cd ops m) = ms_mode m" for m :: "'a meta_service"
    by (induction ops arbitrary: m)
      (auto simp: mirror_op_def apply_block_event_def apply_stripe_refs_event_def split: option.split)
  obtain answer t where a: "apply_command (\<lambda>_. False) (map (\<lambda>op. cas_of cd op m) ops) (ms_store m) = (answer, t)"
    by force
  show ?thesis
  proof (cases "\<exists>rs. ms_raft m = Raft_err False # rs \<or> answer \<noteq> MultiCasOk")
    case True
    then have "ms_block m' = ms_block m \<and> ms_refs m' = ms_refs m \<and> ms_mode m' = ms_mode m \<and> r \<noteq> Inr MultiCasOk"
      using assms a by (auto simp: client_write_def Let_def split: list.splits raft_result.splits)
    then show ?thesis by blast
  next
    case False
    then have "m' = mirror_ops cd ops (m\<lparr>ms_raft := tl (ms_raft m), ms_store := t\<rparr>)"
      using assms a by (auto simp: client_write_def Let_def split: list.splits raft_result.splits bool.splits)
    then show ?thesis using mode by auto
  qed
qed
definition same_caches :: "'b meta_service \<Rightarrow> 'b meta_service \<Rightarrow> bool" where
  "same_caches m m' \<longleftrightarrow> ms_block m' = ms_block m \<and> ms_refs m' = ms_refs m \<and> ms_mode m' = ms_mode m"

definition cache_only :: "('b meta_service \<Rightarrow> 'r) \<Rightarrow> bool" where
  "cache_only build \<longleftrightarrow> (\<forall>m m'. same_caches m m' \<longrightarrow> build m' = build m)"

definition mirrored :: "'b codec \<Rightarrow> 'b block_op list \<Rightarrow> 'b meta_service \<Rightarrow> 'b meta_service \<Rightarrow> bool" where
  "mirrored cd ops m m' \<longleftrightarrow>
     (\<exists>m1. same_caches m m1 \<and> (m' = mirror_ops cd ops m1 \<or> m' = mirror_ops cd ops (mirror_ops cd ops m1)))"

lemma same_caches_refl [simp]: "same_caches m m"
  by (simp add: same_caches_def)

lemma same_caches_trans: "same_caches m m' \<Longrightarrow> same_caches m' m'' \<Longrightarrow> same_caches m m''"
  by (simp add: same_caches_def)

lemma mirrored_same: "same_caches m m1 \<Longrightarrow> mirrored cd ops m1 m' \<Longrightarrow> mirrored cd ops m m'"
  by (auto simp: mirrored_def intro: same_caches_trans)

lemma block_commit_caches:
  assumes "block_commit cd ops m = (r, m')"
  shows "case r of
      Inr done \<Rightarrow> if done then mirrored cd ops m m' else same_caches m m'
    | Inl e \<Rightarrow> mirrored cd ops m m' \<or> same_caches m m'"
proof (cases "ops = [] \<or> ms_mode m \<noteq> Raft_mode")
  case True
  have "mirrored cd ops m (mirror_ops cd ops m1)" if "same_caches m m1" for m1
    using that by (auto simp: mirrored_def)
  moreover have "mirrored cd [] m m"
    by (auto simp: mirrored_def intro: exI [of _ m])
  moreover have "same_caches m (m\<lparr>ms_store := t\<rparr>)" for t
    by (simp add: same_caches_def)
  ultimately show ?thesis
    using assms True by (cases "ms_mode m") (auto simp: block_commit_def split: if_splits)
next
  case False
  obtain r1 m1 where w: "client_write cd ops m = (r1, m1)" by force
  have c: "(\<exists>m2. m1 = mirror_ops cd ops m2 \<and> same_caches m m2) \<or> same_caches m m1 \<and> r1 \<noteq> Inr MultiCasOk"
    using client_write_caches [OF w] by (auto simp: same_caches_def)
  have conflict: "same_caches m m1" if "r1 = Inr x" "x \<noteq> MultiCasOk" for x
    using w that by (auto simp: client_write_def Let_def same_caches_def split: prod.splits list.splits raft_result.splits)
  show ?thesis
    using assms False w c conflict
    by (auto simp: block_commit_def mirrored_def split: sum.splits meta_response.splits)
qed

lemma block_retry_n_caches:
  assumes "block_retry_n n cd build m = (r, m')" and "cache_only build"
  shows "case r of
      Inr out \<Rightarrow> \<exists>ops. build m = Inr (ops, out) \<and> mirrored cd ops m m'
    | Inl e \<Rightarrow> same_caches m m' \<or> (\<exists>ops out. build m = Inr (ops, out) \<and> mirrored cd ops m m')"
  using assms(1)
proof (induction n arbitrary: m)
  case 0
  then show ?case by auto
next
  case (Suc n)
  show ?case
  proof (cases "build m")
    case (Inl e)
    with Suc.prems show ?thesis by auto
  next
    case (Inr p)
    then obtain ops out where b: "build m = Inr (ops, out)" by (cases p) auto
    obtain r1 m1 where w: "block_commit cd ops m = (r1, m1)" by force
    note c = block_commit_caches [OF w]
    show ?thesis
    proof (cases "r1 = Inr False")
      case True
      with c have same: "same_caches m m1" by simp
      have "block_retry_n n cd build m1 = (r, m')" using Suc.prems b w True by simp
      note ih = Suc.IH [OF this]
      have "build m1 = build m" using same assms(2) by (simp add: cache_only_def)
      with ih mirrored_same [OF same] same_caches_trans [OF same] show ?thesis
        by (cases r) (simp_all, blast+)
    next
      case False
      with Suc.prems b w c show ?thesis by (auto split: sum.splits if_splits)
    qed
  qed
qed

lemma release_rows_cache_only: "cache_only (\<lambda>m. release_rows cd m i f rows changed free)"
  unfolding cache_only_def
proof (intro allI impI)
  fix m m' :: "'a meta_service"
  assume "same_caches m m'"
  then have "refs_get key c m' = refs_get key c m" for key c
    by (simp add: refs_get_def same_caches_def split: option.split)
  then have "refs_release cd m' s o' c = refs_release cd m s o' c" for s o' c
    by (simp add: refs_release_def)
  then show "release_rows cd m' i f rows changed free = release_rows cd m i f rows changed free"
    by (induction rows arbitrary: changed free) (auto split: option.split prod.split)
qed

lemma release_build_cache_only: "cache_only (release_build cd tbl i f)"
  unfolding cache_only_def
proof (intro allI impI)
  fix m m' :: "'a meta_service"
  assume same: "same_caches m m'"
  then have "release_rows cd m' i f rows c free = release_rows cd m i f rows c free" for rows c free
    using release_rows_cache_only unfolding cache_only_def by blast
  moreover have "ms_block m' = ms_block m" using same by (simp add: same_caches_def)
  ultimately show "release_build cd tbl i f m' = release_build cd tbl i f m"
    unfolding release_build_def Let_def by simp
qed

lemma release_build_shrinks:
  assumes "block_retry cd (release_build cd tbl i f) m = (Inr (False, free), m')"
  shows "length (chunks_of (chunk_table_name tbl) i 0 u64_max (ms_block m')) <
    length (chunks_of (chunk_table_name tbl) i 0 u64_max (ms_block m))"
proof -
  let ?t = "chunk_table_name tbl"
  let ?c = "\<lambda>m :: 'a meta_service. chunks_of ?t i 0 u64_max (ms_block m)"
  define ks where "ks = map fst (take BATCH (?c m))"
  obtain ops where b: "release_build cd tbl i f m = Inr (ops, False, free)" and mir: "mirrored cd ops m m'"
    using block_retry_n_caches [OF assms [unfolded block_retry_def] release_build_cache_only] by auto
  from b obtain changed where ops: "ops = map (delete_op ?t) ks @ refs_into_ops cd changed" and ne: "ks \<noteq> []"
    by (auto simp: ks_def release_build_def Let_def map_delete_op and_then_eq_Inr_iff split: if_splits)
  have once: "?c (mirror_ops cd ops m1) = filter (\<lambda>p. fst p \<notin> set ks) (?c m1)" for m1
    by (simp add: ops mirror_ops_append mirror_deletes_block chunks_of_filter del: map_map)
  from mir have "?c m' = filter (\<lambda>p. fst p \<notin> set ks) (?c m)"
    by (auto simp: mirrored_def once same_caches_def)
  moreover from ne obtain p ps where "?c m = p # ps" by (cases "?c m") (auto simp: ks_def)
  moreover have "fst p \<in> set ks" if "?c m = p # ps" for p ps
    using that by (simp add: ks_def BATCH_def take_Cons')
  ultimately show ?thesis by (auto simp: le_imp_less_Suc)
qed

text \<open>
  \<open>release_chunks\<close>: a batch per Raft write until no row is left. Each batch that commits leaves
  fewer rows, so it ends.
\<close>

function release_chunks ::
  "'b codec \<Rightarrow> chunk_table \<Rightarrow> string \<Rightarrow> bool \<Rightarrow> stripe_meta list \<Rightarrow> 'b meta_service \<Rightarrow>
     (meta_status + stripe_meta list) \<times> 'b meta_service" where
  "release_chunks cd tbl owner_id referrer_is_owner freeable m =
     (case block_retry cd (release_build cd tbl owner_id referrer_is_owner) m of
        (Inl e, m') \<Rightarrow> (Inl e, m')
      | (Inr (done, free), m') \<Rightarrow>
          if done then (Inr (freeable @ free), m')
          else release_chunks cd tbl owner_id referrer_is_owner (freeable @ free) m')"
  by pat_completeness auto

termination
  by (relation "measure (\<lambda>(cd, tbl, i, f, free, m).
        length (chunks_of (chunk_table_name tbl) i 0 u64_max (ms_block m)))")
    (auto intro: release_build_shrinks [OF sym])

declare release_chunks.simps [simp del]
definition put_volume_build ::
  "'b codec \<Rightarrow> meta_volume \<Rightarrow> 'b meta_service \<Rightarrow> meta_status + ('b block_op list \<times> unit)" where
  "put_volume_build cd v m = Inr ([put_volume cd v], ())"

definition put_snapshot_build ::
  "'b codec \<Rightarrow> meta_snapshot \<Rightarrow> 'b meta_service \<Rightarrow> meta_status + ('b block_op list \<times> unit)" where
  "put_snapshot_build cd s m = Inr ([put_snapshot cd s], ())"

definition block_delete_volume_impl ::
  "'b codec \<Rightarrow> nat \<Rightarrow> string \<Rightarrow> 'b meta_service \<Rightarrow> (meta_status + stripe_meta list) \<times> 'b meta_service" where
  "block_delete_volume_impl cd now volume_id m =
     (case meta_get_volume cd volume_id m of
        Inl e \<Rightarrow> (Inl e, m)
      | Inr v \<Rightarrow>
          if mv_state v = VS_Attached then (Inl Failed_precondition, m)
          else
            then_do
              (if mv_state v \<noteq> VS_Deleting
               then block_retry cd (put_volume_build cd (v\<lparr>mv_state := VS_Deleting, mv_updated_at := now\<rparr>)) m
               else (Inr (), m))
              (\<lambda>_ m1. then_do (release_chunks cd Volume_chunks (mv_volume_id v) False [] m1)
                (\<lambda>freeable m2. then_do
                   (block_retry cd
                      (\<lambda>_. Inr ([delete_op VOLUMES (mv_volume_id v), delete_op NAMES (mv_name v)], ())) m2)
                   (\<lambda>_ m3. (Inr freeable, m3)))))"

section \<open>Chunk maps\<close>

fun decode_rows :: "'b codec \<Rightarrow> (string \<times> 'b) list \<Rightarrow> meta_status + block_chunk_ref list" where
  "decode_rows cd [] = Inr []"
| "decode_rows cd ((key, raw) # rows) =
     (case dec_chunk cd raw of
        None \<Rightarrow> Inl Internal
      | Some r \<Rightarrow> and_then (decode_rows cd rows) (\<lambda>rs. Inr (r # rs)))"

text \<open>\<open>saturating_add\<close> of the \<open>u64\<close> range.\<close>

definition block_get_chunks_impl ::
  "'b codec \<Rightarrow> string \<Rightarrow> nat \<Rightarrow> nat \<Rightarrow> 'b meta_service \<Rightarrow> meta_status + block_chunk_ref list" where
  "block_get_chunks_impl cd volume_id start_chunk count m =
     and_then (meta_get_volume cd volume_id m) (\<lambda>_.
       (let end' = min u64_max (start_chunk + max count 1) in
        decode_rows cd (chunks_of CHUNKS volume_id start_chunk end' (ms_block m))))"

record chunk_update =
  cu_chunk_id :: nat
  cu_expected_object_id :: bytes
  cu_stripe :: "stripe_meta option"

fun adjacent_equal :: "nat list \<Rightarrow> bool" where
  "adjacent_equal (a # b # xs) = (a = b \<or> adjacent_equal (b # xs))"
| "adjacent_equal _ = False"

text \<open>The chunk a row of the chunk table holds now, and the id of its stripe (empty for none).\<close>

definition current_chunk ::
  "'b codec \<Rightarrow> string \<Rightarrow> nat \<Rightarrow> 'b meta_service \<Rightarrow> meta_status + block_chunk_ref option" where
  "current_chunk cd volume_id chunk m =
     (case block_get CHUNKS (block_chunk_key volume_id chunk) m of
        None \<Rightarrow> Inr None
      | Some raw \<Rightarrow> (case dec_chunk cd raw of None \<Rightarrow> Inl Internal | Some r \<Rightarrow> Inr (Some r)))"

definition current_id :: "block_chunk_ref option \<Rightarrow> bytes" where
  "current_id c =
     (case c of None \<Rightarrow> [] | Some r \<Rightarrow> (case bc_stripe r of None \<Rightarrow> [] | Some s \<Rightarrow> st_object_id s))"

definition release_current ::
  "'b codec \<Rightarrow> 'b meta_service \<Rightarrow> block_chunk_ref option \<Rightarrow> refs_changed \<Rightarrow> stripe_meta list \<Rightarrow>
     refs_changed \<times> stripe_meta list" where
  "release_current cd m c changed free =
     (case c of
        None \<Rightarrow> (changed, free)
      | Some r \<Rightarrow>
          (case bc_stripe r of
             None \<Rightarrow> (changed, free)
           | Some stripe \<Rightarrow>
               (let (freed, changed') = refs_release cd m (st_object_id stripe) (bc_owner r) changed
                in (changed', if freed then free @ [stripe] else free))))"

definition update_op :: "'b codec \<Rightarrow> string \<Rightarrow> chunk_update \<Rightarrow> meta_status + 'b block_op" where
  "update_op cd volume_id u =
     (let key = block_chunk_key volume_id (cu_chunk_id u) in
      case cu_stripe u of
        Some stripe \<Rightarrow>
          if st_object_id stripe = [] then Inl Invalid_argument
          else Inr (put_op CHUNKS key (enc_chunk cd
            \<lparr>bc_chunk_id = cu_chunk_id u, bc_stripe = Some stripe, bc_owner = st_object_id stripe\<rparr>))
      | None \<Rightarrow> Inr (delete_op CHUNKS key))"

fun commit_rows ::
  "'b codec \<Rightarrow> 'b meta_service \<Rightarrow> string \<Rightarrow> chunk_update list \<Rightarrow> refs_changed \<Rightarrow> 'b block_op list \<Rightarrow>
     stripe_meta list \<Rightarrow> meta_status + (refs_changed \<times> 'b block_op list \<times> stripe_meta list)" where
  "commit_rows cd m volume_id [] changed ops free = Inr (changed, ops, free)"
| "commit_rows cd m volume_id (u # us) changed ops free =
     and_then (current_chunk cd volume_id (cu_chunk_id u) m) (\<lambda>current.
       if current_id current \<noteq> cu_expected_object_id u then Inl Aborted
       else
         (let (changed', free') = release_current cd m current changed free in
          and_then (update_op cd volume_id u) (\<lambda>op.
            commit_rows cd m volume_id us changed' (ops @ [op]) free')))"

definition commit_build ::
  "'b codec \<Rightarrow> string \<Rightarrow> chunk_update list \<Rightarrow> 'b meta_service \<Rightarrow>
     meta_status + ('b block_op list \<times> stripe_meta list)" where
  "commit_build cd volume_id updates m =
     and_then (commit_rows cd m volume_id updates [] [] [])
       (\<lambda>(changed, ops, free). Inr (ops @ refs_into_ops cd changed, free))"

definition block_commit_chunks_impl ::
  "'b codec \<Rightarrow> string \<Rightarrow> chunk_update list \<Rightarrow> 'b meta_service \<Rightarrow>
     (meta_status + stripe_meta list) \<times> 'b meta_service" where
  "block_commit_chunks_impl cd volume_id updates m =
     (if BATCH < length updates then (Inl Invalid_argument, m)
      else if adjacent_equal (sort (map cu_chunk_id updates)) then (Inl Invalid_argument, m)
      else case meta_get_volume cd volume_id m of
        Inl e \<Rightarrow> (Inl e, m)
      | Inr v \<Rightarrow>
          if mv_state v \<in> {VS_Deleting, VS_Creating} then (Inl Failed_precondition, m)
          else block_retry cd (commit_build cd volume_id updates) m)"

section \<open>Snapshots and clones\<close>

fun share_rows ::
  "'b codec \<Rightarrow> 'b meta_service \<Rightarrow> string \<Rightarrow> bool \<Rightarrow> chunk_table \<Rightarrow> string \<Rightarrow> (string \<times> 'b) list \<Rightarrow>
     refs_changed \<Rightarrow> 'b block_op list \<Rightarrow> meta_status + (refs_changed \<times> 'b block_op list)" where
  "share_rows cd m from_id from_is_owner to_table to_id [] changed ops = Inr (changed, ops)"
| "share_rows cd m from_id from_is_owner to_table to_id ((key, raw) # rows) changed ops =
     (case dec_chunk cd raw of
        None \<Rightarrow> Inl Internal
      | Some r \<Rightarrow>
          (case bc_stripe r of
             None \<Rightarrow> share_rows cd m from_id from_is_owner to_table to_id rows changed ops
           | Some stripe \<Rightarrow>
               and_then
                 (refs_share cd m (st_object_id stripe)
                    (if from_is_owner then as_bytes from_id else bc_owner r) (as_bytes to_id) changed)
                 (\<lambda>changed'. share_rows cd m from_id from_is_owner to_table to_id rows changed'
                    (ops @ [put_op (chunk_table_name to_table) (block_chunk_key to_id (bc_chunk_id r))
                       (enc_chunk cd \<lparr>bc_chunk_id = bc_chunk_id r, bc_stripe = Some stripe,
                          bc_owner = as_bytes to_id\<rparr>)]))))"

definition share_build ::
  "'b codec \<Rightarrow> string \<Rightarrow> bool \<Rightarrow> chunk_table \<Rightarrow> string \<Rightarrow> (string \<times> 'b) list \<Rightarrow> 'b meta_service \<Rightarrow>
     meta_status + ('b block_op list \<times> unit)" where
  "share_build cd from_id from_is_owner to_table to_id batch m =
     and_then (share_rows cd m from_id from_is_owner to_table to_id batch [] [])
       (\<lambda>(changed, ops). Inr (ops @ refs_into_ops cd changed, ()))"

text \<open>\<open>rows.chunks(BATCH)\<close>.\<close>

function batches :: "'a list \<Rightarrow> 'a list list" where
  "batches xs = (if xs = [] then [] else take BATCH xs # batches (drop BATCH xs))"
  by pat_completeness auto

termination
  by (relation "measure length") (auto simp: BATCH_def)

declare batches.simps [simp del]

fun share_batches ::
  "'b codec \<Rightarrow> string \<Rightarrow> bool \<Rightarrow> chunk_table \<Rightarrow> string \<Rightarrow> (string \<times> 'b) list list \<Rightarrow> 'b meta_service \<Rightarrow>
     (meta_status + unit) \<times> 'b meta_service" where
  "share_batches cd from_id from_is_owner to_table to_id [] m = (Inr (), m)"
| "share_batches cd from_id from_is_owner to_table to_id (b # bs) m =
     then_do (block_retry cd (share_build cd from_id from_is_owner to_table to_id b) m)
       (\<lambda>_ m'. share_batches cd from_id from_is_owner to_table to_id bs m')"

definition share_chunks ::
  "'b codec \<Rightarrow> chunk_table \<Rightarrow> string \<Rightarrow> bool \<Rightarrow> chunk_table \<Rightarrow> string \<Rightarrow> 'b meta_service \<Rightarrow>
     (meta_status + unit) \<times> 'b meta_service" where
  "share_chunks cd from_table from_id from_is_owner to_table to_id m =
     share_batches cd from_id from_is_owner to_table to_id
       (batches (chunks_of (chunk_table_name from_table) from_id 0 u64_max (ms_block m))) m"
definition block_create_snapshot_impl ::
  "'b codec \<Rightarrow> string \<Rightarrow> nat \<Rightarrow> string \<Rightarrow> string \<Rightarrow> 'b meta_service \<Rightarrow>
     (meta_status + meta_snapshot) \<times> 'b meta_service" where
  "block_create_snapshot_impl cd uuid now volume_id name m =
     (case meta_get_volume cd volume_id m of
        Inl e \<Rightarrow> (Inl e, m)
      | Inr v \<Rightarrow>
          if mv_state v \<in> {VS_Deleting, VS_Creating} then (Inl Failed_precondition, m)
          else
            (let snap = \<lparr>mp_snapshot_id = uuid, mp_volume_id = mv_volume_id v, mp_name = name,
                    mp_size_bytes = mv_size_bytes v, mp_unique_bytes = 0, mp_state = SS_Creating,
                    mp_created_at = now, mp_metadata = []\<rparr>;
                 ready = snap\<lparr>mp_state := SS_Available\<rparr>
             in then_do (block_retry cd (put_snapshot_build cd snap) m)
                  (\<lambda>_ m1. then_do
                     (share_chunks cd Volume_chunks (mv_volume_id v) False Snapshot_chunks uuid m1)
                     (\<lambda>_ m2. then_do (block_retry cd (put_snapshot_build cd ready) m2)
                        (\<lambda>_ m3. (Inr ready, m3))))))"

definition block_get_snapshot_impl ::
  "'b codec \<Rightarrow> string \<Rightarrow> 'b meta_service \<Rightarrow> meta_status + meta_snapshot" where
  "block_get_snapshot_impl cd snapshot_id m = meta_get_snapshot cd snapshot_id m"

definition block_list_snapshots_impl :: "'b codec \<Rightarrow> string \<Rightarrow> 'b meta_service \<Rightarrow> meta_snapshot list" where
  "block_list_snapshots_impl cd volume_id m =
     sort_key mp_created_at
       (filter (\<lambda>s. volume_id = '''' \<or> mp_volume_id s = volume_id)
         (List.map_filter (\<lambda>(k, raw). dec_snapshot cd raw) (table_rows SNAPSHOTS (ms_block m))))"

definition block_delete_snapshot_impl ::
  "'b codec \<Rightarrow> string \<Rightarrow> 'b meta_service \<Rightarrow> (meta_status + stripe_meta list) \<times> 'b meta_service" where
  "block_delete_snapshot_impl cd snapshot_id m =
     (case meta_get_snapshot cd snapshot_id m of
        Inl e \<Rightarrow> (Inl e, m)
      | Inr snap \<Rightarrow>
          then_do
            (if mp_state snap \<noteq> SS_Deleting
             then block_retry cd (put_snapshot_build cd (snap\<lparr>mp_state := SS_Deleting\<rparr>)) m
             else (Inr (), m))
            (\<lambda>_ m1. then_do (release_chunks cd Snapshot_chunks (mp_snapshot_id snap) True [] m1)
              (\<lambda>freeable m2. then_do
                 (block_retry cd (\<lambda>_. Inr ([delete_op SNAPSHOTS (mp_snapshot_id snap)], ())) m2)
                 (\<lambda>_ m3. (Inr freeable, m3)))))"

definition clone_volume_build ::
  "'b codec \<Rightarrow> meta_volume \<Rightarrow> 'b meta_service \<Rightarrow> meta_status + ('b block_op list \<times> unit)" where
  "clone_volume_build cd v m =
     (if block_get NAMES (mv_name v) m \<noteq> None then Inl Already_exists
      else Inr ([put_volume cd v, put_name cd v], ()))"

definition block_clone_volume_impl ::
  "'b codec \<Rightarrow> string \<Rightarrow> nat \<Rightarrow> nat \<Rightarrow> string \<Rightarrow> string \<Rightarrow> 'b meta_service \<Rightarrow>
     (meta_status + meta_volume) \<times> 'b meta_service" where
  "block_clone_volume_impl cd uuid now now' snapshot_id name m =
     (case meta_get_snapshot cd snapshot_id m of
        Inl e \<Rightarrow> (Inl e, m)
      | Inr snap \<Rightarrow>
          if mp_state snap \<noteq> SS_Available then (Inl Failed_precondition, m)
          else if name = '''' then (Inl Invalid_argument, m)
          else
            (let source = meta_get_volume cd (mp_volume_id snap) m;
                 clone = \<lparr>mv_volume_id = uuid, mv_name = name, mv_size_bytes = mp_size_bytes snap,
                   mv_used_bytes = 0, mv_pool = (case source of Inr v \<Rightarrow> mv_pool v | Inl _ \<Rightarrow> ''''),
                   mv_state = VS_Creating, mv_created_at = now, mv_updated_at = now,
                   mv_parent_snapshot_id = mp_snapshot_id snap,
                   mv_chunk_size_bytes = (case source of Inr v \<Rightarrow> mv_chunk_size_bytes v | Inl _ \<Rightarrow> META_CHUNK_SIZE),
                   mv_metadata = [], mv_qos = None, mv_attached_read_only = False\<rparr>;
                 ready = clone\<lparr>mv_state := VS_Available, mv_updated_at := now'\<rparr>
             in then_do (block_retry cd (clone_volume_build cd clone) m)
                  (\<lambda>_ m1. then_do
                     (share_chunks cd Snapshot_chunks (mp_snapshot_id snap) True Volume_chunks uuid m1)
                     (\<lambda>_ m2. then_do (block_retry cd (put_volume_build cd ready) m2)
                        (\<lambda>_ m3. (Inr ready, m3))))))"

section \<open>Repair and drain\<close>

text \<open>Both walk the rows of the two chunk tables, the volumes' first.\<close>

definition chunk_rows :: "'b tables \<Rightarrow> (string \<times> string \<times> 'b) list" where
  "chunk_rows rows =
     map (\<lambda>(k, raw). (CHUNKS, k, raw)) (table_rows CHUNKS rows) @
     map (\<lambda>(k, raw). (SNAP_CHUNKS, k, raw)) (table_rows SNAP_CHUNKS rows)"

fun stripes_once :: "bytes list \<Rightarrow> stripe_meta list \<Rightarrow> stripe_meta list" where
  "stripes_once seen [] = []"
| "stripes_once seen (s # ss) =
     (if st_object_id s \<in> set seen then stripes_once seen ss
      else s # stripes_once (st_object_id s # seen) ss)"

definition block_stripes :: "'b codec \<Rightarrow> 'b meta_service \<Rightarrow> stripe_meta list" where
  "block_stripes cd m =
     stripes_once [] (List.map_filter
       (\<lambda>(t, k, raw). case dec_chunk cd raw of None \<Rightarrow> None | Some r \<Rightarrow> bc_stripe r) (chunk_rows (ms_block m)))"

text \<open>Rewrite the stripe of every record that holds \<open>object_id\<close>, where \<open>change\<close> changes it.\<close>

fun rewrite_rows ::
  "'b codec \<Rightarrow> bytes \<Rightarrow> (stripe_meta \<Rightarrow> stripe_meta option) \<Rightarrow> (string \<times> string \<times> 'b) list \<Rightarrow>
     meta_status + 'b block_op list" where
  "rewrite_rows cd object_id change [] = Inr []"
| "rewrite_rows cd object_id change ((t, key, raw) # rows) =
     (case dec_chunk cd raw of
        None \<Rightarrow> Inl Internal
      | Some r \<Rightarrow>
          and_then (rewrite_rows cd object_id change rows) (\<lambda>ops.
            case bc_stripe r of
              None \<Rightarrow> Inr ops
            | Some stripe \<Rightarrow>
                if st_object_id stripe \<noteq> object_id then Inr ops
                else case change stripe of
                  None \<Rightarrow> Inr ops
                | Some stripe' \<Rightarrow> Inr (put_op t key (enc_chunk cd (r\<lparr>bc_stripe := Some stripe'\<rparr>)) # ops)))"

definition rewrite_build ::
  "'b codec \<Rightarrow> bytes \<Rightarrow> (stripe_meta \<Rightarrow> stripe_meta option) \<Rightarrow> 'b meta_service \<Rightarrow>
     meta_status + ('b block_op list \<times> nat)" where
  "rewrite_build cd object_id change m =
     and_then (rewrite_rows cd object_id change (chunk_rows (ms_block m))) (\<lambda>ops. Inr (ops, length ops))"

definition move_shard :: "nat \<Rightarrow> bytes \<Rightarrow> shard_location \<Rightarrow> stripe_meta \<Rightarrow> stripe_meta option" where
  "move_shard position from to stripe =
     (if list_ex (\<lambda>l. sl_position l = position \<and> sl_node_id l = from) (st_shards stripe)
      then Some (stripe\<lparr>st_shards :=
        map (\<lambda>l. if sl_position l = position \<and> sl_node_id l = from then to else l) (st_shards stripe)\<rparr>)
      else None)"

definition block_move_shard ::
  "'b codec \<Rightarrow> bytes \<Rightarrow> nat \<Rightarrow> bytes \<Rightarrow> shard_location \<Rightarrow> 'b meta_service \<Rightarrow>
     (meta_status + nat) \<times> 'b meta_service" where
  "block_move_shard cd object_id position from to =
     block_retry cd (rewrite_build cd object_id (move_shard position from to))"

fun push_missing :: "shard_location list \<Rightarrow> shard_location list \<Rightarrow> shard_location list" where
  "push_missing shards [] = shards"
| "push_missing shards (l # ls) =
     push_missing (if list_all (\<lambda>x. sl_position x \<noteq> sl_position l) shards then shards @ [l] else shards) ls"

definition add_shards :: "shard_location list \<Rightarrow> stripe_meta \<Rightarrow> stripe_meta option" where
  "add_shards added stripe =
     (let shards = push_missing (st_shards stripe) added in
      if length shards = length (st_shards stripe) then None
      else Some (stripe\<lparr>st_shards := sort_key sl_position shards\<rparr>))"

definition block_add_shard_locations ::
  "'b codec \<Rightarrow> bytes \<Rightarrow> shard_location list \<Rightarrow> 'b meta_service \<Rightarrow> (meta_status + nat) \<times> 'b meta_service" where
  "block_add_shard_locations cd object_id added =
     block_retry cd (rewrite_build cd object_id (add_shards added))"

text \<open>\<open>load_block_tables\<close>: the cache filled from the store.\<close>

definition load_block_tables :: "'b meta_service \<Rightarrow> 'b meta_service" where
  "load_block_tables m =
     m\<lparr>ms_block := fold (\<lambda>(k, v) rows. tables_set (fst k) (snd k) (Some v) rows)
        (filter (\<lambda>(k, v). fst k \<in> set TABLES) (ms_store m)) []\<rparr>"

end
