(* ===== verification/Chunk_Keys.thy ===== *)
theory Chunk_Keys
  imports Block_Meta
begin

text \<open>
  The keys of the chunk tables: an id, a zero character and sixteen hexadecimal digits. Ids have
  no zero character (they are UUIDs), so a key names its id and its chunk, and the keys of one id
  are in the order of the chunks: a scan of a key range is a scan of a chunk range.
\<close>

definition nul_free :: "string \<Rightarrow> bool" where
  "nul_free s \<longleftrightarrow> CHR 0x00 \<notin> set s"

definition row_id :: "string \<Rightarrow> string" where
  "row_id k = takeWhile (\<lambda>c. c \<noteq> CHR 0x00) k"

definition row_group :: "string \<times> string \<Rightarrow> string \<times> string" where
  "row_group k = (fst k, row_id (snd k))"

lemma row_id_chunk_key [simp]: "nul_free i \<Longrightarrow> row_id (block_chunk_key i c) = i"
  by (induction i) (auto simp: row_id_def block_chunk_key_def nul_free_def)

lemma block_chunk_key_inj:
  assumes "nul_free i" and "nul_free j"
  shows "block_chunk_key i c = block_chunk_key j d \<longleftrightarrow> i = j \<and> c = d"
proof
  assume eq: "block_chunk_key i c = block_chunk_key j d"
  then have "i = j" using assms by (metis row_id_chunk_key)
  with eq have "format_016x c = format_016x d" by (simp add: block_chunk_key_def)
  then have "c = d"
    by (metis format_016x_def hex_value_lower hex_value_zeros)
  with \<open>i = j\<close> show "i = j \<and> c = d" by simp
qed simp

section \<open>Order of the digits\<close>

fun fixed_hex :: "nat \<Rightarrow> nat \<Rightarrow> string" where
  "fixed_hex 0 n = []"
| "fixed_hex (Suc w) n = fixed_hex w (n div 16) @ [hex_digit n]"

lemma length_fixed_hex [simp]: "length (fixed_hex w n) = w"
  by (induction w arbitrary: n) auto

lemma fixed_hex_0: "fixed_hex w 0 = replicate w (CHR ''0'')"
  by (induction w) (simp_all add: hex_digit_def replicate_append_same)

lemma padded_hex:
  assumes "n < 16 ^ w" and "0 < w"
  shows "replicate (w - length (hex_lower n)) (CHR ''0'') @ hex_lower n = fixed_hex w n \<and>
    length (hex_lower n) \<le> w"
  using assms
proof (induction w arbitrary: n)
  case (Suc w)
  show ?case
  proof (cases "n < 16")
    case True
    then have "hex_lower n = [hex_digit n]" by (simp add: hex_lower.simps)
    with True show ?thesis by (simp add: fixed_hex_0)
  next
    case False
    then have h: "hex_lower n = hex_lower (n div 16) @ [hex_digit n]" by (simp add: hex_lower.simps [of n])
    have "0 < w" using False Suc.prems by (cases w) auto
    moreover have "n div 16 < 16 ^ w" using Suc.prems(1) by (simp add: div_less_iff_less_mult mult.commute)
    ultimately have "replicate (w - length (hex_lower (n div 16))) (CHR ''0'') @ hex_lower (n div 16) =
        fixed_hex w (n div 16) \<and> length (hex_lower (n div 16)) \<le> w"
      by (rule Suc.IH [rotated])
    then show ?thesis by (simp add: h)
  qed
qed simp

lemma hex_digit_less: "hex_digit a < hex_digit b \<longleftrightarrow> a mod 16 < b mod 16"
proof -
  have s: "sorted_wrt (<) ''0123456789abcdef''" by code_simp
  have "''0123456789abcdef'' ! i < ''0123456789abcdef'' ! j" if "i < j" "j < 16" for i j
    by (rule sorted_wrt_nth_less [OF s that(1)]) (use that in simp)
  then have *: "hex_digit a < hex_digit b" if "a mod 16 < b mod 16" for a b
    using that by (simp add: hex_digit_def)
  show ?thesis
  proof
    assume l: "hex_digit a < hex_digit b"
    show "a mod 16 < b mod 16"
    proof (rule ccontr)
      assume "\<not> a mod 16 < b mod 16"
      then consider "b mod 16 < a mod 16" | "a mod 16 = b mod 16" by linarith
      then show False
      proof cases
        case 1
        with * [of b a] l show False by (meson less_asym)
      next
        case 2
        then have "hex_digit a = hex_digit b" by (simp add: hex_digit_def)
        with l show False by simp
      qed
    qed
  qed (rule *)
qed

lemma append_less_append:
  fixes xs :: "'a :: linorder list"
  shows "length xs = length ys \<Longrightarrow> xs @ [x] < ys @ [y] \<longleftrightarrow> xs < ys \<or> xs = ys \<and> x < y"
  by (induction xs ys rule: list_induct2) auto

lemma fixed_hex_inj: "a < 16 ^ w \<Longrightarrow> b < 16 ^ w \<Longrightarrow> fixed_hex w a = fixed_hex w b \<longleftrightarrow> a = b"
proof (induction w arbitrary: a b)
  case (Suc w)
  have "a div 16 < 16 ^ w" "b div 16 < 16 ^ w"
    using Suc.prems by (simp_all add: div_less_iff_less_mult mult.commute)
  with Suc.IH have "fixed_hex (Suc w) a = fixed_hex (Suc w) b \<longleftrightarrow> a div 16 = b div 16 \<and> hex_digit a = hex_digit b"
    by simp
  also have "hex_digit a = hex_digit b \<longleftrightarrow> a mod 16 = b mod 16"
    by (metis hex_digit_value hex_digit_def)
  also have "a div 16 = b div 16 \<and> a mod 16 = b mod 16 \<longleftrightarrow> a = b"
    by (metis mult_div_mod_eq)
  finally show ?case .
qed simp

lemma less_by_digits:
  "(a :: nat) < b \<longleftrightarrow> a div 16 < b div 16 \<or> a div 16 = b div 16 \<and> a mod 16 < b mod 16"
proof (cases "a div 16" "b div 16" rule: linorder_cases)
  case less
  then have "a < b" by (meson div_le_mono not_le)
  with less show ?thesis by simp
next
  case equal
  then have "a < b \<longleftrightarrow> a mod 16 < b mod 16"
    by (metis add_less_cancel_left mult_div_mod_eq)
  with equal show ?thesis by simp
next
  case greater
  then have "b < a" by (meson div_le_mono not_le)
  with greater show ?thesis by simp
qed

lemma fixed_hex_less: "a < 16 ^ w \<Longrightarrow> b < 16 ^ w \<Longrightarrow> fixed_hex w a < fixed_hex w b \<longleftrightarrow> a < b"
proof (induction w arbitrary: a b)
  case (Suc w)
  have ab: "a div 16 < 16 ^ w" "b div 16 < 16 ^ w"
    using Suc.prems by (simp_all add: div_less_iff_less_mult mult.commute)
  have "fixed_hex (Suc w) a < fixed_hex (Suc w) b \<longleftrightarrow>
      a div 16 < b div 16 \<or> a div 16 = b div 16 \<and> a mod 16 < b mod 16"
    by (simp add: append_less_append Suc.IH [OF ab] fixed_hex_inj [OF ab] hex_digit_less)
  also have "\<dots> \<longleftrightarrow> a < b"
    by (rule less_by_digits [symmetric])
  finally show ?case .
qed simp

lemma format_016x_fixed: "n < 2 ^ 64 \<Longrightarrow> format_016x n = fixed_hex 16 n"
  using padded_hex [of n 16] by (simp add: format_016x_def)

lemma format_016x_less: "a < 2 ^ 64 \<Longrightarrow> b < 2 ^ 64 \<Longrightarrow> format_016x a < format_016x b \<longleftrightarrow> a < b"
  using fixed_hex_less [of a 16 b] by (simp add: format_016x_fixed)

lemma format_016x_le: "a < 2 ^ 64 \<Longrightarrow> b < 2 ^ 64 \<Longrightarrow> format_016x a \<le> format_016x b \<longleftrightarrow> a \<le> b"
  using format_016x_less [of b a] by (simp add: linorder_not_less [symmetric])

section \<open>Ranges of keys\<close>

lemma key_above:
  "i @ CHR 0x00 # x \<le> i @ CHR 0x00 # y \<longleftrightarrow> x \<le> (y :: string)"
  by (induction i) auto

lemma key_below: "i @ CHR 0x00 # x < i @ CHR 0x00 # y \<longleftrightarrow> x < (y :: string)"
  by (induction i) auto

lemma key_below_all: "i @ CHR 0x00 # x < i @ [CHR 0x01]"
  by (induction i) auto

text \<open>A key between two keys of an id, or between one and the end of its keys, is of that id.\<close>

lemma char_less_1: "(c :: char) < CHR 0x01 \<Longrightarrow> c = CHR 0x00"
proof -
  assume "c < CHR 0x01"
  then have "(of_char c :: nat) < 1" by (simp add: less_char_def)
  then have "of_char c = (of_char (CHR 0x00) :: nat)" by simp
  then show ?thesis by (simp only: of_char_eq_iff)
qed

lemma key_between:
  "i @ CHR 0x00 # x \<le> b \<Longrightarrow> b < i @ [CHR 0x01] \<Longrightarrow> \<exists>y. b = i @ CHR 0x00 # y"
proof (induction i arbitrary: b)
  case Nil
  then obtain c y where b: "b = c # y" by (cases b) auto
  with Nil have "c < CHR 0x01" by auto
  with b char_less_1 show ?case by simp
next
  case (Cons a i)
  then obtain y where b: "b = a # y" by (cases b) (auto dest: less_asym)
  with Cons obtain z where "y = i @ CHR 0x00 # z" by auto
  with b show ?case by simp
qed

lemma nul_free_prefix:
  "nul_free i \<Longrightarrow> nul_free j \<Longrightarrow> i @ CHR 0x00 # x = j @ CHR 0x00 # y \<Longrightarrow> i = j \<and> x = y"
proof (induction i arbitrary: j)
  case Nil
  then show ?case by (cases j) (auto simp: nul_free_def)
next
  case (Cons a i)
  then show ?case by (cases j) (auto simp: nul_free_def)
qed

text \<open>
  The keys \<open>chunks_of\<close> selects: with \<open>u64::MAX\<close> as the end every chunk from the start on,
  otherwise the chunks of the half-open range.
\<close>

definition in_chunk_range :: "nat \<Rightarrow> nat \<Rightarrow> nat \<Rightarrow> bool" where
  "in_chunk_range start end' c \<longleftrightarrow> start \<le> c \<and> (end' = u64_max \<or> c < end')"

lemma chunk_range_keys:
  assumes i: "nul_free i" and j: "nul_free j" and c: "c < 2 ^ 64" and s: "start < 2 ^ 64" and e: "end' < 2 ^ 64"
  shows "block_chunk_key i start \<le> block_chunk_key j c \<and>
      block_chunk_key j c < (if end' = u64_max then i @ [CHR 0x01] else block_chunk_key i end') \<longleftrightarrow>
    j = i \<and> in_chunk_range start end' c"
proof
  assume between: "block_chunk_key i start \<le> block_chunk_key j c \<and>
      block_chunk_key j c < (if end' = u64_max then i @ [CHR 0x01] else block_chunk_key i end')"
  have "block_chunk_key j c < i @ [CHR 0x01]"
  proof (cases "end' = u64_max")
    case False
    then have "block_chunk_key j c < i @ CHR 0x00 # format_016x end'"
      using between by (simp add: block_chunk_key_def)
    also have "\<dots> < i @ [CHR 0x01]" by (rule key_below_all)
    finally show ?thesis .
  qed (use between in simp)
  with between key_between obtain y where "block_chunk_key j c = i @ CHR 0x00 # y"
    unfolding block_chunk_key_def by (metis append_Cons append_Nil)
  then have ji: "j = i" using nul_free_prefix [OF j i] by (simp add: block_chunk_key_def)
  with between show "j = i \<and> in_chunk_range start end' c"
    using format_016x_le [OF s c] format_016x_less [OF c e]
    by (auto simp: in_chunk_range_def block_chunk_key_def key_above key_below split: if_splits)
next
  assume "j = i \<and> in_chunk_range start end' c"
  then show "block_chunk_key i start \<le> block_chunk_key j c \<and>
      block_chunk_key j c < (if end' = u64_max then i @ [CHR 0x01] else block_chunk_key i end')"
    using format_016x_le [OF s c] format_016x_less [OF c e]
    by (auto simp: in_chunk_range_def block_chunk_key_def key_above key_below key_below_all)
qed

end
