(* ===== verification/Meta_Sharing.thy ===== *)
theory Meta_Sharing
  imports Stripe_Sharing Chunk_Keys
begin

text \<open>
  The meta service's block tables as a sharing state: the rows of the two chunk tables hold
  stripes, the registry's cache lists their owners. Each build of a handler, with the registry
  changes it has gathered so far laid over the committed ones, performs the abstract moves one
  row after another; committing its operations yields exactly that state.
\<close>

section \<open>What mirroring operations does\<close>

definition op_value :: "'b block_op list \<Rightarrow> string \<Rightarrow> string \<Rightarrow> 'b option \<Rightarrow> 'b option" where
  "op_value ops t k old =
     (case find (\<lambda>op. bo_table op = t \<and> bo_key op = k) (rev ops) of Some op \<Rightarrow> bo_new op | None \<Rightarrow> old)"

lemma op_value_Nil [simp]: "op_value [] t k old = old"
  by (simp add: op_value_def)

lemma op_value_snoc:
  "op_value (ops @ [op]) t k old = (if bo_table op = t \<and> bo_key op = k then bo_new op else op_value ops t k old)"
  by (simp add: op_value_def)

lemma op_value_Cons:
  "op_value (op # ops) t k old =
     op_value ops t k (if bo_table op = t \<and> bo_key op = k then bo_new op else old)"
  by (simp add: op_value_def find_append' split: option.split)

lemma op_value_append: "op_value (xs @ ys) t k old = op_value ys t k (op_value xs t k old)"
  by (induction xs arbitrary: old) (simp_all add: op_value_Cons)

lemma op_value_twice: "op_value ops t k (op_value ops t k old) = op_value ops t k old"
  by (simp add: op_value_def split: option.split)

lemma op_value_other: "\<forall>op \<in> set ops. bo_table op \<noteq> t \<Longrightarrow> op_value ops t k old = old"
  by (induction ops arbitrary: old) (auto simp: op_value_Cons)

lemma refs_ops_table: "op \<in> set (refs_into_ops cd changed) \<Longrightarrow> bo_table op = STRIPE_REFS"
  by (auto simp: refs_into_ops_def)

lemma mirror_block_get:
  "bt_get (t, k) (ms_block (mirror_ops cd ops m)) =
     (if t \<in> set TABLES then op_value ops t k (bt_get (t, k) (ms_block m)) else bt_get (t, k) (ms_block m))"
proof (induction ops arbitrary: m)
  case (Cons op ops)
  have "bt_get (t, k) (ms_block (mirror_op cd op m)) =
      (if t \<in> set TABLES \<and> bo_table op = t \<and> bo_key op = k then bo_new op else bt_get (t, k) (ms_block m))"
    by (auto simp: mirror_op_def apply_block_event_def apply_stripe_refs_event_def tables_set_def
        split: option.split)
  with Cons show ?case by (simp add: op_value_Cons)
qed simp

lemma mirror_rows_refs:
  "\<forall>op \<in> set ops. bo_table op \<noteq> STRIPE_REFS \<Longrightarrow> ms_refs (mirror_ops cd ops m) = ms_refs m"
  by (induction ops arbitrary: m) (auto simp: mirror_op_def apply_block_event_def)

lemma mirror_ops_mode [simp]: "ms_mode (mirror_ops cd ops m) = ms_mode m"
  by (induction ops arbitrary: m)
    (auto simp: mirror_op_def apply_block_event_def apply_stripe_refs_event_def split: option.split)

lemma mirror_ops_store [simp]: "ms_store (mirror_ops cd ops m) = ms_store m"
  by (induction ops arbitrary: m)
    (auto simp: mirror_op_def apply_block_event_def apply_stripe_refs_event_def split: option.split)

lemma mirror_ops_sorted: "bt_sorted (ms_block m) \<Longrightarrow> bt_sorted (ms_block (mirror_ops cd ops m))"
  by (induction ops arbitrary: m)
    (auto simp: mirror_op_def apply_block_event_def apply_stripe_refs_event_def tables_set_def split: option.split)

lemma bt_get_Cons: "bt_get key ((k, v) # m) = (if key = k then Some v else bt_get key m)"
  by (simp add: bt_get_def)

lemma mirror_refs_get:
  assumes "codec_ok cd" and "distinct (map fst changed)"
  shows "bt_get key (ms_refs (mirror_ops cd (refs_into_ops cd changed) m)) = refs_get key changed m"
  using assms(2)
proof (induction changed arbitrary: m)
  case Nil
  then show ?case by (simp add: refs_into_ops_def refs_get_def)
next
  case (Cons p changed)
  obtain k v where p: "p = (k, v)" by (cases p)
  let ?m = "mirror_op cd \<lparr>bo_table = STRIPE_REFS, bo_key = k, bo_new = map_option (enc_refs cd) v\<rparr> m"
  have one: "bt_get key (ms_refs ?m) = (if key = k then v else bt_get key (ms_refs m))" for key
    using assms(1)
    by (cases v) (simp_all add: mirror_op_def apply_stripe_refs_event_def codec_ok_def)
  have "k \<notin> fst ` set changed" using Cons.prems p by simp
  then have "bt_get k changed = None" by (simp add: bt_get_def map_of_eq_None_iff)
  then show ?case
    using Cons p by (auto simp: refs_into_ops_def refs_get_def one bt_get_Cons split: option.split)
qed

text \<open>The state after a commit of row operations and registry changes.\<close>

lemma mirrored_gets:
  assumes mir: "mirrored cd (ops @ refs_into_ops cd changed) m m'" and cd: "codec_ok cd"
    and rows: "\<forall>op \<in> set ops. bo_table op \<in> set TABLES" and srt: "bt_sorted changed"
  shows "t \<in> set TABLES \<Longrightarrow> bt_get (t, k) (ms_block m') = op_value ops t k (bt_get (t, k) (ms_block m))"
    and "bt_get key (ms_refs m') = refs_get key changed m"
    and "ms_mode m' = ms_mode m"
    and "bt_sorted (ms_block m) \<Longrightarrow> bt_sorted (ms_block m')"
proof -
  let ?ops = "ops @ refs_into_ops cd changed"
  obtain m1 where same: "same_caches m m1" and m': "m' = mirror_ops cd ?ops m1 \<or> m' = mirror_ops cd ?ops (mirror_ops cd ?ops m1)"
    using mir unfolding mirrored_def by blast
  have b: "ms_block m1 = ms_block m" "ms_refs m1 = ms_refs m" "ms_mode m1 = ms_mode m"
    using same by (simp_all add: same_caches_def)
  have norefs: "\<forall>op \<in> set ops. bo_table op \<noteq> STRIPE_REFS" using rows STRIPE_REFS_table(1) by metis
  have val: "op_value ?ops t k old = op_value ops t k old" if "t \<in> set TABLES" for t k old
    using that op_value_other [of "refs_into_ops cd changed" t k] refs_ops_table STRIPE_REFS_table(1)
    by (metis op_value_append)
  show "bt_get (t, k) (ms_block m') = op_value ops t k (bt_get (t, k) (ms_block m))" if "t \<in> set TABLES"
    using m' that by (auto simp: mirror_block_get val b op_value_twice)
  have ref: "bt_get key (ms_refs (mirror_ops cd ?ops m2)) = refs_get key changed m2" for m2
  proof -
    have "bt_get key (ms_refs (mirror_ops cd ?ops m2)) = refs_get key changed (mirror_ops cd ops m2)"
      unfolding mirror_ops_append by (rule mirror_refs_get [OF cd bt_sorted_distinct [OF srt]])
    then show ?thesis using mirror_rows_refs [OF norefs] by (simp add: refs_get_def split: option.split)
  qed
  then show "bt_get key (ms_refs m') = refs_get key changed m"
    using m' by (auto simp: refs_get_def b split: option.split)
  show "ms_mode m' = ms_mode m" using m' b by auto
  show "bt_sorted (ms_block m')" if "bt_sorted (ms_block m)"
    using m' that by (auto simp: b intro!: mirror_ops_sorted)
qed
section \<open>The sharing state of the caches\<close>

definition held_by :: "'b codec \<Rightarrow> 'b \<Rightarrow> (bytes \<times> bytes) option" where
  "held_by cd raw =
     (case dec_chunk cd raw of
        None \<Rightarrow> None
      | Some r \<Rightarrow> map_option (\<lambda>s. (st_object_id s, bc_owner r)) (bc_stripe r))"

definition chunk_table_names :: "string set" where
  "chunk_table_names = {CHUNKS, SNAP_CHUNKS}"

definition rows_of :: "'b codec \<Rightarrow> 'b meta_service \<Rightarrow> string \<times> string \<Rightarrow> (bytes \<times> bytes) option" where
  "rows_of cd m k =
     (if fst k \<in> chunk_table_names then Option.bind (bt_get k (ms_block m)) (held_by cd) else None)"

definition reg_of :: "'b codec \<Rightarrow> 'b meta_service \<Rightarrow> refs_changed \<Rightarrow> bytes \<Rightarrow> bytes list option" where
  "reg_of cd m changed s = refs_get (hex_encode cd s) changed m"

definition sharing_of :: "'b codec \<Rightarrow> 'b meta_service \<Rightarrow> (string \<times> string) sharing" where
  "sharing_of cd m = \<lparr>sh_rows = rows_of cd m, sh_reg = reg_of cd m []\<rparr>"

lemma hex_eq: "codec_ok cd \<Longrightarrow> hex_encode cd x = hex_encode cd y \<longleftrightarrow> x = y"
  by (auto simp: codec_ok_def)

lemma reg_of_put:
  "codec_ok cd \<Longrightarrow> reg_of cd m (bt_put (hex_encode cd s) v changed) = (reg_of cd m changed)(s := v)"
  by (rule ext) (simp add: reg_of_def refs_get_def hex_eq)

lemma refs_release_reg:
  assumes "codec_ok cd" and "refs_release cd m s ow changed = (f, changed')"
  shows "reg_release (reg_of cd m changed) s ow = (f, reg_of cd m changed')"
    and "bt_sorted changed \<Longrightarrow> bt_sorted changed'"
  using assms
  by (auto simp: refs_release_def reg_release_def reg_of_put Let_def reg_of_def [of cd m changed s]
      split: option.splits if_splits)

lemma reg_release_other: "reg_release reg s ow = (f, reg') \<Longrightarrow> s' \<noteq> s \<Longrightarrow> reg' s' = reg s'"
  by (auto simp: reg_release_def split: option.splits if_splits)

lemma refs_share_reg:
  assumes "codec_ok cd" and "reg_share (reg_of cd m changed) s ow sharer = Some reg'"
  obtains changed' where "refs_share cd m s ow sharer changed = Inr changed'" and "reg_of cd m changed' = reg'"
    and "bt_sorted changed \<Longrightarrow> bt_sorted changed'"
proof (cases "reg_of cd m changed s")
  case None
  then have g: "refs_get (hex_encode cd s) changed m = None" by (simp add: reg_of_def)
  show ?thesis
    by (rule that, simp add: refs_share_def g Let_def, insert assms None,
        auto simp: reg_share_def reg_of_put)
next
  case (Some R)
  then have g: "refs_get (hex_encode cd s) changed m = Some R" by (simp add: reg_of_def)
  have "ow \<in> set R" using assms(2) Some by (auto simp: reg_share_def split: if_splits)
  then show ?thesis
    by (intro that, simp add: refs_share_def g Let_def, insert assms Some,
        auto simp: reg_share_def reg_of_put)
qed

section \<open>Releasing rows\<close>

text \<open>\<open>without ks \<rho>\<close>: the rows \<open>\<rho>\<close> with those of the keys \<open>ks\<close> gone.\<close>

definition without :: "'k set \<Rightarrow> ('k \<Rightarrow> 'v option) \<Rightarrow> 'k \<Rightarrow> 'v option" where
  "without ks \<rho> k = (if k \<in> ks then None else \<rho> k)"

lemma without_empty [simp]: "without {} \<rho> = \<rho>"
  by (simp add: without_def fun_eq_iff)

lemma without_upd: "without ks (\<rho>(k := None)) = without (insert k ks) \<rho>"
  by (auto simp: without_def fun_eq_iff)

lemma held_without: "held \<lparr>sh_rows = without ks \<rho>, sh_reg = r\<rparr> \<subseteq> held \<lparr>sh_rows = \<rho>, sh_reg = r'\<rparr>"
  by (auto simp: held_def without_def split: if_splits)

definition releases :: "'b codec \<Rightarrow> bool \<Rightarrow> string \<Rightarrow> 'b \<Rightarrow> bytes \<times> bytes \<Rightarrow> bool" where
  "releases cd f i raw x \<longleftrightarrow>
     (\<exists>r st. dec_chunk cd raw = Some r \<and> bc_stripe r = Some st \<and>
        x = (st_object_id st, if f then as_bytes i else bc_owner r))"

lemma release_rows_drops:
  assumes "codec_ok cd" and "sharing_inv g \<lparr>sh_rows = \<rho>, sh_reg = reg_of cd m changed\<rparr>" and "bt_sorted changed"
    and "distinct (map fst rows)" and "\<forall>(key, raw) \<in> set rows. \<exists>x. \<rho> (t, key) = Some x \<and> releases cd f i raw x"
  shows "\<exists>changed' new. release_rows cd m i f rows changed free = Inr (changed', free @ new) \<and> bt_sorted changed' \<and>
    (let A' = \<lparr>sh_rows = without (Pair t ` fst ` set rows) \<rho>, sh_reg = reg_of cd m changed'\<rparr> in
     sharing_inv g A' \<and> distinct (map st_object_id new) \<and>
     st_object_id ` set new = held \<lparr>sh_rows = \<rho>, sh_reg = reg_of cd m changed\<rparr> - held A')"
  using assms(2-)
proof (induction rows arbitrary: \<rho> changed free)
  case Nil
  then show ?case by simp
next
  case (Cons p rows)
  obtain key raw where p: "p = (key, raw)" by (cases p)
  let ?A = "\<lparr>sh_rows = \<rho>, sh_reg = reg_of cd m changed\<rparr>"
  obtain r st where r: "dec_chunk cd raw = Some r" "bc_stripe r = Some st"
    and row: "\<rho> (t, key) = Some (st_object_id st, if f then as_bytes i else bc_owner r)"
    using Cons.prems(4) p by (auto simp: releases_def)
  obtain fr c1 where rel: "refs_release cd m (st_object_id st) (if f then as_bytes i else bc_owner r) changed = (fr, c1)"
    by force
  let ?A1 = "\<lparr>sh_rows = \<rho>((t, key) := None), sh_reg = reg_of cd m c1\<rparr>"
  have d: "drop_row (t, key) ?A = (fr, ?A1)"
    using row refs_release_reg(1) [OF assms(1) rel] by (simp add: drop_row_def)
  have row': "sh_rows ?A (t, key) = Some (st_object_id st, if f then as_bytes i else bc_owner r)"
    using row by simp
  note drop = drop_row_inv [OF Cons.prems(1) row' d]
  have rest: "\<forall>(key', raw') \<in> set rows. \<exists>x. (\<rho>((t, key) := None)) (t, key') = Some x \<and> releases cd f i raw' x"
    using Cons.prems(3,4) p by force
  have "distinct (map fst rows)" using Cons.prems(3) by simp
  from Cons.IH [OF drop(1) refs_release_reg(2) [OF assms(1) rel Cons.prems(2)] this rest, of "if fr then free @ [st] else free"]
  obtain c2 new where IH: "release_rows cd m i f rows c1 (if fr then free @ [st] else free) =
        Inr (c2, (if fr then free @ [st] else free) @ new)" "bt_sorted c2"
      "sharing_inv g \<lparr>sh_rows = without (Pair t ` fst ` set rows) (\<rho>((t, key) := None)), sh_reg = reg_of cd m c2\<rparr>"
      "distinct (map st_object_id new)"
      "st_object_id ` set new = held ?A1 -
        held \<lparr>sh_rows = without (Pair t ` fst ` set rows) (\<rho>((t, key) := None)), sh_reg = reg_of cd m c2\<rparr>"
    unfolding Let_def by blast
  let ?A2 = "\<lparr>sh_rows = without (Pair t ` fst ` set (p # rows)) \<rho>, sh_reg = reg_of cd m c2\<rparr>"
  have A2: "\<lparr>sh_rows = without (Pair t ` fst ` set rows) (\<rho>((t, key) := None)), sh_reg = reg_of cd m c2\<rparr> = ?A2"
    using p by (simp add: without_upd)
  define new' where "new' = (if fr then st # new else new)"
  have "release_rows cd m i f (p # rows) changed free = Inr (c2, free @ new')"
    using IH(1) r rel p by (simp add: new'_def)
  moreover have sub: "held ?A2 \<subseteq> held ?A1"
    unfolding A2 [symmetric] by (rule held_without)
  have "st_object_id st \<notin> st_object_id ` set new" if fr using that IH(5) drop(3) by simp
  then have "distinct (map st_object_id new')" using IH(4) by (simp add: new'_def)
  moreover have "st_object_id ` set new' = held ?A - held ?A2"
  proof -
    have mem: "st_object_id st \<in> held ?A" using row' unfolding held_def by blast
    have n: "st_object_id ` set new = held ?A1 - held ?A2" using IH(5) A2 by simp
    show ?thesis
    proof (cases fr)
      case True
      then have "held ?A1 = held ?A - {st_object_id st}" using drop(2) by (simp only: if_True)
      moreover from True drop(3) have "st_object_id st \<notin> held ?A1" by blast
      ultimately have "held ?A - held ?A2 = insert (st_object_id st) (held ?A1 - held ?A2)"
        using mem sub by blast
      with n True show ?thesis by (simp add: new'_def)
    next
      case False
      then have "held ?A1 = held ?A" using drop(2) by simp
      with n False show ?thesis by (simp add: new'_def)
    qed
  qed
  moreover have "sharing_inv g ?A2" using IH(3) unfolding A2 .
  ultimately show ?case unfolding Let_def using IH(2) by blast
qed
section \<open>Row operations on the sharing state\<close>

definition row_update ::
  "'b codec \<Rightarrow> 'b block_op \<Rightarrow> (string \<times> string \<Rightarrow> (bytes \<times> bytes) option) \<Rightarrow> string \<times> string \<Rightarrow> (bytes \<times> bytes) option" where
  "row_update cd op \<rho> =
     (if bo_table op \<in> chunk_table_names
      then \<rho>((bo_table op, bo_key op) := Option.bind (bo_new op) (held_by cd)) else \<rho>)"

fun rows_after ::
  "'b codec \<Rightarrow> 'b block_op list \<Rightarrow> (string \<times> string \<Rightarrow> (bytes \<times> bytes) option) \<Rightarrow> string \<times> string \<Rightarrow> (bytes \<times> bytes) option" where
  "rows_after cd [] \<rho> = \<rho>"
| "rows_after cd (op # ops) \<rho> = rows_after cd ops (row_update cd op \<rho>)"

lemma rows_after_append: "rows_after cd (xs @ ys) \<rho> = rows_after cd ys (rows_after cd xs \<rho>)"
  by (induction xs arbitrary: \<rho>) simp_all

lemma rows_after_deletes:
  "t \<in> chunk_table_names \<Longrightarrow> rows_after cd (map (delete_op t) ks) \<rho> = without (Pair t ` set ks) \<rho>"
proof (induction ks arbitrary: \<rho>)
  case (Cons k ks)
  then show ?case by (simp add: row_update_def delete_op_def without_upd)
qed simp

lemma rows_after_op_value:
  "t \<in> chunk_table_names \<Longrightarrow>
     rows_after cd ops (\<lambda>k. if fst k \<in> chunk_table_names then Option.bind (b k) (held_by cd) else None) (t, k) =
     Option.bind (op_value ops t k (b (t, k))) (held_by cd)"
proof (induction ops arbitrary: b)
  case (Cons op ops)
  let ?b = "b((bo_table op, bo_key op) := bo_new op)"
  have "row_update cd op (\<lambda>k. if fst k \<in> chunk_table_names then Option.bind (b k) (held_by cd) else None) =
      (\<lambda>k. if fst k \<in> chunk_table_names then Option.bind (?b k) (held_by cd) else None)"
    by (auto simp: row_update_def fun_eq_iff)
  then show ?case
    using Cons.IH [OF Cons.prems, of ?b] by (simp add: op_value_Cons)
qed simp

lemma rows_after_outside: "t \<notin> chunk_table_names \<Longrightarrow> rows_after cd ops \<rho> (t, k) = \<rho> (t, k)"
  by (induction ops arbitrary: \<rho>) (auto simp: row_update_def)

lemma chunk_table_name_in [simp]: "chunk_table_name tbl \<in> chunk_table_names"
  by (cases tbl) (simp_all add: chunk_table_names_def)

lemma chunk_tables_are_tables: "t \<in> chunk_table_names \<Longrightarrow> t \<in> set TABLES"
  by (auto simp: chunk_table_names_def TABLES_def)

lemma sharing_of_mirrored:
  assumes "mirrored cd (ops @ refs_into_ops cd changed) m m'" and "codec_ok cd"
    and "\<forall>op \<in> set ops. bo_table op \<in> set TABLES" and "bt_sorted changed"
  shows "sharing_of cd m' = \<lparr>sh_rows = rows_after cd ops (rows_of cd m), sh_reg = reg_of cd m changed\<rparr>"
proof -
  note g = mirrored_gets [OF assms]
  have "rows_of cd m' k = rows_after cd ops (rows_of cd m) k" for k
  proof (cases "fst k \<in> chunk_table_names")
    case True
    have eq: "rows_of cd m = (\<lambda>k. if fst k \<in> chunk_table_names then Option.bind (bt_get k (ms_block m)) (held_by cd) else None)"
      by (simp add: rows_of_def fun_eq_iff)
    have "rows_of cd m' k = Option.bind (op_value ops (fst k) (snd k) (bt_get k (ms_block m))) (held_by cd)"
      using True g(1) [OF chunk_tables_are_tables [OF True], of "snd k"] by (simp add: rows_of_def)
    then show ?thesis
      unfolding eq using rows_after_op_value [OF True, of cd ops "\<lambda>k. bt_get k (ms_block m)" "snd k"] by simp
  next
    case False
    then show ?thesis
      using rows_after_outside [OF False, of cd ops "rows_of cd m" "snd k"] by (simp add: rows_of_def)
  qed
  then have "rows_of cd m' = rows_after cd ops (rows_of cd m)" by (rule ext)
  moreover have "reg_of cd m' [] = reg_of cd m changed"
    using g(2) by (simp add: reg_of_def fun_eq_iff refs_get_def [of _ "[]"])
  ultimately show ?thesis by (simp add: sharing_of_def)
qed

section \<open>Sharing rows\<close>

definition share_op :: "'b codec \<Rightarrow> chunk_table \<Rightarrow> string \<Rightarrow> block_chunk_ref \<Rightarrow> 'b block_op" where
  "share_op cd tbl i r =
     put_op (chunk_table_name tbl) (block_chunk_key i (bc_chunk_id r)) (enc_chunk cd (r\<lparr>bc_owner := as_bytes i\<rparr>))"

definition share_target :: "chunk_table \<Rightarrow> string \<Rightarrow> block_chunk_ref \<Rightarrow> string \<times> string" where
  "share_target tbl i r = (chunk_table_name tbl, block_chunk_key i (bc_chunk_id r))"

lemma row_update_share:
  "codec_ok cd \<Longrightarrow> bc_stripe r = Some st \<Longrightarrow>
     row_update cd (share_op cd tbl i r) \<rho> = \<rho>(share_target tbl i r \<mapsto> (st_object_id st, as_bytes i))"
  by (simp add: row_update_def share_op_def put_op_def held_by_def codec_ok_def share_target_def)

text \<open>Row \<open>k\<close> of \<open>\<rho>\<close>, with the record \<open>r\<close>, can be shared: nothing of the target's is on its stripe.\<close>

definition shareable ::
  "(string \<times> string \<Rightarrow> 'g) \<Rightarrow> chunk_table \<Rightarrow> string \<Rightarrow> (string \<times> string \<Rightarrow> (bytes \<times> bytes) option) \<Rightarrow>
     string \<times> string \<Rightarrow> bytes \<Rightarrow> block_chunk_ref \<Rightarrow> bool" where
  "shareable g tbl i \<rho> k ow r \<longleftrightarrow>
     (\<exists>st. bc_stripe r = Some st \<and> \<rho> k = Some (st_object_id st, ow) \<and> \<rho> (share_target tbl i r) = None \<and>
        (\<forall>k1 o1. \<rho> k1 = Some (st_object_id st, o1) \<longrightarrow> o1 \<noteq> as_bytes i \<and> g k1 \<noteq> g (share_target tbl i r)))"

lemma shareable_step:
  assumes "shareable g tbl i \<rho> k ow r" and "bc_stripe r0 = Some st0" and "bc_stripe r = Some st"
    and "st_object_id st \<noteq> st_object_id st0" and "share_target tbl i r \<noteq> share_target tbl i r0"
    and "\<rho> (share_target tbl i r0) = None"
  shows "shareable g tbl i (\<rho>(share_target tbl i r0 \<mapsto> (st_object_id st0, as_bytes i))) k ow r"
  using assms unfolding shareable_def by (auto split: if_splits)

lemma share_rows_shares:
  assumes cd: "codec_ok cd" and "sharing_inv g \<lparr>sh_rows = \<rho>, sh_reg = reg_of cd m changed\<rparr>" and "bt_sorted changed"
    and "list_all2 (\<lambda>(key, raw) r. dec_chunk cd raw = Some r \<and>
           shareable g tbl i \<rho> (t, key) (if f then as_bytes j else bc_owner r) r) rows rs"
    and "distinct (map (share_target tbl i) rs)" and "distinct (map (\<lambda>r. st_object_id (the (bc_stripe r))) rs)"
  shows "\<exists>changed'. share_rows cd m j f tbl i rows changed ops = Inr (changed', ops @ map (share_op cd tbl i) rs) \<and>
    bt_sorted changed' \<and>
    (let A' = \<lparr>sh_rows = rows_after cd (map (share_op cd tbl i) rs) \<rho>, sh_reg = reg_of cd m changed'\<rparr> in
     sharing_inv g A' \<and> held A' = held \<lparr>sh_rows = \<rho>, sh_reg = reg_of cd m changed\<rparr>)"
  using assms(2-)
proof (induction rows arbitrary: \<rho> changed ops rs)
  case Nil
  then show ?case by simp
next
  case (Cons p rows)
  obtain key raw where p: "p = (key, raw)" by (cases p)
  let ?A = "\<lparr>sh_rows = \<rho>, sh_reg = reg_of cd m changed\<rparr>"
  obtain r rs' where rs: "rs = r # rs'" and r: "dec_chunk cd raw = Some r"
    and sh: "shareable g tbl i \<rho> (t, key) (if f then as_bytes j else bc_owner r) r"
    and rest: "list_all2 (\<lambda>(key, raw) r. dec_chunk cd raw = Some r \<and>
           shareable g tbl i \<rho> (t, key) (if f then as_bytes j else bc_owner r) r) rows rs'"
    using Cons.prems(3) p by (auto simp: list_all2_Cons1)
  obtain st where st: "bc_stripe r = Some st"
      and row: "sh_rows ?A (t, key) = Some (st_object_id st, if f then as_bytes j else bc_owner r)"
      and none: "sh_rows ?A (share_target tbl i r) = None"
      and new: "\<And>k1 o1. sh_rows ?A k1 = Some (st_object_id st, o1) \<Longrightarrow> o1 \<noteq> as_bytes i \<and> g k1 \<noteq> g (share_target tbl i r)"
    using sh unfolding shareable_def by auto
  obtain A1 where A1: "share_row (t, key) (share_target tbl i r) (as_bytes i) ?A = Some A1"
      "sharing_inv g A1" "held A1 = held ?A" "sh_rows A1 = (sh_rows ?A)(share_target tbl i r \<mapsto> (st_object_id st, as_bytes i))"
    by (rule share_row_inv [OF Cons.prems(1) row none new])
  then obtain reg1 where reg1: "reg_share (reg_of cd m changed) (st_object_id st) (if f then as_bytes j else bc_owner r) (as_bytes i) = Some reg1"
      "sh_reg A1 = reg1"
    using row by (auto simp: share_row_def)
  obtain c1 where c1: "refs_share cd m (st_object_id st) (if f then as_bytes j else bc_owner r) (as_bytes i) changed = Inr c1"
      "reg_of cd m c1 = reg1" "bt_sorted c1"
    using refs_share_reg [OF cd reg1(1)] Cons.prems(2) by metis
  let ?\<rho>1 = "\<rho>(share_target tbl i r \<mapsto> (st_object_id st, as_bytes i))"
  have A1_eq: "A1 = \<lparr>sh_rows = ?\<rho>1, sh_reg = reg_of cd m c1\<rparr>"
    using A1(4) reg1(2) c1(2) by (cases A1) simp
  have rest': "list_all2 (\<lambda>(key, raw) r. dec_chunk cd raw = Some r \<and>
         shareable g tbl i ?\<rho>1 (t, key) (if f then as_bytes j else bc_owner r) r) rows rs'"
    using rest
  proof (rule list.rel_mono_strong)
    fix q r'
    assume "q \<in> set rows" and r': "r' \<in> set rs'"
      and q: "(\<lambda>(key, raw) r. dec_chunk cd raw = Some r \<and>
           shareable g tbl i \<rho> (t, key) (if f then as_bytes j else bc_owner r) r) q r'"
    obtain key' raw' where q': "q = (key', raw')" by (cases q)
    have "share_target tbl i r' \<noteq> share_target tbl i r"
      using Cons.prems(4) r' rs by (force simp: image_iff)
    moreover obtain st' where "bc_stripe r' = Some st'" using q q' by (auto simp: shareable_def)
    moreover have "st_object_id (the (bc_stripe r')) \<noteq> st_object_id (the (bc_stripe r))"
      using Cons.prems(5) r' rs by (force simp: image_iff)
    ultimately show "(\<lambda>(key, raw) r. dec_chunk cd raw = Some r \<and>
         shareable g tbl i ?\<rho>1 (t, key) (if f then as_bytes j else bc_owner r) r) q r'"
      using q q' st none shareable_step [of g tbl i \<rho> _ _ r' r st] by simp
  qed
  have dist: "distinct (map (share_target tbl i) rs')" "distinct (map (\<lambda>r. st_object_id (the (bc_stripe r))) rs')"
    using Cons.prems(4,5) rs by simp_all
  from Cons.IH [OF A1(2) [unfolded A1_eq] c1(3) rest' dist, of "ops @ [share_op cd tbl i r]"]
  obtain c2 where IH: "share_rows cd m j f tbl i rows c1 (ops @ [share_op cd tbl i r]) =
        Inr (c2, (ops @ [share_op cd tbl i r]) @ map (share_op cd tbl i) rs')" "bt_sorted c2"
      "sharing_inv g \<lparr>sh_rows = rows_after cd (map (share_op cd tbl i) rs') ?\<rho>1, sh_reg = reg_of cd m c2\<rparr>"
      "held \<lparr>sh_rows = rows_after cd (map (share_op cd tbl i) rs') ?\<rho>1, sh_reg = reg_of cd m c2\<rparr> =
       held \<lparr>sh_rows = ?\<rho>1, sh_reg = reg_of cd m c1\<rparr>"
    unfolding Let_def by blast
  have op: "\<lparr>bc_chunk_id = bc_chunk_id r, bc_stripe = Some st, bc_owner = as_bytes i\<rparr> = r\<lparr>bc_owner := as_bytes i\<rparr>"
    using st by simp
  have run: "share_rows cd m j f tbl i (p # rows) changed ops = Inr (c2, ops @ map (share_op cd tbl i) rs)"
    using IH(1) r st c1(1) by (simp add: p rs share_op_def op)
  have after: "rows_after cd (map (share_op cd tbl i) rs) \<rho> = rows_after cd (map (share_op cd tbl i) rs') ?\<rho>1"
    by (simp add: rs row_update_share [OF cd st])
  have "held \<lparr>sh_rows = ?\<rho>1, sh_reg = reg_of cd m c1\<rparr> = held ?A" using A1(3) unfolding A1_eq .
  with IH(2,3,4) run show ?case unfolding Let_def after by (intro exI [of _ c2]) simp
qed
section \<open>Replacing chunks\<close>

definition new_ids :: "chunk_update list \<Rightarrow> bytes list" where
  "new_ids us = List.map_filter (\<lambda>u. map_option st_object_id (cu_stripe u)) us"

definition update_key :: "string \<Rightarrow> chunk_update \<Rightarrow> string \<times> string" where
  "update_key vid u = (CHUNKS, block_chunk_key vid (cu_chunk_id u))"

definition replaced :: "string \<Rightarrow> chunk_update list \<Rightarrow> (string \<times> string \<Rightarrow> (bytes \<times> bytes) option) \<Rightarrow> bytes set" where
  "replaced vid us \<rho> = {s. \<exists>u \<in> set us. \<exists>ow. \<rho> (update_key vid u) = Some (s, ow)}"

lemma new_ids_Cons:
  "new_ids (u # us) = (case cu_stripe u of None \<Rightarrow> new_ids us | Some st \<Rightarrow> st_object_id st # new_ids us)"
  by (simp add: new_ids_def List.map_filter_simps split: option.split)

lemma update_key_inj:
  "nul_free vid \<Longrightarrow> update_key vid u = update_key vid u' \<longleftrightarrow> cu_chunk_id u = cu_chunk_id u'"
  by (simp add: update_key_def block_chunk_key_inj)

text \<open>The first half of an update: the row it replaces lets its stripe go.\<close>

lemma release_current_drops:
  fixes \<rho> :: "string \<times> string \<Rightarrow> (bytes \<times> bytes) option"
  assumes cd: "codec_ok cd" and inv: "sharing_inv g \<lparr>sh_rows = \<rho>, sh_reg = reg_of cd m changed\<rparr>"
    and srt: "bt_sorted changed" and cur: "current_chunk cd vid (cu_chunk_id u) m = Inr c"
    and row: "\<rho> (update_key vid u) = rows_of cd m (update_key vid u)"
    and wf: "\<And>raw. block_get CHUNKS (block_chunk_key vid (cu_chunk_id u)) m = Some raw \<Longrightarrow> held_by cd raw \<noteq> None"
    and rel: "release_current cd m c changed free = (c1, free1)"
  obtains new where "free1 = free @ new" and "bt_sorted c1" and "distinct (map st_object_id new)"
    and "st_object_id ` set new \<subseteq> replaced vid [u] \<rho>"
    and "sharing_inv g \<lparr>sh_rows = \<rho>(update_key vid u := None), sh_reg = reg_of cd m c1\<rparr>"
    and "held \<lparr>sh_rows = \<rho>(update_key vid u := None), sh_reg = reg_of cd m c1\<rparr> =
      held \<lparr>sh_rows = \<rho>, sh_reg = reg_of cd m changed\<rparr> - st_object_id ` set new"
    and "\<forall>s. s \<notin> replaced vid [u] \<rho> \<longrightarrow> reg_of cd m c1 s = reg_of cd m changed s"
proof (cases "block_get CHUNKS (block_chunk_key vid (cu_chunk_id u)) m")
  case None
  then have "c = None" "\<rho> (update_key vid u) = None"
    using cur row by (simp_all add: current_chunk_def rows_of_def update_key_def block_get_def)
  moreover from this have "\<rho>(update_key vid u := None) = \<rho>" by (simp add: fun_upd_idem)
  ultimately show ?thesis
    using rel inv srt by (intro that [of "[]"]) (simp_all add: release_current_def)
next
  case (Some raw)
  then obtain r st where r: "dec_chunk cd raw = Some r" "bc_stripe r = Some st"
    using wf by (fastforce simp: held_by_def split: option.splits)
  then have c: "c = Some r" using cur Some by (simp add: current_chunk_def)
  have rk: "\<rho> (update_key vid u) = Some (st_object_id st, bc_owner r)"
    using row Some r by (simp add: rows_of_def update_key_def block_get_def held_by_def chunk_table_names_def)
  obtain fr c1' where rr: "refs_release cd m (st_object_id st) (bc_owner r) changed = (fr, c1')" by force
  then have c1: "c1' = c1" and free1: "free1 = free @ (if fr then [st] else [])"
    using rel c r by (auto simp: release_current_def)
  note reg = refs_release_reg [OF cd rr [unfolded c1]]
  let ?A = "\<lparr>sh_rows = \<rho>, sh_reg = reg_of cd m changed\<rparr>"
  let ?A1 = "\<lparr>sh_rows = \<rho>(update_key vid u := None), sh_reg = reg_of cd m c1\<rparr>"
  have d: "drop_row (update_key vid u) ?A = (fr, ?A1)" using rk reg(1) by (simp add: drop_row_def)
  have rk': "sh_rows ?A (update_key vid u) = Some (st_object_id st, bc_owner r)" using rk by simp
  note drop = drop_row_inv [OF inv rk' d]
  show ?thesis
  proof (rule that [OF free1 reg(2) [OF srt]])
    show "distinct (map st_object_id (if fr then [st] else []))" by simp
    show "st_object_id ` set (if fr then [st] else []) \<subseteq> replaced vid [u] \<rho>"
      using rk by (auto simp: replaced_def)
    show "sharing_inv g ?A1" by (rule drop(1))
    show "held ?A1 = held ?A - st_object_id ` set (if fr then [st] else [])"
      using drop(2) by (cases fr) simp_all
    show "\<forall>s. s \<notin> replaced vid [u] \<rho> \<longrightarrow> reg_of cd m c1 s = reg_of cd m changed s"
    proof (intro allI impI)
      fix s
      assume "s \<notin> replaced vid [u] \<rho>"
      then have "s \<noteq> st_object_id st" using rk by (auto simp: replaced_def)
      with reg(1) show "reg_of cd m c1 s = reg_of cd m changed s" by (rule reg_release_other)
    qed
  qed
qed

text \<open>The second half: the new stripe, known to nobody else, takes the row, or nothing does.\<close>

lemma update_op_writes:
  assumes cd: "codec_ok cd" and inv: "sharing_inv g \<lparr>sh_rows = \<rho>, sh_reg = reg\<rparr>" and none: "\<rho> (update_key vid u) = None"
    and fresh: "\<And>st. cu_stripe u = Some st \<Longrightarrow> st_object_id st \<notin> held \<lparr>sh_rows = \<rho>, sh_reg = reg\<rparr> \<and> reg (st_object_id st) = None"
    and op: "update_op cd vid u = Inr op"
  shows "sharing_inv g \<lparr>sh_rows = row_update cd op \<rho>, sh_reg = reg\<rparr>"
    and "held \<lparr>sh_rows = row_update cd op \<rho>, sh_reg = reg\<rparr> = held \<lparr>sh_rows = \<rho>, sh_reg = reg\<rparr> \<union> set (new_ids [u])"
    and "row_update cd op \<rho> = \<rho>(update_key vid u := map_option (\<lambda>st. (st_object_id st, st_object_id st)) (cu_stripe u))"
    and "bo_table op = CHUNKS" and "bo_key op = block_chunk_key vid (cu_chunk_id u)"
proof -
  show table: "bo_table op = CHUNKS" and key: "bo_key op = block_chunk_key vid (cu_chunk_id u)"
    using op by (auto simp: update_op_def Let_def put_op_def delete_op_def split: option.splits if_splits)
  have new: "Option.bind (bo_new op) (held_by cd) = map_option (\<lambda>st. (st_object_id st, st_object_id st)) (cu_stripe u)"
    using op cd by (auto simp: update_op_def Let_def put_op_def delete_op_def held_by_def codec_ok_def split: option.splits if_splits)
  show upd: "row_update cd op \<rho> = \<rho>(update_key vid u := map_option (\<lambda>st. (st_object_id st, st_object_id st)) (cu_stripe u))"
    using new by (simp add: row_update_def table key update_key_def chunk_table_names_def)
  show "sharing_inv g \<lparr>sh_rows = row_update cd op \<rho>, sh_reg = reg\<rparr>"
    and "held \<lparr>sh_rows = row_update cd op \<rho>, sh_reg = reg\<rparr> = held \<lparr>sh_rows = \<rho>, sh_reg = reg\<rparr> \<union> set (new_ids [u])"
  proof (atomize (full), cases "cu_stripe u")
    case None
    then have "row_update cd op \<rho> = \<rho>" using upd none by (simp add: fun_upd_idem)
    with inv None show "sharing_inv g \<lparr>sh_rows = row_update cd op \<rho>, sh_reg = reg\<rparr> \<and>
      held \<lparr>sh_rows = row_update cd op \<rho>, sh_reg = reg\<rparr> = held \<lparr>sh_rows = \<rho>, sh_reg = reg\<rparr> \<union> set (new_ids [u])"
      by (simp add: new_ids_Cons) (simp add: new_ids_def List.map_filter_simps)
  next
    case (Some st)
    have "\<lparr>sh_rows = row_update cd op \<rho>, sh_reg = reg\<rparr> = write_new (update_key vid u) (st_object_id st) \<lparr>sh_rows = \<rho>, sh_reg = reg\<rparr>"
      using upd Some by (simp add: write_new_def)
    moreover have "set (new_ids [u]) = {st_object_id st}" using Some by (simp add: new_ids_def List.map_filter_simps)
    ultimately show "sharing_inv g \<lparr>sh_rows = row_update cd op \<rho>, sh_reg = reg\<rparr> \<and>
      held \<lparr>sh_rows = row_update cd op \<rho>, sh_reg = reg\<rparr> = held \<lparr>sh_rows = \<rho>, sh_reg = reg\<rparr> \<union> set (new_ids [u])"
      using write_new_inv [OF inv, of "update_key vid u" "st_object_id st"] fresh [OF Some] none by simp
  qed
qed
lemma replaced_Cons: "replaced vid (u # us) \<rho> = replaced vid [u] \<rho> \<union> replaced vid us \<rho>"
  by (auto simp: replaced_def)

lemma replaced_held: "replaced vid us \<rho> \<subseteq> held \<lparr>sh_rows = \<rho>, sh_reg = reg\<rparr>"
proof
  fix s
  assume "s \<in> replaced vid us \<rho>"
  then obtain u ow where "sh_rows \<lparr>sh_rows = \<rho>, sh_reg = reg\<rparr> (update_key vid u) = Some (s, ow)"
    unfolding replaced_def by auto
  then show "s \<in> held \<lparr>sh_rows = \<rho>, sh_reg = reg\<rparr>" unfolding held_def by blast
qed

lemma new_ids_split: "set (new_ids (u # us)) = set (new_ids [u]) \<union> set (new_ids us)"
  by (simp add: new_ids_Cons split: option.split) (simp add: new_ids_def List.map_filter_simps)

lemma commit_rows_moves:
  fixes \<rho> :: "string \<times> string \<Rightarrow> (bytes \<times> bytes) option"
  assumes cd: "codec_ok cd" and vid: "nul_free vid"
    and "sharing_inv g \<lparr>sh_rows = \<rho>, sh_reg = reg_of cd m changed\<rparr>" and "bt_sorted changed"
    and "distinct (map cu_chunk_id us)" and "\<forall>u \<in> set us. \<rho> (update_key vid u) = rows_of cd m (update_key vid u)"
    and wf: "\<And>key raw. block_get CHUNKS key m = Some raw \<Longrightarrow> held_by cd raw \<noteq> None"
    and "distinct (new_ids us)"
    and "\<forall>s \<in> set (new_ids us). s \<notin> held \<lparr>sh_rows = \<rho>, sh_reg = reg_of cd m changed\<rparr> \<and> reg_of cd m changed s = None"
    and "commit_rows cd m vid us changed ops free = Inr (changed', ops', free')"
  shows "\<exists>rowops new. ops' = ops @ rowops \<and> free' = free @ new \<and> bt_sorted changed' \<and>
    map bo_key rowops = map (\<lambda>u. block_chunk_key vid (cu_chunk_id u)) us \<and> (\<forall>op \<in> set rowops. bo_table op = CHUNKS) \<and>
    distinct (map st_object_id new) \<and> st_object_id ` set new \<subseteq> replaced vid us \<rho> \<and>
    sharing_inv g \<lparr>sh_rows = rows_after cd rowops \<rho>, sh_reg = reg_of cd m changed'\<rparr> \<and>
    held \<lparr>sh_rows = rows_after cd rowops \<rho>, sh_reg = reg_of cd m changed'\<rparr> =
      held \<lparr>sh_rows = \<rho>, sh_reg = reg_of cd m changed\<rparr> - st_object_id ` set new \<union> set (new_ids us)"
  using assms(3-6,8-)
proof (induction us arbitrary: \<rho> changed ops free)
  case Nil
  then show ?case by (auto simp: new_ids_def List.map_filter_simps)
next
  case (Cons u us)
  let ?A = "\<lparr>sh_rows = \<rho>, sh_reg = reg_of cd m changed\<rparr>"
  obtain c where c: "current_chunk cd vid (cu_chunk_id u) m = Inr c" "current_id c = cu_expected_object_id u"
    using Cons.prems(7) by (auto simp: and_then_eq_Inr_iff split: if_splits)
  obtain c1 free1 where rel: "release_current cd m c changed free = (c1, free1)" by force
  obtain op where op: "update_op cd vid u = Inr op"
    and run: "commit_rows cd m vid us c1 (ops @ [op]) free1 = Inr (changed', ops', free')"
    using Cons.prems(7) c rel by (auto simp: and_then_eq_Inr_iff)
  have row: "\<rho> (update_key vid u) = rows_of cd m (update_key vid u)" using Cons.prems(4) by simp
  have wfu: "held_by cd raw \<noteq> None" if "block_get CHUNKS (block_chunk_key vid (cu_chunk_id u)) m = Some raw" for raw
    using that by (rule wf)
  from release_current_drops [OF cd Cons.prems(1,2) c(1) row wfu rel]
  obtain new1 where n1: "free1 = free @ new1" "bt_sorted c1" "distinct (map st_object_id new1)"
      "st_object_id ` set new1 \<subseteq> replaced vid [u] \<rho>"
      "sharing_inv g \<lparr>sh_rows = \<rho>(update_key vid u := None), sh_reg = reg_of cd m c1\<rparr>"
      "held \<lparr>sh_rows = \<rho>(update_key vid u := None), sh_reg = reg_of cd m c1\<rparr> = held ?A - st_object_id ` set new1"
      "\<forall>s. s \<notin> replaced vid [u] \<rho> \<longrightarrow> reg_of cd m c1 s = reg_of cd m changed s"
    by metis
  have not_held: "s \<notin> held ?A" "reg_of cd m c1 s = None" if "s \<in> set (new_ids (u # us))" for s
  proof -
    show "s \<notin> held ?A" using Cons.prems(6) that by blast
    then have "s \<notin> replaced vid [u] \<rho>" using replaced_held by blast
    with n1(7) Cons.prems(6) that show "reg_of cd m c1 s = None" by simp
  qed
  let ?\<rho>0 = "\<rho>(update_key vid u := None)"
  let ?\<rho>1 = "row_update cd op ?\<rho>0"
  have fresh: "st_object_id st \<notin> held \<lparr>sh_rows = ?\<rho>0, sh_reg = reg_of cd m c1\<rparr> \<and> reg_of cd m c1 (st_object_id st) = None"
    if "cu_stripe u = Some st" for st
  proof -
    have "st_object_id st \<in> set (new_ids (u # us))" using that by (simp add: new_ids_Cons)
    from not_held [OF this] n1(6) show ?thesis by simp
  qed
  have "?\<rho>0 (update_key vid u) = None" by simp
  note w = update_op_writes [OF cd n1(5) this fresh op]
  let ?A1 = "\<lparr>sh_rows = ?\<rho>1, sh_reg = reg_of cd m c1\<rparr>"
  have other: "?\<rho>1 (update_key vid u') = \<rho> (update_key vid u')" if "u' \<in> set us" for u'
  proof -
    have "update_key vid u' \<noteq> update_key vid u"
      using that Cons.prems(3) by (simp add: update_key_inj [OF vid]) (metis imageI)
    then show ?thesis by (simp add: w(3))
  qed
  have rows1: "\<forall>u' \<in> set us. ?\<rho>1 (update_key vid u') = rows_of cd m (update_key vid u')"
    using other Cons.prems(4) by simp
  have held1: "held ?A1 = held ?A - st_object_id ` set new1 \<union> set (new_ids [u])" using w(2) n1(6) by simp
  have disj: "set (new_ids [u]) \<inter> set (new_ids us) = {}" and dist: "distinct (new_ids us)"
    using Cons.prems(5) by (auto simp: new_ids_Cons split: option.splits) (auto simp: new_ids_def List.map_filter_simps)
  have fresh1: "\<forall>s \<in> set (new_ids us). s \<notin> held ?A1 \<and> reg_of cd m c1 s = None"
  proof
    fix s
    assume s: "s \<in> set (new_ids us)"
    then have "s \<in> set (new_ids (u # us))" by (simp add: new_ids_split [of u us])
    from not_held [OF this] s disj held1 show "s \<notin> held ?A1 \<and> reg_of cd m c1 s = None" by blast
  qed
  have "distinct (map cu_chunk_id us)" using Cons.prems(3) by simp
  from Cons.IH [OF w(1) n1(2) this rows1 dist fresh1 run]
  obtain rowops new where IH: "ops' = (ops @ [op]) @ rowops" "free' = free1 @ new" "bt_sorted changed'"
      "map bo_key rowops = map (\<lambda>u. block_chunk_key vid (cu_chunk_id u)) us" "\<forall>op \<in> set rowops. bo_table op = CHUNKS"
      "distinct (map st_object_id new)" "st_object_id ` set new \<subseteq> replaced vid us ?\<rho>1"
      "sharing_inv g \<lparr>sh_rows = rows_after cd rowops ?\<rho>1, sh_reg = reg_of cd m changed'\<rparr>"
      "held \<lparr>sh_rows = rows_after cd rowops ?\<rho>1, sh_reg = reg_of cd m changed'\<rparr> =
        held ?A1 - st_object_id ` set new \<union> set (new_ids us)"
    by blast
  have repl: "replaced vid us ?\<rho>1 = replaced vid us \<rho>" using other by (simp add: replaced_def)
  have old: "st_object_id ` set new \<subseteq> held ?A" using IH(7) repl replaced_held by blast
  have u_new: "set (new_ids [u]) \<inter> held ?A = {}"
    using not_held(1) by (auto simp: new_ids_split [of u us])
  have after: "rows_after cd (op # rowops) \<rho> = rows_after cd rowops ?\<rho>1"
    by (simp add: row_update_def w(4,5) update_key_def chunk_table_names_def)
  show ?case
  proof (intro exI [of _ "op # rowops"] exI [of _ "new1 @ new"] conjI)
    show "ops' = ops @ op # rowops" "free' = free @ new1 @ new" "bt_sorted changed'" using IH n1(1) by simp_all
    show "map bo_key (op # rowops) = map (\<lambda>u. block_chunk_key vid (cu_chunk_id u)) (u # us)" using IH(4) w(5) by simp
    show "\<forall>op \<in> set (op # rowops). bo_table op = CHUNKS" using IH(5) w(4) by simp
    have "st_object_id ` set new \<subseteq> held ?A1"
      using IH(7) replaced_held by blast
    then have "st_object_id ` set new1 \<inter> st_object_id ` set new = {}" using held1 old u_new by blast
    then show "distinct (map st_object_id (new1 @ new))" using n1(3) IH(6) by simp
    show "st_object_id ` set (new1 @ new) \<subseteq> replaced vid (u # us) \<rho>"
      using n1(4) IH(7) repl by (auto simp: replaced_Cons [of vid u us])
    show "sharing_inv g \<lparr>sh_rows = rows_after cd (op # rowops) \<rho>, sh_reg = reg_of cd m changed'\<rparr>"
      unfolding after by (rule IH(8))
    show "held \<lparr>sh_rows = rows_after cd (op # rowops) \<rho>, sh_reg = reg_of cd m changed'\<rparr> =
        held ?A - st_object_id ` set (new1 @ new) \<union> set (new_ids (u # us))"
      unfolding after IH(9) held1 new_ids_split [of u us] using old u_new by auto
  qed
qed

end
