(* ===== verification/Meta_Invariant.thy ===== *)
theory Meta_Invariant
  imports Meta_Sharing
begin

text \<open>
  The invariant of the meta service's block state, kept by every handler however its Raft writes
  end: the caches are in step with the replicated store, every row decodes and says what its key
  says, and the registry is exact (\<open>Stripe_Sharing\<close>).
\<close>

section \<open>In step with the store\<close>

definition in_sync :: "'b codec \<Rightarrow> 'b meta_service \<Rightarrow> bool" where
  "in_sync cd m \<longleftrightarrow>
     ms_mode m = Raft_mode \<and>
     (\<forall>t \<in> set TABLES. \<forall>k. bt_get (t, k) (ms_store m) = bt_get (t, k) (ms_block m)) \<and>
     (\<forall>k. bt_get (STRIPE_REFS, k) (ms_store m) = map_option (enc_refs cd) (bt_get k (ms_refs m)))"

text \<open>The operations handlers commit: rows of the block tables, and encoded registry entries.\<close>

definition plain_op :: "'b codec \<Rightarrow> 'b block_op \<Rightarrow> bool" where
  "plain_op cd op \<longleftrightarrow>
     bo_table op \<in> set TABLES \<or>
     bo_table op = STRIPE_REFS \<and> (\<exists>v. bo_new op = map_option (enc_refs cd) v)"

lemma refs_ops_plain: "op \<in> set (refs_into_ops cd changed) \<Longrightarrow> plain_op cd op"
  by (auto simp: refs_into_ops_def plain_op_def)

lemma row_after_cas: "row_after (map (\<lambda>op. cas_of cd op m) ops) (t, k) old = op_value ops t k old"
proof (induction ops rule: rev_induct)
  case (snoc op ops)
  then show ?case
    by (auto simp: op_value_snoc row_after_def cas_of_def co_row_def)
qed (simp add: row_after_def)

lemma mirror_refs_op_value:
  assumes "codec_ok cd" and "\<forall>op \<in> set ops. plain_op cd op"
  shows "map_option (enc_refs cd) (bt_get k (ms_refs (mirror_ops cd ops m))) =
    op_value ops STRIPE_REFS k (map_option (enc_refs cd) (bt_get k (ms_refs m)))"
  using assms(2)
proof (induction ops arbitrary: m)
  case (Cons op ops)
  have "map_option (enc_refs cd) (bt_get k (ms_refs (mirror_op cd op m))) =
      (if bo_table op = STRIPE_REFS \<and> bo_key op = k then bo_new op else map_option (enc_refs cd) (bt_get k (ms_refs m)))"
  proof (cases "bo_table op = STRIPE_REFS")
    case True
    then obtain v where "bo_new op = map_option (enc_refs cd) v"
      using Cons.prems STRIPE_REFS_table(1) by (auto simp: plain_op_def)
    then show ?thesis
      using True assms(1) by (cases v) (auto simp: mirror_op_def apply_stripe_refs_event_def codec_ok_def)
  qed (simp add: mirror_op_def apply_block_event_def)
  with Cons show ?case by (simp add: op_value_Cons)
qed simp

lemma in_sync_applied:
  assumes cd: "codec_ok cd" and sync: "in_sync cd m" and plain: "\<forall>op \<in> set ops. plain_op cd op"
    and m1: "ms_block m1 = ms_block m" "ms_refs m1 = ms_refs m" "ms_mode m1 = ms_mode m"
      "ms_store m1 = write_ops (map (\<lambda>op. cas_of cd op m) ops) (ms_store m)"
  shows "in_sync cd (mirror_ops cd ops m1)" and "in_sync cd (mirror_ops cd ops (mirror_ops cd ops m1))"
proof -
  have store: "bt_get (t, k) (ms_store m1) = op_value ops t k (bt_get (t, k) (ms_store m))" for t k
    by (simp add: m1(4) bt_get_write_ops row_after_cas)
  show "in_sync cd (mirror_ops cd ops m1)" "in_sync cd (mirror_ops cd ops (mirror_ops cd ops m1))"
    using sync
    by (auto simp: in_sync_def mirror_block_get mirror_refs_op_value [OF cd plain] store m1(1-3) op_value_twice)
qed

lemma cas_expected:
  assumes "in_sync cd m" and "plain_op cd op"
  shows "bt_get (co_row (cas_of cd op m)) (ms_store m) = co_expected (cas_of cd op m)"
proof (cases "bo_table op = STRIPE_REFS")
  case True
  then show ?thesis using assms by (simp add: in_sync_def cas_of_def co_row_def expected_of_def)
next
  case False
  then have "bo_table op \<in> set TABLES" using assms(2) by (auto simp: plain_op_def)
  with False assms(1) show ?thesis
    by (simp add: in_sync_def cas_of_def co_row_def expected_of_def block_get_def)
qed

lemma block_commit_in_sync:
  assumes cd: "codec_ok cd" and sync: "in_sync cd m" and plain: "\<forall>op \<in> set ops. plain_op cd op"
    and run: "block_commit cd ops m = (r, m')"
  shows "in_sync cd m'" and "r \<noteq> Inr False"
proof -
  let ?cas = "map (\<lambda>op. cas_of cd op m) ops"
  have match: "list_all (\<lambda>op. bt_get (co_row op) (ms_store m) = co_expected op) ?cas"
    using cas_expected [OF sync] plain by (simp add: list_all_iff)
  have mode: "ms_mode m = Raft_mode" using sync by (simp add: in_sync_def)
  have rest: "in_sync cd (m\<lparr>ms_raft := x\<rparr>)" for x using sync by (simp add: in_sync_def)
  have "in_sync cd m' \<and> r \<noteq> Inr False"
  proof (cases "multi_cas_refusal ?cas")
    case (Some x)
    then have "apply_command (\<lambda>_. False) ?cas (ms_store m) = (Rejected x, ms_store m)"
      by (simp add: apply_command_def)
    then show ?thesis
      using run mode sync rest
      by (auto simp: block_commit_def client_write_def Let_def split: if_splits list.splits raft_result.splits)
  next
    case None
    have "apply_command (\<lambda>_. False) ?cas (ms_store m) = (MultiCasOk, write_ops ?cas (ms_store m))"
      by (rule apply_command_ok [OF None _ match]) simp
    then show ?thesis
      using run mode sync rest
        in_sync_applied [OF cd sync plain, of "m\<lparr>ms_raft := tl (ms_raft m), ms_store := write_ops ?cas (ms_store m)\<rparr>"]
      by (auto simp: block_commit_def client_write_def Let_def split: if_splits list.splits raft_result.splits bool.splits)
  qed
  then show "in_sync cd m'" and "r \<noteq> Inr False" by blast+
qed

lemma block_retry_step:
  "block_retry cd build m =
     (case build m of
        Inl e \<Rightarrow> (Inl e, m)
      | Inr (ops, out) \<Rightarrow>
          (case block_commit cd ops m of
             (Inl e, m') \<Rightarrow> (Inl e, m')
           | (Inr done, m') \<Rightarrow> if done then (Inr out, m') else block_retry_n 7 cd build m'))"
proof -
  have n: "(8 :: nat) = Suc 7" by simp
  show ?thesis unfolding block_retry_def n block_retry_n.simps by (rule refl)
qed

text \<open>In step with the store, a build is committed at the first attempt, or an error answers it.\<close>

lemma block_retry_in_sync:
  assumes "codec_ok cd" and "in_sync cd m" and "build m = Inr (ops, out)" and "\<forall>op \<in> set ops. plain_op cd op"
    and "block_retry cd build m = (r, m')"
  shows "in_sync cd m'"
    and "case r of Inr out' \<Rightarrow> out' = out \<and> mirrored cd ops m m'
         | Inl e \<Rightarrow> mirrored cd ops m m' \<or> same_caches m m'"
proof -
  obtain r1 m1 where c: "block_commit cd ops m = (r1, m1)" by force
  note s = block_commit_in_sync [OF assms(1,2,4) c]
  have "(case r1 of Inl e \<Rightarrow> (Inl e, m1) | Inr done \<Rightarrow> (Inr out, m1)) = (r, m')"
    using assms(3,5) c s(2) unfolding block_retry_step by (auto split: sum.splits if_splits)
  then show "in_sync cd m'" and "case r of Inr out' \<Rightarrow> out' = out \<and> mirrored cd ops m m'
         | Inl e \<Rightarrow> mirrored cd ops m m' \<or> same_caches m m'"
    using s block_commit_caches [OF c] by (auto split: sum.splits if_splits)
qed
section \<open>Rows\<close>

definition chunk_row_ok :: "'b codec \<Rightarrow> chunk_table \<Rightarrow> string \<Rightarrow> 'b \<Rightarrow> bool" where
  "chunk_row_ok cd tbl key raw \<longleftrightarrow>
     (\<exists>i r st. nul_free i \<and> key = block_chunk_key i (bc_chunk_id r) \<and> bc_chunk_id r < 2 ^ 64 \<and>
        dec_chunk cd raw = Some r \<and> bc_stripe r = Some st \<and>
        (bc_owner r = as_bytes i \<or> tbl = Volume_chunks \<and> bc_owner r = st_object_id st))"

definition volume_row_ok :: "'b codec \<Rightarrow> string \<Rightarrow> 'b \<Rightarrow> bool" where
  "volume_row_ok cd key raw \<longleftrightarrow> nul_free key \<and> (\<exists>v. dec_volume cd raw = Some v \<and> mv_volume_id v = key)"

definition snapshot_row_ok :: "'b codec \<Rightarrow> string \<Rightarrow> 'b \<Rightarrow> bool" where
  "snapshot_row_ok cd key raw \<longleftrightarrow> nul_free key \<and> (\<exists>s. dec_snapshot cd raw = Some s \<and> mp_snapshot_id s = key)"

text \<open>A row of a block table as its table wants it; the name table takes any row.\<close>

definition row_ok :: "'b codec \<Rightarrow> string \<Rightarrow> string \<Rightarrow> 'b \<Rightarrow> bool" where
  "row_ok cd t key raw \<longleftrightarrow>
     (t = CHUNKS \<longrightarrow> chunk_row_ok cd Volume_chunks key raw) \<and>
     (t = SNAP_CHUNKS \<longrightarrow> chunk_row_ok cd Snapshot_chunks key raw) \<and>
     (t = VOLUMES \<longrightarrow> volume_row_ok cd key raw) \<and>
     (t = SNAPSHOTS \<longrightarrow> snapshot_row_ok cd key raw)"

definition rows_ok :: "'b codec \<Rightarrow> 'b meta_service \<Rightarrow> bool" where
  "rows_ok cd m \<longleftrightarrow>
     bt_sorted (ms_block m) \<and> (\<forall>t \<in> set TABLES. \<forall>key raw. block_get t key m = Some raw \<longrightarrow> row_ok cd t key raw)"

definition meta_inv :: "'b codec \<Rightarrow> 'b meta_service \<Rightarrow> bool" where
  "meta_inv cd m \<longleftrightarrow> rows_ok cd m \<and> in_sync cd m \<and> sharing_inv row_group (sharing_of cd m)"

lemma meta_invD:
  assumes "meta_inv cd m"
  shows "rows_ok cd m" and "in_sync cd m" and "sharing_inv row_group (sharing_of cd m)"
  using assms by (simp_all add: meta_inv_def)

lemma table_neq [simp]:
  "VOLUMES \<noteq> NAMES" "VOLUMES \<noteq> CHUNKS" "VOLUMES \<noteq> SNAPSHOTS" "VOLUMES \<noteq> SNAP_CHUNKS"
  "NAMES \<noteq> VOLUMES" "NAMES \<noteq> CHUNKS" "NAMES \<noteq> SNAPSHOTS" "NAMES \<noteq> SNAP_CHUNKS"
  "CHUNKS \<noteq> VOLUMES" "CHUNKS \<noteq> NAMES" "CHUNKS \<noteq> SNAPSHOTS" "CHUNKS \<noteq> SNAP_CHUNKS"
  "SNAPSHOTS \<noteq> VOLUMES" "SNAPSHOTS \<noteq> NAMES" "SNAPSHOTS \<noteq> CHUNKS" "SNAPSHOTS \<noteq> SNAP_CHUNKS"
  "SNAP_CHUNKS \<noteq> VOLUMES" "SNAP_CHUNKS \<noteq> NAMES" "SNAP_CHUNKS \<noteq> CHUNKS" "SNAP_CHUNKS \<noteq> SNAPSHOTS"
  by (simp_all add: VOLUMES_def NAMES_def CHUNKS_def SNAPSHOTS_def SNAP_CHUNKS_def)

lemma tables_in [simp]:
  "VOLUMES \<in> set TABLES" "NAMES \<in> set TABLES" "CHUNKS \<in> set TABLES" "SNAPSHOTS \<in> set TABLES" "SNAP_CHUNKS \<in> set TABLES"
  by (simp_all add: TABLES_def)

lemma rows_okD: "rows_ok cd m \<Longrightarrow> t \<in> set TABLES \<Longrightarrow> block_get t key m = Some raw \<Longrightarrow> row_ok cd t key raw"
  unfolding rows_ok_def by blast

lemma chunk_row_okI:
  assumes "rows_ok cd m" and "block_get (chunk_table_name tbl) key m = Some raw"
  shows "chunk_row_ok cd tbl key raw"
  using rows_okD [OF assms(1) STRIPE_REFS_table(3) assms(2)] by (cases tbl) (simp_all add: row_ok_def)

lemma volume_found:
  assumes "rows_ok cd m" and "meta_get_volume cd i m = Inr v"
  shows "mv_volume_id v = i" and "nul_free i" and "block_get VOLUMES i m \<noteq> None"
proof -
  obtain raw where raw: "block_get VOLUMES i m = Some raw" "dec_volume cd raw = Some v"
    using assms(2) by (auto simp: meta_get_volume_def split: option.splits)
  have "volume_row_ok cd i raw" using rows_okD [OF assms(1) _ raw(1)] by (simp add: row_ok_def)
  with raw show "mv_volume_id v = i" "nul_free i" "block_get VOLUMES i m \<noteq> None"
    by (auto simp: volume_row_ok_def)
qed

lemma snapshot_found:
  assumes "rows_ok cd m" and "meta_get_snapshot cd i m = Inr s"
  shows "mp_snapshot_id s = i" and "nul_free i" and "block_get SNAPSHOTS i m \<noteq> None"
proof -
  obtain raw where raw: "block_get SNAPSHOTS i m = Some raw" "dec_snapshot cd raw = Some s"
    using assms(2) by (auto simp: meta_get_snapshot_def split: option.splits)
  have "snapshot_row_ok cd i raw" using rows_okD [OF assms(1) _ raw(1)] by (simp add: row_ok_def)
  with raw show "mp_snapshot_id s = i" "nul_free i" "block_get SNAPSHOTS i m \<noteq> None"
    by (auto simp: snapshot_row_ok_def)
qed

section \<open>Committing well-formed rows\<close>

definition op_ok :: "'b codec \<Rightarrow> 'b block_op \<Rightarrow> bool" where
  "op_ok cd op \<longleftrightarrow>
     bo_table op \<in> set TABLES \<and> (\<forall>raw. bo_new op = Some raw \<longrightarrow> row_ok cd (bo_table op) (bo_key op) raw)"

lemma op_value_cases:
  assumes "op_value ops t k old = Some raw"
  obtains "old = Some raw" | op where "op \<in> set ops" and "bo_table op = t" and "bo_key op = k" and "bo_new op = Some raw"
proof (cases "find (\<lambda>op. bo_table op = t \<and> bo_key op = k) (rev ops)")
  case None
  then show ?thesis using assms that(1) by (simp add: op_value_def)
next
  case (Some op)
  then have "op \<in> set ops" "bo_table op = t \<and> bo_key op = k"
    using find_Some_iff [of "\<lambda>op. bo_table op = t \<and> bo_key op = k" "rev ops" op]
    by (metis nth_mem set_rev, metis)
  with Some assms that(2) show ?thesis by (simp add: op_value_def)
qed

text \<open>
  What a commit leaves: the state \<open>m'\<close> has the caches of \<open>m\<close> with the row operations and the
  registry changes applied.
\<close>

definition committed :: "'b codec \<Rightarrow> 'b block_op list \<Rightarrow> refs_changed \<Rightarrow> 'b meta_service \<Rightarrow> 'b meta_service \<Rightarrow> bool" where
  "committed cd ops changed m m' \<longleftrightarrow>
     (\<forall>t \<in> set TABLES. \<forall>k. block_get t k m' = op_value ops t k (block_get t k m)) \<and>
     sharing_of cd m' = \<lparr>sh_rows = rows_after cd ops (rows_of cd m), sh_reg = reg_of cd m changed\<rparr>"

lemma rows_ok_same: "same_caches m m' \<Longrightarrow> rows_ok cd m' \<longleftrightarrow> rows_ok cd m"
  by (simp add: rows_ok_def same_caches_def block_get_def)

lemma sharing_of_same: "same_caches m m' \<Longrightarrow> sharing_of cd m' = sharing_of cd m"
  by (simp add: sharing_of_def same_caches_def rows_of_def reg_of_def refs_get_def fun_eq_iff)

lemma retry_inv:
  assumes cd: "codec_ok cd" and inv: "meta_inv cd m" and build: "build m = Inr (ops @ refs_into_ops cd changed, out)"
    and ops: "\<forall>op \<in> set ops. op_ok cd op" and srt: "bt_sorted changed"
    and share: "sharing_inv row_group \<lparr>sh_rows = rows_after cd ops (rows_of cd m), sh_reg = reg_of cd m changed\<rparr>"
    and run: "block_retry cd build m = (r, m')"
  shows "meta_inv cd m'"
    and "case r of Inr out' \<Rightarrow> out' = out \<and> committed cd ops changed m m'
         | Inl e \<Rightarrow> committed cd ops changed m m' \<or> same_caches m m'"
proof -
  note i = meta_invD [OF inv]
  have tables: "\<forall>op \<in> set ops. bo_table op \<in> set TABLES" using ops by (simp add: op_ok_def)
  then have plain: "\<forall>op \<in> set (ops @ refs_into_ops cd changed). plain_op cd op"
    using refs_ops_plain unfolding set_append plain_op_def by blast
  note s = block_retry_in_sync [OF cd i(2) build plain run]
  have mir: "committed cd ops changed m m' \<and> meta_inv cd m'" if "mirrored cd (ops @ refs_into_ops cd changed) m m'"
  proof -
    note g = mirrored_gets [OF that cd tables srt] and so = sharing_of_mirrored [OF that cd tables srt]
    have c: "committed cd ops changed m m'" using g(1) so by (simp add: committed_def block_get_def)
    moreover have "rows_ok cd m'"
    proof -
      have "row_ok cd t key raw" if t: "t \<in> set TABLES" and raw: "block_get t key m' = Some raw" for t key raw
      proof -
        from c t raw have "op_value ops t key (block_get t key m) = Some raw" by (simp add: committed_def)
        then show ?thesis
        proof (rule op_value_cases)
          assume "block_get t key m = Some raw"
          then show ?thesis by (rule rows_okD [OF i(1) t])
        next
          fix op
          assume "op \<in> set ops" "bo_table op = t" "bo_key op = key" "bo_new op = Some raw"
          then show ?thesis using ops unfolding op_ok_def by blast
        qed
      qed
      then show ?thesis using g(4) i(1) by (simp add: rows_ok_def)
    qed
    ultimately show ?thesis using s(1) share so by (simp add: meta_inv_def)
  qed
  have same: "meta_inv cd m'" if "same_caches m m'"
    using that s(1) i by (simp add: meta_inv_def rows_ok_same sharing_of_same)
  show "meta_inv cd m'" using s(2) mir same by (auto split: sum.splits)
  show "case r of Inr out' \<Rightarrow> out' = out \<and> committed cd ops changed m m'
         | Inl e \<Rightarrow> committed cd ops changed m m' \<or> same_caches m m'"
    using s(2) mir by (auto split: sum.splits)
qed

text \<open>A build that refuses leaves everything; one that has nothing to write succeeds.\<close>

lemma retry_refused: "build m = Inl e \<Longrightarrow> block_retry cd build m = (Inl e, m)"
  by (simp add: block_retry_step)

lemma retry_nothing: "build m = Inr ([], out) \<Longrightarrow> block_retry cd build m = (Inr out, m)"
  by (simp add: block_retry_step block_commit_def)
section \<open>Scans of a chunk table\<close>

lemma set_table_rows: "(k, v) \<in> set (table_rows t rows) \<longleftrightarrow> ((t, k), v) \<in> set rows"
  by (force simp: table_rows_def)

lemma table_rows_sorted: "bt_sorted rows \<Longrightarrow> sorted_wrt (<) (map fst (table_rows t rows))"
proof (induction rows)
  case (Cons p rows)
  obtain t' k v where p: "p = ((t', k), v)" by (metis prod.exhaust)
  have "bt_sorted rows" using Cons.prems by (simp add: bt_sorted_def)
  moreover have "k < k'" if "t' = t" "(k', v') \<in> set (table_rows t rows)" for k' v'
    using Cons.prems that p by (auto simp: bt_sorted_def set_table_rows less_prod_def)
  ultimately show ?case using Cons.IH p by (force simp: table_rows_def)
qed (simp add: table_rows_def)

lemma chunks_of_sorted: "bt_sorted rows \<Longrightarrow> sorted_wrt (<) (map fst (chunks_of t i a b rows))"
  using table_rows_sorted [of rows t]
  by (simp add: chunks_of_def Let_def sorted_wrt_map sorted_wrt_filter)

lemma chunks_of_distinct: "bt_sorted rows \<Longrightarrow> distinct (map fst (chunks_of t i a b rows))"
  using chunks_of_sorted strict_sorted_iff by blast

lemma chunks_of_iff:
  assumes ok: "rows_ok cd m" and i: "nul_free i" and s: "start < 2 ^ 64" and e: "end' < 2 ^ 64"
  shows "(key, raw) \<in> set (chunks_of (chunk_table_name tbl) i start end' (ms_block m)) \<longleftrightarrow>
    block_get (chunk_table_name tbl) key m = Some raw \<and>
    (\<exists>c. key = block_chunk_key i c \<and> c < 2 ^ 64 \<and> in_chunk_range start end' c)"
proof -
  have "bt_sorted (ms_block m)" using ok by (simp add: rows_ok_def)
  then have get: "(key, raw) \<in> set (table_rows (chunk_table_name tbl) (ms_block m)) \<longleftrightarrow>
      block_get (chunk_table_name tbl) key m = Some raw"
    by (simp add: set_table_rows block_get_def bt_get_items)
  have range: "block_chunk_key i start \<le> key \<and> key < (if end' = u64_max then i @ [CHR 0x01] else block_chunk_key i end') \<longleftrightarrow>
      (\<exists>c. key = block_chunk_key i c \<and> c < 2 ^ 64 \<and> in_chunk_range start end' c)"
    if raw: "block_get (chunk_table_name tbl) key m = Some raw"
  proof -
    obtain j c where key: "nul_free j" "key = block_chunk_key j c" "c < 2 ^ 64"
      using chunk_row_okI [OF ok raw] unfolding chunk_row_ok_def by blast
    show ?thesis
      unfolding key(2) using chunk_range_keys [OF i key(1,3) s e] block_chunk_key_inj [OF key(1) i] key(3)
      by auto
  qed
  show ?thesis
    using get range by (auto simp: chunks_of_def Let_def)
qed

lemma u64_max_range: "u64_max < 2 ^ 64" "in_chunk_range 0 u64_max c"
  by (simp_all add: u64_max_def in_chunk_range_def)

lemma all_chunks_iff:
  assumes ok: "rows_ok cd m" and i: "nul_free i"
  shows "(key, raw) \<in> set (chunks_of (chunk_table_name tbl) i 0 u64_max (ms_block m)) \<longleftrightarrow>
    block_get (chunk_table_name tbl) key m = Some raw \<and> row_id key = i"
proof -
  have "(\<exists>c. key = block_chunk_key i c \<and> c < 2 ^ 64) \<longleftrightarrow> row_id key = i"
    if raw: "block_get (chunk_table_name tbl) key m = Some raw"
  proof -
    obtain j c where "nul_free j" "key = block_chunk_key j c" "c < 2 ^ 64"
      using chunk_row_okI [OF ok raw] unfolding chunk_row_ok_def by blast
    then show ?thesis using i by (metis row_id_chunk_key)
  qed
  moreover have "(0 :: nat) < 2 ^ 64" by simp
  ultimately show ?thesis
    using chunks_of_iff [OF ok i _ u64_max_range(1), of 0 key raw tbl] u64_max_range(2) by blast
qed

end
