(* ===== verification/Meta_Handlers.thy ===== *)
theory Meta_Handlers
  imports Meta_Invariant
begin

text \<open>
  Every handler of the block metadata keeps the invariant, whether it succeeds or fails half way,
  and what it reports as free is exactly what no row holds any longer: volumes, chunk commits and
  the two deletes. Snapshots and clones are in \<^verbatim>\<open>Meta_Snapshots\<close>.
\<close>

section \<open>Writes of other rows\<close>

lemma rows_after_other: "\<forall>op \<in> set ops. bo_table op \<notin> chunk_table_names \<Longrightarrow> rows_after cd ops \<rho> = \<rho>"
  by (induction ops arbitrary: \<rho>) (auto simp: row_update_def)

lemma refs_into_ops_Nil [simp]: "refs_into_ops cd [] = []"
  by (simp add: refs_into_ops_def)

lemma retry_plain_rows:
  assumes cd: "codec_ok cd" and inv: "meta_inv cd m" and build: "build m = Inr (ops, out)"
    and ops: "\<forall>op \<in> set ops. op_ok cd op \<and> bo_table op \<notin> chunk_table_names"
    and run: "block_retry cd build m = (r, m')"
  shows "meta_inv cd m'" and "sharing_of cd m' = sharing_of cd m"
    and "r = Inr out' \<Longrightarrow> out' = out"
    and "t \<in> chunk_table_names \<Longrightarrow> block_get t k m' = block_get t k m"
    and "r = Inr out' \<Longrightarrow> t \<in> set TABLES \<Longrightarrow> block_get t k m' = op_value ops t k (block_get t k m)"
proof -
  have build': "build m = Inr (ops @ refs_into_ops cd [], out)" using build by simp
  have ok: "\<forall>op \<in> set ops. op_ok cd op" and none: "\<forall>op \<in> set ops. bo_table op \<notin> chunk_table_names"
    using ops by auto
  have share: "sharing_inv row_group \<lparr>sh_rows = rows_after cd ops (rows_of cd m), sh_reg = reg_of cd m []\<rparr>"
    using meta_invD(3) [OF inv] by (simp add: rows_after_other [OF none] sharing_of_def)
  note r = retry_inv [OF cd inv build' ok bt_sorted_Nil share run]
  show "meta_inv cd m'" by (rule r(1))
  have com: "sharing_of cd m' = sharing_of cd m" if "committed cd ops [] m m'"
    using that by (simp add: committed_def rows_after_other [OF none] sharing_of_def)
  then show "sharing_of cd m' = sharing_of cd m"
    using r(2) sharing_of_same by (auto split: sum.splits)
  show "out' = out" if "r = Inr out'" using that r(2) by simp
  show "block_get t k m' = op_value ops t k (block_get t k m)" if "r = Inr out'" "t \<in> set TABLES"
    using that r(2) by (simp add: committed_def)
  show "block_get t k m' = block_get t k m" if t: "t \<in> chunk_table_names"
  proof -
    have "op_value ops t k old = old" for old
      by (rule op_value_other) (use none t in auto)
    then have "block_get t k m' = block_get t k m" if "committed cd ops [] m m'"
      using that t chunk_tables_are_tables by (simp add: committed_def)
    moreover have "block_get t k m' = block_get t k m" if "same_caches m m'"
      using that by (simp add: block_get_def same_caches_def)
    ultimately show ?thesis using r(2) by (auto split: sum.splits)
  qed
qed

lemma other_tables [simp]:
  "VOLUMES \<notin> chunk_table_names" "NAMES \<notin> chunk_table_names" "SNAPSHOTS \<notin> chunk_table_names"
  by (simp_all add: chunk_table_names_def)

lemma put_volume_ok:
  "codec_ok cd \<Longrightarrow> nul_free (mv_volume_id v) \<Longrightarrow> op_ok cd (put_volume cd v) \<and> bo_table (put_volume cd v) \<notin> chunk_table_names"
  by (simp add: op_ok_def put_volume_def put_op_def row_ok_def volume_row_ok_def codec_ok_def)

lemma put_name_ok: "op_ok cd (put_name cd v) \<and> bo_table (put_name cd v) \<notin> chunk_table_names"
  by (simp add: op_ok_def put_name_def put_op_def row_ok_def)

lemma put_snapshot_ok:
  "codec_ok cd \<Longrightarrow> nul_free (mp_snapshot_id s) \<Longrightarrow>
     op_ok cd (put_snapshot cd s) \<and> bo_table (put_snapshot cd s) \<notin> chunk_table_names"
  by (simp add: op_ok_def put_snapshot_def put_op_def row_ok_def snapshot_row_ok_def codec_ok_def)

lemma delete_op_ok: "t \<in> set TABLES \<Longrightarrow> op_ok cd (delete_op t k)"
  by (simp add: op_ok_def delete_op_def)

section \<open>Releasing a chunk map\<close>

definition release_flag :: "chunk_table \<Rightarrow> bool" where
  "release_flag tbl \<longleftrightarrow> tbl = Snapshot_chunks"

lemma row_of_chunk:
  assumes "rows_ok cd m" and "block_get (chunk_table_name tbl) key m = Some raw"
  obtains r st where "dec_chunk cd raw = Some r" and "bc_stripe r = Some st"
    and "rows_of cd m (chunk_table_name tbl, key) = Some (st_object_id st, bc_owner r)"
    and "key = block_chunk_key (row_id key) (bc_chunk_id r)" and "bc_chunk_id r < 2 ^ 64"
    and "tbl = Snapshot_chunks \<Longrightarrow> bc_owner r = as_bytes (row_id key)"
    and "bc_owner r = as_bytes (row_id key) \<or> bc_owner r = st_object_id st"
proof -
  obtain i r st where r: "nul_free i" "key = block_chunk_key i (bc_chunk_id r)" "bc_chunk_id r < 2 ^ 64"
      "dec_chunk cd raw = Some r" "bc_stripe r = Some st"
      "bc_owner r = as_bytes i \<or> tbl = Volume_chunks \<and> bc_owner r = st_object_id st"
    using chunk_row_okI [OF assms] unfolding chunk_row_ok_def by blast
  have i: "row_id key = i" using r(1,2) by simp
  have row: "rows_of cd m (chunk_table_name tbl, key) = Some (st_object_id st, bc_owner r)"
    using assms(2) r by (simp add: rows_of_def block_get_def held_by_def)
  show ?thesis
    by (rule that [OF r(4,5) row]) (use r i in auto)
qed

lemma release_build_moves:
  assumes cd: "codec_ok cd" and inv: "meta_inv cd m" and i: "nul_free i"
    and ne: "chunks_of (chunk_table_name tbl) i 0 u64_max (ms_block m) \<noteq> []"
  obtains ks changed new where
    "release_build cd tbl i (release_flag tbl) m =
       Inr (map (delete_op (chunk_table_name tbl)) ks @ refs_into_ops cd changed, False, new)"
    and "bt_sorted changed" and "distinct (map st_object_id new)"
    and "sharing_inv row_group \<lparr>sh_rows = without (Pair (chunk_table_name tbl) ` set ks) (rows_of cd m), sh_reg = reg_of cd m changed\<rparr>"
    and "st_object_id ` set new = held (sharing_of cd m) -
       held \<lparr>sh_rows = without (Pair (chunk_table_name tbl) ` set ks) (rows_of cd m), sh_reg = reg_of cd m changed\<rparr>"
    and "\<forall>k \<in> set ks. row_id k = i"
proof -
  let ?t = "chunk_table_name tbl"
  define rows where "rows = take BATCH (chunks_of ?t i 0 u64_max (ms_block m))"
  note d = meta_invD [OF inv]
  have srt: "bt_sorted (ms_block m)" using d(1) by (simp add: rows_ok_def)
  have dist: "distinct (map fst rows)"
    unfolding rows_def using chunks_of_distinct [OF srt] by (metis distinct_take take_map)
  have sub: "block_get ?t key m = Some raw \<and> row_id key = i" if "(key, raw) \<in> set rows" for key raw
    using that all_chunks_iff [OF d(1) i, of key raw tbl] unfolding rows_def by (blast dest: in_set_takeD)
  have rel: "\<forall>(key, raw) \<in> set rows. \<exists>x. rows_of cd m (?t, key) = Some x \<and> releases cd (release_flag tbl) i raw x"
  proof (intro ballI, clarify)
    fix key raw
    assume "(key, raw) \<in> set rows"
    with sub have g: "block_get ?t key m = Some raw" "row_id key = i" by blast+
    obtain r st where r: "dec_chunk cd raw = Some r" "bc_stripe r = Some st"
        "rows_of cd m (?t, key) = Some (st_object_id st, bc_owner r)"
        "tbl = Snapshot_chunks \<longrightarrow> bc_owner r = as_bytes (row_id key)"
      using row_of_chunk [OF d(1) g(1)] by metis
    then show "\<exists>x. rows_of cd m (?t, key) = Some x \<and> releases cd (release_flag tbl) i raw x"
      using g(2) by (auto simp: releases_def release_flag_def)
  qed
  have "sharing_inv row_group \<lparr>sh_rows = rows_of cd m, sh_reg = reg_of cd m []\<rparr>"
    using d(3) by (simp add: sharing_of_def)
  from release_rows_drops [OF cd this bt_sorted_Nil dist rel, of "[]"]
  obtain changed new where rr: "release_rows cd m i (release_flag tbl) rows [] [] = Inr (changed, new)" "bt_sorted changed"
      "sharing_inv row_group \<lparr>sh_rows = without (Pair ?t ` fst ` set rows) (rows_of cd m), sh_reg = reg_of cd m changed\<rparr>"
      "distinct (map st_object_id new)"
      "st_object_id ` set new = held \<lparr>sh_rows = rows_of cd m, sh_reg = reg_of cd m []\<rparr> -
        held \<lparr>sh_rows = without (Pair ?t ` fst ` set rows) (rows_of cd m), sh_reg = reg_of cd m changed\<rparr>"
    unfolding Let_def by auto
  have rows_ne: "rows \<noteq> []" using ne by (simp add: rows_def BATCH_def)
  have b: "release_build cd tbl i (release_flag tbl) m =
      Inr (map (delete_op ?t) (map fst rows) @ refs_into_ops cd changed, False, new)"
    using rr(1) rows_ne unfolding release_build_def Let_def rows_def [symmetric]
    by (simp add: map_delete_op del: map_map)
  show ?thesis
  proof (rule that [OF b rr(2,4)])
    show "sharing_inv row_group \<lparr>sh_rows = without (Pair ?t ` set (map fst rows)) (rows_of cd m), sh_reg = reg_of cd m changed\<rparr>"
      using rr(3) by simp
    show "st_object_id ` set new = held (sharing_of cd m) -
       held \<lparr>sh_rows = without (Pair ?t ` set (map fst rows)) (rows_of cd m), sh_reg = reg_of cd m changed\<rparr>"
      using rr(5) by (simp add: sharing_of_def)
    show "\<forall>k \<in> set (map fst rows). row_id k = i" using sub by force
  qed
qed
text \<open>\<open>framed t i\<close>: only the rows of \<open>i\<close> in the table \<open>t\<close> may have changed.\<close>

definition framed :: "string \<Rightarrow> string \<Rightarrow> 'b meta_service \<Rightarrow> 'b meta_service \<Rightarrow> bool" where
  "framed t i m m' \<longleftrightarrow>
     (\<forall>t' \<in> set TABLES. \<forall>k. \<not> (t' = t \<and> row_id k = i) \<longrightarrow> block_get t' k m' = block_get t' k m)"

lemma framed_refl [simp]: "framed t i m m"
  by (simp add: framed_def)

lemma framed_trans: "framed t i m m' \<Longrightarrow> framed t i m' m'' \<Longrightarrow> framed t i m m''"
  by (simp add: framed_def)

lemma framed_same: "same_caches m m' \<Longrightarrow> framed t i m m'"
  by (simp add: framed_def same_caches_def block_get_def)

lemma framed_ops:
  assumes "committed cd ops changed m m'" and "\<forall>op \<in> set ops. bo_table op = t \<and> row_id (bo_key op) = i"
  shows "framed t i m m'"
  unfolding framed_def
proof (intro ballI allI impI)
  fix t' k
  assume t': "t' \<in> set TABLES" and other: "\<not> (t' = t \<and> row_id k = i)"
  have "op_value ops t' k old = old" for old
  proof -
    have "\<not> (bo_table op = t' \<and> bo_key op = k)" if "op \<in> set ops" for op using assms(2) that other by auto
    then have "find (\<lambda>op. bo_table op = t' \<and> bo_key op = k) (rev ops) = None" by (auto simp: find_None_iff)
    then show ?thesis by (simp add: op_value_def)
  qed
  then show "block_get t' k m' = block_get t' k m" using assms(1) t' by (simp add: committed_def)
qed

definition freed_exactly :: "'b codec \<Rightarrow> 'b meta_service \<Rightarrow> 'b meta_service \<Rightarrow> stripe_meta list \<Rightarrow> bool" where
  "freed_exactly cd m m' free \<longleftrightarrow>
     distinct (map st_object_id free) \<and>
     st_object_id ` set free = held (sharing_of cd m) - held (sharing_of cd m')"

lemma freed_exactly_append:
  assumes "freed_exactly cd m m1 xs" and "freed_exactly cd m1 m2 ys"
    and "held (sharing_of cd m1) \<subseteq> held (sharing_of cd m)" and "held (sharing_of cd m2) \<subseteq> held (sharing_of cd m1)"
  shows "freed_exactly cd m m2 (xs @ ys)"
proof -
  have "st_object_id ` set xs \<inter> st_object_id ` set ys = {}"
    using assms(1,2) unfolding freed_exactly_def by blast
  moreover have "st_object_id ` set (xs @ ys) = held (sharing_of cd m) - held (sharing_of cd m2)"
    using assms unfolding freed_exactly_def set_append image_Un by blast
  ultimately show ?thesis using assms(1,2) by (simp add: freed_exactly_def)
qed

text \<open>One round of the loop.\<close>

lemma release_round:
  assumes cd: "codec_ok cd" and inv: "meta_inv cd m" and i: "nul_free i"
    and run: "block_retry cd (release_build cd tbl i (release_flag tbl)) m = (r, m')"
  shows "meta_inv cd m'" and "framed (chunk_table_name tbl) i m m'"
    and "held (sharing_of cd m') \<subseteq> held (sharing_of cd m)"
    and "r = Inr (fin, free) \<Longrightarrow> freed_exactly cd m m' free"
    and "r = Inr (True, free) \<Longrightarrow> row_id k = i \<Longrightarrow> block_get (chunk_table_name tbl) k m' = None"
proof -
  let ?t = "chunk_table_name tbl"
  note d = meta_invD [OF inv]
  have "meta_inv cd m' \<and> framed ?t i m m' \<and> held (sharing_of cd m') \<subseteq> held (sharing_of cd m) \<and>
    (\<forall>fin free. r = Inr (fin, free) \<longrightarrow> freed_exactly cd m m' free) \<and>
    (\<forall>free. r = Inr (True, free) \<longrightarrow> (\<forall>k. row_id k = i \<longrightarrow> block_get ?t k m' = None))"
  proof (cases "chunks_of ?t i 0 u64_max (ms_block m) = []")
    case True
    then have "release_build cd tbl i (release_flag tbl) m = Inr ([], True, [])" by (simp add: release_build_def)
    from retry_nothing [of "release_build cd tbl i (release_flag tbl)" m, OF this, of cd] run
    have r: "r = Inr (True, [])" "m' = m" by auto
    have "block_get ?t k m = None" if "row_id k = i" for k
    proof (cases "block_get ?t k m")
      case (Some raw)
      then have "(k, raw) \<in> set (chunks_of ?t i 0 u64_max (ms_block m))"
        using all_chunks_iff [OF d(1) i] that by blast
      with True show ?thesis by simp
    qed
    with r inv show ?thesis by (simp add: freed_exactly_def)
  next
    case False
    from release_build_moves [OF cd inv i False]
    obtain ks changed new where b: "release_build cd tbl i (release_flag tbl) m =
         Inr (map (delete_op ?t) ks @ refs_into_ops cd changed, False, new)"
      and c: "bt_sorted changed" "distinct (map st_object_id new)"
        "sharing_inv row_group \<lparr>sh_rows = without (Pair ?t ` set ks) (rows_of cd m), sh_reg = reg_of cd m changed\<rparr>"
        "st_object_id ` set new = held (sharing_of cd m) -
           held \<lparr>sh_rows = without (Pair ?t ` set ks) (rows_of cd m), sh_reg = reg_of cd m changed\<rparr>"
        "\<forall>k \<in> set ks. row_id k = i"
      by metis
    have ops: "\<forall>op \<in> set (map (delete_op ?t) ks). op_ok cd op" by (auto intro: delete_op_ok)
    have after: "rows_after cd (map (delete_op ?t) ks) (rows_of cd m) = without (Pair ?t ` set ks) (rows_of cd m)"
      by (rule rows_after_deletes) simp
    note ri = retry_inv [OF cd inv b ops c(1) c(3) [folded after] run]
    have com: "framed ?t i m m' \<and> held (sharing_of cd m') \<subseteq> held (sharing_of cd m) \<and> freed_exactly cd m m' new"
      if co: "committed cd (map (delete_op ?t) ks) changed m m'"
    proof -
      have so: "sharing_of cd m' = \<lparr>sh_rows = without (Pair ?t ` set ks) (rows_of cd m), sh_reg = reg_of cd m changed\<rparr>"
        using co after by (simp add: committed_def)
      have "held (sharing_of cd m') \<subseteq> held (sharing_of cd m)"
        unfolding so unfolding sharing_of_def by (rule held_without)
      moreover have "framed ?t i m m'"
        by (rule framed_ops [OF co]) (use c(5) in \<open>auto simp: delete_op_def\<close>)
      ultimately show ?thesis using c(2,4) so by (simp add: freed_exactly_def)
    qed
    show ?thesis
      using ri com framed_same [of m m' ?t i] sharing_of_same [of m m' cd] by (auto split: sum.splits)
  qed
  then show "meta_inv cd m'" and "framed ?t i m m'" and "held (sharing_of cd m') \<subseteq> held (sharing_of cd m)"
    and "r = Inr (fin, free) \<Longrightarrow> freed_exactly cd m m' free"
    and "r = Inr (True, free) \<Longrightarrow> row_id k = i \<Longrightarrow> block_get ?t k m' = None"
    by blast+
qed

definition released :: "'b codec \<Rightarrow> chunk_table \<Rightarrow> string \<Rightarrow> 'b meta_service \<Rightarrow> 'b meta_service \<Rightarrow> stripe_meta list \<Rightarrow> bool" where
  "released cd tbl i m m' new \<longleftrightarrow>
     freed_exactly cd m m' new \<and> (\<forall>k. row_id k = i \<longrightarrow> block_get (chunk_table_name tbl) k m' = None)"

lemma release_chunks_frees:
  assumes cd: "codec_ok cd" and i: "nul_free i"
  shows "meta_inv cd m \<Longrightarrow> release_chunks cd tbl i (release_flag tbl) acc m = (r, m') \<Longrightarrow>
    meta_inv cd m' \<and> framed (chunk_table_name tbl) i m m' \<and> held (sharing_of cd m') \<subseteq> held (sharing_of cd m) \<and>
    (\<forall>fr. r = Inr fr \<longrightarrow> (\<exists>new. fr = acc @ new \<and> released cd tbl i m m' new))"
proof (induction "length (chunks_of (chunk_table_name tbl) i 0 u64_max (ms_block m))" arbitrary: acc m r m' rule: less_induct)
  case less
  let ?t = "chunk_table_name tbl"
  obtain r1 m1 where b: "block_retry cd (release_build cd tbl i (release_flag tbl)) m = (r1, m1)" by force
  note round = release_round [OF cd less.prems(1) i b]
  show ?case
  proof (cases "\<exists>free. r1 = Inr (False, free)")
    case True
    then obtain free where r1: "r1 = Inr (False, free)" by blast
    have shrink: "length (chunks_of ?t i 0 u64_max (ms_block m1)) < length (chunks_of ?t i 0 u64_max (ms_block m))"
      using release_build_shrinks [OF b [unfolded r1]] .
    have rest: "release_chunks cd tbl i (release_flag tbl) (acc @ free) m1 = (r, m')"
      using less.prems(2) b r1 by (simp add: release_chunks.simps [of cd tbl i _ acc m])
    note ih = less.hyps [OF shrink round(1) rest]
    have f1: "freed_exactly cd m m1 free" using round(4) r1 by blast
    have "\<exists>new. fr = acc @ new \<and> released cd tbl i m m' new" if "r = Inr fr" for fr
    proof -
      from ih that obtain new where n: "fr = (acc @ free) @ new" "released cd tbl i m1 m' new" by blast
      have "freed_exactly cd m m' (free @ new)"
        by (rule freed_exactly_append [OF f1 _ round(3)]) (use n(2) ih in \<open>simp_all add: released_def\<close>)
      with n show ?thesis by (intro exI [of _ "free @ new"]) (simp add: released_def)
    qed
    with ih round(2,3) show ?thesis using framed_trans by blast
  next
    case False
    then have "(case r1 of Inl e \<Rightarrow> (Inl e, m1) | Inr (fin, free) \<Rightarrow> (Inr (acc @ free), m1)) = (r, m')"
      using less.prems(2) b by (auto simp: release_chunks.simps [of cd tbl i _ acc m] split: sum.splits)
    with False round show ?thesis by (auto simp: released_def split: sum.splits)
  qed
qed
section \<open>Committing chunks\<close>

lemma adjacent_equal_sorted: "sorted xs \<Longrightarrow> adjacent_equal xs \<longleftrightarrow> \<not> distinct xs"
proof (induction xs rule: adjacent_equal.induct)
  case (1 a b xs)
  then have "a \<in> set (b # xs) \<longleftrightarrow> a = b" by fastforce
  with 1 show ?case by auto
qed auto

lemma adjacent_equal_sort: "adjacent_equal (sort xs) \<longleftrightarrow> \<not> distinct xs"
  by (simp add: adjacent_equal_sorted)

text \<open>The stripes written are new: no row holds them and the registry does not know them.\<close>

definition fresh_updates :: "'b codec \<Rightarrow> 'b meta_service \<Rightarrow> chunk_update list \<Rightarrow> bool" where
  "fresh_updates cd m us \<longleftrightarrow>
     distinct (new_ids us) \<and> list_all (\<lambda>u. cu_chunk_id u < 2 ^ 64) us \<and>
     (\<forall>s \<in> set (new_ids us). s \<notin> held (sharing_of cd m) \<and> bt_get (hex_encode cd s) (ms_refs m) = None)"

definition names_current :: "'b codec \<Rightarrow> 'b meta_service \<Rightarrow> string \<Rightarrow> chunk_update \<Rightarrow> bool" where
  "names_current cd m vid u \<longleftrightarrow>
     (\<exists>c. current_chunk cd vid (cu_chunk_id u) m = Inr c \<and> current_id c = cu_expected_object_id u)"

lemma commit_rows_ops:
  "commit_rows cd m vid us changed ops free = Inr (changed', ops', free') \<Longrightarrow>
     list_all (names_current cd m vid) us \<and>
     (\<exists>rowops. ops' = ops @ rowops \<and> list_all2 (\<lambda>u op. update_op cd vid u = Inr op) us rowops)"
proof (induction us arbitrary: changed ops free)
  case (Cons u us)
  obtain c where c: "current_chunk cd vid (cu_chunk_id u) m = Inr c" "current_id c = cu_expected_object_id u"
    using Cons.prems by (auto simp: and_then_eq_Inr_iff split: if_splits)
  obtain c1 free1 where rel: "release_current cd m c changed free = (c1, free1)" by force
  obtain op where op: "update_op cd vid u = Inr op"
    and run: "commit_rows cd m vid us c1 (ops @ [op]) free1 = Inr (changed', ops', free')"
    using Cons.prems c rel by (auto simp: and_then_eq_Inr_iff)
  from Cons.IH [OF run] obtain rowops where "list_all (names_current cd m vid) us"
      "ops' = ops @ op # rowops" "list_all2 (\<lambda>u op. update_op cd vid u = Inr op) us rowops" by auto
  moreover have "names_current cd m vid u" using c by (auto simp: names_current_def)
  ultimately show ?case using op by auto
qed simp

lemma update_op_ok:
  assumes "codec_ok cd" and "nul_free vid" and "cu_chunk_id u < 2 ^ 64" and "update_op cd vid u = Inr op"
  shows "op_ok cd op \<and> bo_table op = CHUNKS \<and> row_id (bo_key op) = vid"
proof (cases "cu_stripe u")
  case None
  then have "op = delete_op CHUNKS (block_chunk_key vid (cu_chunk_id u))" using assms(4) by (simp add: update_op_def)
  then show ?thesis using assms(2) by (simp add: delete_op_ok) (simp add: delete_op_def)
next
  case (Some st)
  let ?r = "\<lparr>bc_chunk_id = cu_chunk_id u, bc_stripe = Some st, bc_owner = st_object_id st\<rparr>"
  have op: "op = put_op CHUNKS (block_chunk_key vid (cu_chunk_id u)) (enc_chunk cd ?r)"
    using assms(4) Some by (auto simp: update_op_def split: if_splits)
  have "chunk_row_ok cd Volume_chunks (block_chunk_key vid (cu_chunk_id u)) (enc_chunk cd ?r)"
    unfolding chunk_row_ok_def
    by (intro exI [of _ vid] exI [of _ ?r] exI [of _ st]) (use assms in \<open>simp add: codec_ok_def\<close>)
  then show ?thesis using op assms(2) by (simp add: op_ok_def put_op_def row_ok_def)
qed

lemma list_all2_ex: "list_all2 P xs ys \<Longrightarrow> y \<in> set ys \<Longrightarrow> \<exists>x \<in> set xs. P x y"
  by (induction rule: list_all2_induct) auto

lemma commit_build_moves:
  assumes cd: "codec_ok cd" and inv: "meta_inv cd m" and vid: "nul_free vid"
    and dist: "distinct (map cu_chunk_id us)" and fresh: "fresh_updates cd m us"
    and run: "commit_build cd vid us m = Inr (all_ops, free)"
  obtains ops changed where "all_ops = ops @ refs_into_ops cd changed" and "bt_sorted changed"
    and "\<forall>op \<in> set ops. op_ok cd op \<and> bo_table op = CHUNKS \<and> row_id (bo_key op) = vid"
    and "list_all (names_current cd m vid) us" and "distinct (map st_object_id free)"
    and "st_object_id ` set free \<subseteq> held (sharing_of cd m)"
    and "sharing_inv row_group \<lparr>sh_rows = rows_after cd ops (rows_of cd m), sh_reg = reg_of cd m changed\<rparr>"
    and "held \<lparr>sh_rows = rows_after cd ops (rows_of cd m), sh_reg = reg_of cd m changed\<rparr> =
      held (sharing_of cd m) - st_object_id ` set free \<union> set (new_ids us)"
    and "list_all2 (\<lambda>u op. update_op cd vid u = Inr op) us ops"
proof -
  obtain changed ops where cr: "commit_rows cd m vid us [] [] [] = Inr (changed, ops, free)"
      "all_ops = ops @ refs_into_ops cd changed"
    using run by (auto simp: commit_build_def and_then_eq_Inr_iff)
  note d = meta_invD [OF inv]
  have share: "sharing_inv row_group \<lparr>sh_rows = rows_of cd m, sh_reg = reg_of cd m []\<rparr>"
    using d(3) by (simp add: sharing_of_def)
  have wf: "held_by cd raw \<noteq> None" if "block_get CHUNKS key m = Some raw" for key raw
  proof -
    have "chunk_row_ok cd Volume_chunks key raw" using chunk_row_okI [OF d(1), of Volume_chunks] that by simp
    then show ?thesis by (auto simp: chunk_row_ok_def held_by_def)
  qed
  have new: "distinct (new_ids us)"
      "\<forall>s \<in> set (new_ids us). s \<notin> held \<lparr>sh_rows = rows_of cd m, sh_reg = reg_of cd m []\<rparr> \<and> reg_of cd m [] s = None"
    using fresh by (auto simp: fresh_updates_def sharing_of_def reg_of_def refs_get_def)
  have same: "\<forall>u \<in> set us. rows_of cd m (update_key vid u) = rows_of cd m (update_key vid u)" by simp
  from commit_rows_moves [OF cd vid share bt_sorted_Nil dist same wf new cr(1)]
  have mv: "bt_sorted changed" "distinct (map st_object_id free)" "st_object_id ` set free \<subseteq> replaced vid us (rows_of cd m)"
      "sharing_inv row_group \<lparr>sh_rows = rows_after cd ops (rows_of cd m), sh_reg = reg_of cd m changed\<rparr>"
      "held \<lparr>sh_rows = rows_after cd ops (rows_of cd m), sh_reg = reg_of cd m changed\<rparr> =
        held (sharing_of cd m) - st_object_id ` set free \<union> set (new_ids us)"
    unfolding sharing_of_def by auto
  note ops = commit_rows_ops [OF cr(1)]
  then have l2: "list_all2 (\<lambda>u op. update_op cd vid u = Inr op) us ops" by auto
  have okops: "\<forall>op \<in> set ops. op_ok cd op \<and> bo_table op = CHUNKS \<and> row_id (bo_key op) = vid"
  proof
    fix op
    assume "op \<in> set ops"
    then obtain u where "u \<in> set us" "update_op cd vid u = Inr op"
      using list_all2_ex [OF l2] by blast
    moreover from this have "cu_chunk_id u < 2 ^ 64" using fresh by (auto simp: fresh_updates_def list_all_iff)
    ultimately show "op_ok cd op \<and> bo_table op = CHUNKS \<and> row_id (bo_key op) = vid"
      by (intro update_op_ok [OF cd vid]) auto
  qed
  have "st_object_id ` set free \<subseteq> held (sharing_of cd m)"
    using mv(3) replaced_held unfolding sharing_of_def by blast
  from that [OF cr(2) mv(1) okops _ mv(2) this mv(4,5) l2] ops show ?thesis by blast
qed

text \<open>The record of an updated chunk, and what the row operations leave of every chunk.\<close>

definition updated_row :: "'b codec \<Rightarrow> chunk_update \<Rightarrow> 'b option" where
  "updated_row cd u = map_option (\<lambda>st. enc_chunk cd
     \<lparr>bc_chunk_id = cu_chunk_id u, bc_stripe = Some st, bc_owner = st_object_id st\<rparr>) (cu_stripe u)"

lemma update_op_row:
  "update_op cd vid u = Inr op \<Longrightarrow>
     op = \<lparr>bo_table = CHUNKS, bo_key = block_chunk_key vid (cu_chunk_id u), bo_new = updated_row cd u\<rparr>"
  by (auto simp: update_op_def updated_row_def put_op_def delete_op_def Let_def split: option.splits if_splits)

lemma op_value_updates:
  assumes "list_all2 (\<lambda>u op. update_op cd vid u = Inr op) us ops" and "nul_free vid" and "distinct (map cu_chunk_id us)"
  shows "op_value ops CHUNKS (block_chunk_key vid c) old =
    (case find (\<lambda>u. cu_chunk_id u = c) us of None \<Rightarrow> old | Some u \<Rightarrow> updated_row cd u)"
  using assms(1,3)
proof (induction arbitrary: old rule: list_all2_induct)
  case (Cons u us op ops)
  have none: "find (\<lambda>u. cu_chunk_id u = c) us = None" if "cu_chunk_id u = c"
    using Cons.prems that by (auto simp: find_None_iff image_iff dest: sym)
  have "bo_table op = CHUNKS" "bo_new op = updated_row cd u" "bo_key op = block_chunk_key vid c \<longleftrightarrow> cu_chunk_id u = c"
    using update_op_row [OF Cons.hyps(1)] block_chunk_key_inj [OF assms(2) assms(2)] by auto
  then show ?case using Cons.IH Cons.prems none by (simp add: op_value_Cons)
qed simp

text \<open>What a successful commit did.\<close>

definition chunks_committed ::
  "'b codec \<Rightarrow> string \<Rightarrow> chunk_update list \<Rightarrow> 'b meta_service \<Rightarrow> 'b meta_service \<Rightarrow> stripe_meta list \<Rightarrow> bool" where
  "chunks_committed cd vid us m m' free \<longleftrightarrow>
     list_all (names_current cd m vid) us \<and> freed_exactly cd m m' free \<and>
     held (sharing_of cd m') = held (sharing_of cd m) - st_object_id ` set free \<union> set (new_ids us) \<and>
     (\<forall>c. block_get CHUNKS (block_chunk_key vid c) m' =
        (case find (\<lambda>u. cu_chunk_id u = c) us of
           None \<Rightarrow> block_get CHUNKS (block_chunk_key vid c) m
         | Some u \<Rightarrow> updated_row cd u))"

lemma commit_chunks_inv:
  assumes cd: "codec_ok cd" and inv: "meta_inv cd m" and fresh: "fresh_updates cd m us"
    and run: "block_commit_chunks_impl cd vid us m = (r, m')"
  shows "meta_inv cd m'" and "framed CHUNKS vid m m'"
    and "r = Inr free \<Longrightarrow> chunks_committed cd vid us m m' free"
    and "held (sharing_of cd m') \<subseteq> held (sharing_of cd m) \<union> set (new_ids us)"
proof -
  have "meta_inv cd m' \<and> framed CHUNKS vid m m' \<and> held (sharing_of cd m') \<subseteq> held (sharing_of cd m) \<union> set (new_ids us) \<and>
    (\<forall>free. r = Inr free \<longrightarrow> chunks_committed cd vid us m m' free)"
  proof (cases "distinct (map cu_chunk_id us) \<and> (\<exists>v. meta_get_volume cd vid m = Inr v) \<and>
      block_retry cd (commit_build cd vid us) m = (r, m')")
    case False
    then have "m' = m" "\<exists>e. r = Inl e"
      using run by (auto simp: block_commit_chunks_impl_def adjacent_equal_sort split: if_splits sum.splits)
    then show ?thesis using inv by auto
  next
    case True
    then obtain v where dist: "distinct (map cu_chunk_id us)" and v: "meta_get_volume cd vid m = Inr v"
      and retry: "block_retry cd (commit_build cd vid us) m = (r, m')" by blast
    have vid: "nul_free vid" using volume_found(2) [OF meta_invD(1) [OF inv] v] .
    show ?thesis
    proof (cases "commit_build cd vid us m")
      case (Inl e)
      from retry_refused [of "commit_build cd vid us", OF Inl, of cd] retry inv show ?thesis by auto
    next
      case (Inr p)
      then obtain all_ops free where b: "commit_build cd vid us m = Inr (all_ops, free)" by (cases p) auto
      from commit_build_moves [OF cd inv vid dist fresh b]
      obtain ops changed where mv: "all_ops = ops @ refs_into_ops cd changed" "bt_sorted changed"
          "\<forall>op \<in> set ops. op_ok cd op \<and> bo_table op = CHUNKS \<and> row_id (bo_key op) = vid"
          "list_all (names_current cd m vid) us" "distinct (map st_object_id free)"
          "st_object_id ` set free \<subseteq> held (sharing_of cd m)"
          "sharing_inv row_group \<lparr>sh_rows = rows_after cd ops (rows_of cd m), sh_reg = reg_of cd m changed\<rparr>"
          "held \<lparr>sh_rows = rows_after cd ops (rows_of cd m), sh_reg = reg_of cd m changed\<rparr> =
            held (sharing_of cd m) - st_object_id ` set free \<union> set (new_ids us)"
          "list_all2 (\<lambda>u op. update_op cd vid u = Inr op) us ops"
        by metis
      have ok: "\<forall>op \<in> set ops. op_ok cd op" using mv(3) by simp
      note ri = retry_inv [OF cd inv b [unfolded mv(1)] ok mv(2,7) retry]
      have com: "framed CHUNKS vid m m' \<and> chunks_committed cd vid us m m' free" if co: "committed cd ops changed m m'"
      proof -
        have so: "sharing_of cd m' = \<lparr>sh_rows = rows_after cd ops (rows_of cd m), sh_reg = reg_of cd m changed\<rparr>"
          using co by (simp add: committed_def)
        have "set (new_ids us) \<inter> held (sharing_of cd m) = {}" using fresh by (auto simp: fresh_updates_def)
        then have "held (sharing_of cd m) - held (sharing_of cd m') = st_object_id ` set free"
          using mv(6,8) so by auto
        moreover have "block_get CHUNKS (block_chunk_key vid c) m' = op_value ops CHUNKS (block_chunk_key vid c)
            (block_get CHUNKS (block_chunk_key vid c) m)" for c
          using co by (simp add: committed_def)
        ultimately show ?thesis
          using framed_ops [OF co, of CHUNKS vid] mv(3,4,5,8) so
          by (simp add: chunks_committed_def freed_exactly_def op_value_updates [OF mv(9) vid dist])
      qed
      have held: "held (sharing_of cd m') \<subseteq> held (sharing_of cd m) \<union> set (new_ids us)"
      proof -
        have "held (sharing_of cd m') \<subseteq> held (sharing_of cd m) \<union> set (new_ids us)" if "committed cd ops changed m m'"
          using com [OF that] by (auto simp: chunks_committed_def)
        moreover have "held (sharing_of cd m') \<subseteq> held (sharing_of cd m) \<union> set (new_ids us)" if "same_caches m m'"
          using sharing_of_same [OF that, of cd] by simp
        ultimately show ?thesis using ri(2) by (cases r) auto
      qed
      show ?thesis using ri com held framed_same [of m m' CHUNKS vid] by (auto split: sum.splits)
    qed
  qed
  then show "meta_inv cd m'" and "framed CHUNKS vid m m'"
    and "r = Inr free \<Longrightarrow> chunks_committed cd vid us m m' free"
    and "held (sharing_of cd m') \<subseteq> held (sharing_of cd m) \<union> set (new_ids us)" by blast+
qed
section \<open>Deleting volumes and snapshots\<close>

definition chunk_framed :: "string \<Rightarrow> string \<Rightarrow> 'b meta_service \<Rightarrow> 'b meta_service \<Rightarrow> bool" where
  "chunk_framed t i m m' \<longleftrightarrow>
     (\<forall>t' \<in> chunk_table_names. \<forall>k. \<not> (t' = t \<and> row_id k = i) \<longrightarrow> block_get t' k m' = block_get t' k m)"

lemma framed_chunks: "framed t i m m' \<Longrightarrow> chunk_framed t i m m'"
  using chunk_tables_are_tables by (auto simp: framed_def chunk_framed_def)

lemma chunk_framed_trans: "chunk_framed t i m m' \<Longrightarrow> chunk_framed t i m' m'' \<Longrightarrow> chunk_framed t i m m''"
  by (simp add: chunk_framed_def)

lemma chunk_framed_refl [simp]: "chunk_framed t i m m"
  by (simp add: chunk_framed_def)

lemma chunk_framed_all: "(\<And>t k. t \<in> chunk_table_names \<Longrightarrow> block_get t k m' = block_get t k m) \<Longrightarrow> chunk_framed t' i m m'"
  by (simp add: chunk_framed_def)

lemma then_do_Inl [simp]: "then_do (Inl e, s) f = (Inl e, s)"
  by (simp add: then_do_def)

lemma then_do_Inr [simp]: "then_do (Inr a, s) f = f a s"
  by (simp add: then_do_def)

text \<open>
  A delete: mark the row, release the chunk map, remove the rows. \<open>mark\<close> is the first write, if
  there is one, and \<open>clear\<close> the last.
\<close>

lemma delete_stages:
  assumes cd: "codec_ok cd" and inv: "meta_inv cd m" and i: "nul_free i"
    and mark: "\<forall>op \<in> set mark. op_ok cd op \<and> bo_table op \<notin> chunk_table_names"
    and clear: "\<forall>op \<in> set clear. op_ok cd op \<and> bo_table op \<notin> chunk_table_names"
    and run: "then_do (if marked then (Inr (), m) else block_retry cd (\<lambda>_. Inr (mark, ())) m)
      (\<lambda>_ m1. then_do (release_chunks cd tbl i (release_flag tbl) [] m1)
        (\<lambda>freeable m2. then_do (block_retry cd (\<lambda>_. Inr (clear, ())) m2) (\<lambda>_ m3. (Inr freeable, m3)))) = (r, m')"
  shows "meta_inv cd m'" and "chunk_framed (chunk_table_name tbl) i m m'"
    and "r = Inr free \<Longrightarrow> freed_exactly cd m m' free"
    and "r = Inr free \<Longrightarrow> row_id k = i \<Longrightarrow> block_get (chunk_table_name tbl) k m' = None"
    and "r = Inr free \<Longrightarrow> \<exists>m2. \<forall>t \<in> set TABLES. \<forall>k. block_get t k m' = op_value clear t k (block_get t k m2)"
    and "held (sharing_of cd m') \<subseteq> held (sharing_of cd m)"
proof -
  let ?t = "chunk_table_name tbl"
  obtain r1 m1 where s1: "(if marked then (Inr (), m) else block_retry cd (\<lambda>_. Inr (mark, ())) m) = (r1, m1)" by force
  have m1: "meta_inv cd m1 \<and> sharing_of cd m1 = sharing_of cd m \<and> chunk_framed ?t i m m1"
  proof (cases marked)
    case True
    then show ?thesis using s1 inv by auto
  next
    case False
    then have "block_retry cd (\<lambda>_. Inr (mark, ())) m = (r1, m1)" using s1 by simp
    from retry_plain_rows [where build = "\<lambda>_. Inr (mark, ())", OF cd inv refl mark this]
    show ?thesis by (auto intro: chunk_framed_all)
  qed
  have "meta_inv cd m' \<and> chunk_framed ?t i m m' \<and> held (sharing_of cd m') \<subseteq> held (sharing_of cd m) \<and>
    (\<forall>free. r = Inr free \<longrightarrow> freed_exactly cd m m' free \<and> (\<forall>k. row_id k = i \<longrightarrow> block_get ?t k m' = None) \<and>
      (\<exists>m2. \<forall>t \<in> set TABLES. \<forall>k. block_get t k m' = op_value clear t k (block_get t k m2)))"
  proof (cases r1)
    case (Inl e)
    then show ?thesis using run s1 m1 by auto
  next
    case (Inr x)
    obtain r2 m2 where s2: "release_chunks cd tbl i (release_flag tbl) [] m1 = (r2, m2)" by force
    have "meta_inv cd m1" using m1 by blast
    note rel = release_chunks_frees [OF cd i this s2]
    have f2: "chunk_framed ?t i m m2" using m1 rel framed_chunks chunk_framed_trans by blast
    show ?thesis
    proof (cases r2)
      case (Inl e)
      then show ?thesis using run s1 s2 m1 rel f2 Inr by auto
    next
      case r2: (Inr free2)
      obtain r3 m3 where s3: "block_retry cd (\<lambda>_. Inr (clear, ())) m2 = (r3, m3)" by force
      have "meta_inv cd m2" using rel by blast
      note c = retry_plain_rows [where build = "\<lambda>_. Inr (clear, ())", OF cd this refl clear s3]
      have m': "m' = m3" and r: "r = (case r3 of Inl e \<Rightarrow> Inl e | Inr _ \<Rightarrow> Inr free2)"
        using run s1 s2 s3 Inr r2 by (auto simp: then_do_def split: sum.splits)
      have same: "block_get ?t k m3 = block_get ?t k m2" for k using c(4) by simp
      have frame: "chunk_framed ?t i m m3" using f2 c(4) chunk_framed_all chunk_framed_trans by metis
      have freed: "freed_exactly cd m m3 free2 \<and> (\<forall>k. row_id k = i \<longrightarrow> block_get ?t k m3 = None)"
        using rel r2 m1 c(2) same by (auto simp: released_def freed_exactly_def)
      have cleared: "\<forall>t \<in> set TABLES. \<forall>k. block_get t k m3 = op_value clear t k (block_get t k m2)" if "r = Inr free" for free
        using that r c(5) by (auto split: sum.splits)
      have eq: "free = free2" if "r = Inr free" for free using that r by (auto split: sum.splits)
      have sub: "held (sharing_of cd m3) \<subseteq> held (sharing_of cd m)" using rel m1 c(2) by auto
      show ?thesis
        unfolding m'
      proof (intro conjI allI impI)
        show "\<exists>m2. \<forall>t \<in> set TABLES. \<forall>k. block_get t k m3 = op_value clear t k (block_get t k m2)" if "r = Inr free" for free
          using cleared [OF that] by (rule exI)
      qed (use c(1) frame freed eq sub in auto)
    qed
  qed
  then show "meta_inv cd m'" and "chunk_framed ?t i m m'"
    and "r = Inr free \<Longrightarrow> freed_exactly cd m m' free"
    and "r = Inr free \<Longrightarrow> row_id k = i \<Longrightarrow> block_get ?t k m' = None"
    and "r = Inr free \<Longrightarrow> \<exists>m2. \<forall>t \<in> set TABLES. \<forall>k. block_get t k m' = op_value clear t k (block_get t k m2)"
    and "held (sharing_of cd m') \<subseteq> held (sharing_of cd m)"
    by blast+
qed

lemma meta_delete_volume_inv:
  assumes cd: "codec_ok cd" and inv: "meta_inv cd m" and run: "block_delete_volume_impl cd now i m = (r, m')"
  shows "meta_inv cd m'" and "chunk_framed CHUNKS i m m'" and "held (sharing_of cd m') \<subseteq> held (sharing_of cd m)"
    and "r = Inr free \<Longrightarrow> freed_exactly cd m m' free \<and> (\<forall>k. row_id k = i \<longrightarrow> block_get CHUNKS k m' = None) \<and>
      block_get VOLUMES i m' = None"
proof -
  have "meta_inv cd m' \<and> chunk_framed CHUNKS i m m' \<and> held (sharing_of cd m') \<subseteq> held (sharing_of cd m) \<and>
    (\<forall>free. r = Inr free \<longrightarrow> freed_exactly cd m m' free \<and> (\<forall>k. row_id k = i \<longrightarrow> block_get CHUNKS k m' = None) \<and>
      block_get VOLUMES i m' = None)"
  proof (cases "\<exists>v. meta_get_volume cd i m = Inr v \<and> mv_state v \<noteq> VS_Attached")
    case False
    then have "m' = m" "\<exists>e. r = Inl e"
      using run by (auto simp: block_delete_volume_impl_def split: if_splits sum.splits)
    then show ?thesis using inv by auto
  next
    case True
    then obtain v where v: "meta_get_volume cd i m = Inr v" "mv_state v \<noteq> VS_Attached" by blast
    note vf = volume_found [OF meta_invD(1) [OF inv] v(1)]
    let ?mark = "[put_volume cd (v\<lparr>mv_state := VS_Deleting, mv_updated_at := now\<rparr>)]"
    let ?clear = "[delete_op VOLUMES (mv_volume_id v), delete_op NAMES (mv_name v)]"
    have mark: "\<forall>op \<in> set ?mark. op_ok cd op \<and> bo_table op \<notin> chunk_table_names"
      using put_volume_ok [OF cd, of "v\<lparr>mv_state := VS_Deleting, mv_updated_at := now\<rparr>"] vf by simp
    have clear: "\<forall>op \<in> set ?clear. op_ok cd op \<and> bo_table op \<notin> chunk_table_names"
      using delete_op_ok by (auto simp: delete_op_def op_ok_def)
    have b: "put_volume_build cd w = (\<lambda>_. Inr ([put_volume cd w], ()))" for w
      by (rule ext) (simp add: put_volume_build_def)
    have "then_do (if mv_state v = VS_Deleting then (Inr (), m) else block_retry cd (\<lambda>_. Inr (?mark, ())) m)
      (\<lambda>_ m1. then_do (release_chunks cd Volume_chunks i (release_flag Volume_chunks) [] m1)
        (\<lambda>freeable m2. then_do (block_retry cd (\<lambda>_. Inr (?clear, ())) m2) (\<lambda>_ m3. (Inr freeable, m3)))) = (r, m')"
      using run v vf(1) by (cases "mv_state v = VS_Deleting") (simp_all add: block_delete_volume_impl_def b release_flag_def)
    note ds = delete_stages [OF cd inv vf(2) mark clear this]
    have "block_get VOLUMES i m' = None" if "r = Inr free" for free
      using ds(5) [OF that] vf(1) by (auto simp: op_value_Cons delete_op_def)
    with ds show ?thesis by (auto simp: release_flag_def)
  qed
  then show "meta_inv cd m'" and "chunk_framed CHUNKS i m m'" and "held (sharing_of cd m') \<subseteq> held (sharing_of cd m)"
    and "r = Inr free \<Longrightarrow> freed_exactly cd m m' free \<and> (\<forall>k. row_id k = i \<longrightarrow> block_get CHUNKS k m' = None) \<and>
      block_get VOLUMES i m' = None" by blast+
qed

lemma meta_delete_snapshot_inv:
  assumes cd: "codec_ok cd" and inv: "meta_inv cd m" and run: "block_delete_snapshot_impl cd i m = (r, m')"
  shows "meta_inv cd m'" and "chunk_framed SNAP_CHUNKS i m m'" and "held (sharing_of cd m') \<subseteq> held (sharing_of cd m)"
    and "r = Inr free \<Longrightarrow> freed_exactly cd m m' free \<and> (\<forall>k. row_id k = i \<longrightarrow> block_get SNAP_CHUNKS k m' = None) \<and>
      block_get SNAPSHOTS i m' = None"
proof -
  have "meta_inv cd m' \<and> chunk_framed SNAP_CHUNKS i m m' \<and> held (sharing_of cd m') \<subseteq> held (sharing_of cd m) \<and>
    (\<forall>free. r = Inr free \<longrightarrow> freed_exactly cd m m' free \<and> (\<forall>k. row_id k = i \<longrightarrow> block_get SNAP_CHUNKS k m' = None) \<and>
      block_get SNAPSHOTS i m' = None)"
  proof (cases "\<exists>s. meta_get_snapshot cd i m = Inr s")
    case False
    then have "m' = m" "\<exists>e. r = Inl e"
      using run by (auto simp: block_delete_snapshot_impl_def split: if_splits sum.splits)
    then show ?thesis using inv by auto
  next
    case True
    then obtain s where s: "meta_get_snapshot cd i m = Inr s" by blast
    note sf = snapshot_found [OF meta_invD(1) [OF inv] s]
    let ?mark = "[put_snapshot cd (s\<lparr>mp_state := SS_Deleting\<rparr>)]"
    let ?clear = "[delete_op SNAPSHOTS (mp_snapshot_id s)]"
    have mark: "\<forall>op \<in> set ?mark. op_ok cd op \<and> bo_table op \<notin> chunk_table_names"
      using put_snapshot_ok [OF cd, of "s\<lparr>mp_state := SS_Deleting\<rparr>"] sf by simp
    have clear: "\<forall>op \<in> set ?clear. op_ok cd op \<and> bo_table op \<notin> chunk_table_names"
      using delete_op_ok by (auto simp: delete_op_def op_ok_def)
    have b: "put_snapshot_build cd w = (\<lambda>_. Inr ([put_snapshot cd w], ()))" for w
      by (rule ext) (simp add: put_snapshot_build_def)
    have "then_do (if mp_state s = SS_Deleting then (Inr (), m) else block_retry cd (\<lambda>_. Inr (?mark, ())) m)
      (\<lambda>_ m1. then_do (release_chunks cd Snapshot_chunks i (release_flag Snapshot_chunks) [] m1)
        (\<lambda>freeable m2. then_do (block_retry cd (\<lambda>_. Inr (?clear, ())) m2) (\<lambda>_ m3. (Inr freeable, m3)))) = (r, m')"
      using run s sf(1) by (cases "mp_state s = SS_Deleting") (simp_all add: block_delete_snapshot_impl_def b release_flag_def)
    note ds = delete_stages [OF cd inv sf(2) mark clear this]
    have "block_get SNAPSHOTS i m' = None" if "r = Inr free" for free
      using ds(5) [OF that] sf(1) by (auto simp: op_value_Cons delete_op_def)
    with ds show ?thesis by (auto simp: release_flag_def)
  qed
  then show "meta_inv cd m'" and "chunk_framed SNAP_CHUNKS i m m'" and "held (sharing_of cd m') \<subseteq> held (sharing_of cd m)"
    and "r = Inr free \<Longrightarrow> freed_exactly cd m m' free \<and> (\<forall>k. row_id k = i \<longrightarrow> block_get SNAP_CHUNKS k m' = None) \<and>
      block_get SNAPSHOTS i m' = None" by blast+
qed

end
