(* ===== verification/Meta_Snapshots.thy ===== *)
theory Meta_Snapshots
  imports Meta_Handlers
begin

text \<open>
  Snapshots and clones share the chunk map they start from, a batch per write: every chunk of the
  source is a chunk of the copy, on the same stripe, and no stripe becomes free.
\<close>

section \<open>Sharing a chunk map\<close>

definition ref_id :: "block_chunk_ref \<Rightarrow> bytes" where
  "ref_id r = st_object_id (the (bc_stripe r))"

lemma op_value_share:
  assumes "distinct (map (share_target tbl i) rs)"
  shows "op_value (map (share_op cd tbl i) rs) (chunk_table_name tbl) (block_chunk_key i c) old =
    (case find (\<lambda>r. share_target tbl i r = (chunk_table_name tbl, block_chunk_key i c)) rs of
       Some r \<Rightarrow> Some (enc_chunk cd (r\<lparr>bc_owner := as_bytes i\<rparr>))
     | None \<Rightarrow> old)"
  using assms
proof (induction rs arbitrary: old)
  case (Cons r rs)
  have none: "find (\<lambda>r. share_target tbl i r = (chunk_table_name tbl, block_chunk_key i c)) rs = None"
    if "share_target tbl i r = (chunk_table_name tbl, block_chunk_key i c)"
    using Cons.prems that by (auto simp: find_None_iff image_iff dest: sym)
  show ?case
    using Cons none by (auto simp: op_value_Cons share_op_def put_op_def share_target_def)
qed simp

lemma shareable_after:
  assumes cd: "codec_ok cd"
  shows "list_all (\<lambda>r0. shareable g tbl i \<rho> (k0 r0) (ow0 r0) r0) rs \<Longrightarrow> distinct (map (share_target tbl i) (rs @ [r])) \<Longrightarrow>
    distinct (map ref_id (rs @ [r])) \<Longrightarrow> shareable g tbl i \<rho> k ow r \<Longrightarrow>
    shareable g tbl i (rows_after cd (map (share_op cd tbl i) rs) \<rho>) k ow r"
proof (induction rs arbitrary: \<rho>)
  case (Cons r0 rs)
  obtain st0 where st0: "bc_stripe r0 = Some st0" "\<rho> (share_target tbl i r0) = None"
    using Cons.prems(1) by (auto simp: shareable_def)
  obtain st where st: "bc_stripe r = Some st" using Cons.prems(4) by (auto simp: shareable_def)
  let ?\<rho>1 = "\<rho>(share_target tbl i r0 \<mapsto> (st_object_id st0, as_bytes i))"
  have "shareable g tbl i ?\<rho>1 (k0 r1) (ow0 r1) r1" if "r1 \<in> set rs" for r1
  proof -
    have sh: "shareable g tbl i \<rho> (k0 r1) (ow0 r1) r1" using Cons.prems(1) that by (simp add: list_all_iff)
    then obtain st1 where st1: "bc_stripe r1 = Some st1" by (auto simp: shareable_def)
    have "share_target tbl i r1 \<noteq> share_target tbl i r0"
      using Cons.prems(2) imageI [OF that, of "share_target tbl i"] by auto
    moreover have "ref_id r1 \<noteq> ref_id r0" using Cons.prems(3) imageI [OF that, of ref_id] by auto
    ultimately show ?thesis
      using shareable_step [OF sh st0(1) st1] st0 st1 by (simp add: ref_id_def)
  qed
  then have l: "list_all (\<lambda>r0. shareable g tbl i ?\<rho>1 (k0 r0) (ow0 r0) r0) rs" by (simp add: list_all_iff)
  have "shareable g tbl i ?\<rho>1 k ow r"
    using shareable_step [OF Cons.prems(4) st0(1) st] Cons.prems(2,3) st0 st by (auto simp: ref_id_def)
  from Cons.IH [OF l _ _ this] Cons.prems(2,3)
  show ?case by (simp add: row_update_share [OF cd st0(1)] del: fun_upd_apply)
qed simp

text \<open>What a row of the source says, as the loops need it.\<close>

definition source_row ::
  "'b codec \<Rightarrow> chunk_table \<Rightarrow> string \<Rightarrow> chunk_table \<Rightarrow> string \<Rightarrow> 'b meta_service \<Rightarrow> string \<times> 'b \<Rightarrow> block_chunk_ref \<Rightarrow> bool" where
  "source_row cd ft j tbl i m p r \<longleftrightarrow>
     dec_chunk cd (snd p) = Some r \<and> bc_chunk_id r < 2 ^ 64 \<and>
     shareable row_group tbl i (rows_of cd m) (chunk_table_name ft, fst p)
       (if release_flag ft then as_bytes j else bc_owner r) r"

lemma share_op_ok:
  assumes "codec_ok cd" and "nul_free i" and "bc_chunk_id r < 2 ^ 64" and "bc_stripe r = Some st"
  shows "op_ok cd (share_op cd tbl i r)" and "bo_table (share_op cd tbl i r) = chunk_table_name tbl"
    and "row_id (bo_key (share_op cd tbl i r)) = i"
proof -
  have "chunk_row_ok cd tbl (block_chunk_key i (bc_chunk_id r)) (enc_chunk cd (r\<lparr>bc_owner := as_bytes i\<rparr>))"
    unfolding chunk_row_ok_def
    by (intro exI [of _ i] exI [of _ "r\<lparr>bc_owner := as_bytes i\<rparr>"] exI [of _ st]) (use assms in \<open>simp add: codec_ok_def\<close>)
  then show "op_ok cd (share_op cd tbl i r)"
    by (cases tbl) (simp_all add: op_ok_def share_op_def put_op_def row_ok_def)
  show "bo_table (share_op cd tbl i r) = chunk_table_name tbl" "row_id (bo_key (share_op cd tbl i r)) = i"
    using assms(2) by (simp_all add: share_op_def put_op_def)
qed

lemma share_batch:
  assumes cd: "codec_ok cd" and inv: "meta_inv cd m" and i: "nul_free i"
    and src: "list_all2 (source_row cd ft j tbl i m) b rs"
    and dist: "distinct (map (share_target tbl i) rs)" "distinct (map ref_id rs)"
    and run: "block_retry cd (share_build cd j (release_flag ft) tbl i b) m = (r, m')"
  shows "meta_inv cd m'" and "framed (chunk_table_name tbl) i m m'" and "held (sharing_of cd m') = held (sharing_of cd m)"
    and "r = Inr () \<Longrightarrow> rows_of cd m' = rows_after cd (map (share_op cd tbl i) rs) (rows_of cd m)"
    and "r = Inr () \<Longrightarrow> t \<in> set TABLES \<Longrightarrow>
      block_get t k m' = op_value (map (share_op cd tbl i) rs) t k (block_get t k m)"
proof -
  have share: "sharing_inv row_group \<lparr>sh_rows = rows_of cd m, sh_reg = reg_of cd m []\<rparr>"
    using meta_invD(3) [OF inv] by (simp add: sharing_of_def)
  have rows: "list_all2 (\<lambda>(key, raw) r. dec_chunk cd raw = Some r \<and>
         shareable row_group tbl i (rows_of cd m) (chunk_table_name ft, key) (if release_flag ft then as_bytes j else bc_owner r) r) b rs"
    using src by (rule list.rel_mono_strong) (auto simp: source_row_def)
  have dist2: "distinct (map (\<lambda>r. st_object_id (the (bc_stripe r))) rs)" using dist(2) by (simp add: ref_id_def [abs_def])
  from share_rows_shares [OF cd share bt_sorted_Nil rows dist(1) dist2, of "[]"]
  obtain changed where s: "share_rows cd m j (release_flag ft) tbl i b [] [] = Inr (changed, map (share_op cd tbl i) rs)"
      "bt_sorted changed"
      "sharing_inv row_group \<lparr>sh_rows = rows_after cd (map (share_op cd tbl i) rs) (rows_of cd m), sh_reg = reg_of cd m changed\<rparr>"
      "held \<lparr>sh_rows = rows_after cd (map (share_op cd tbl i) rs) (rows_of cd m), sh_reg = reg_of cd m changed\<rparr> = held (sharing_of cd m)"
    unfolding Let_def sharing_of_def by auto
  have build: "share_build cd j (release_flag ft) tbl i b m = Inr (map (share_op cd tbl i) rs @ refs_into_ops cd changed, ())"
    using s(1) by (simp add: share_build_def)
  have each: "op_ok cd (share_op cd tbl i r) \<and> bo_table (share_op cd tbl i r) = chunk_table_name tbl \<and>
      row_id (bo_key (share_op cd tbl i r)) = i" if "r \<in> set rs" for r
  proof -
    obtain p where "source_row cd ft j tbl i m p r" using list_all2_ex [OF src \<open>r \<in> set rs\<close>] by blast
    then obtain st where "bc_chunk_id r < 2 ^ 64" "bc_stripe r = Some st" by (auto simp: source_row_def shareable_def)
    with share_op_ok [OF cd i] show ?thesis by blast
  qed
  then have ok: "\<forall>op \<in> set (map (share_op cd tbl i) rs). op_ok cd op"
    and own: "\<forall>op \<in> set (map (share_op cd tbl i) rs). bo_table op = chunk_table_name tbl \<and> row_id (bo_key op) = i" by auto
  note ri = retry_inv [OF cd inv build ok s(2,3) run]
  show "meta_inv cd m'" by (rule ri(1))
  have com: "framed (chunk_table_name tbl) i m m'" if "committed cd (map (share_op cd tbl i) rs) changed m m'"
    using framed_ops [OF that own] .
  then show "framed (chunk_table_name tbl) i m m'" using ri(2) framed_same by (auto split: sum.splits)
  show "held (sharing_of cd m') = held (sharing_of cd m)"
  proof -
    have "held (sharing_of cd m') = held (sharing_of cd m)" if "committed cd (map (share_op cd tbl i) rs) changed m m'"
      using that s(4) by (simp add: committed_def)
    moreover have "held (sharing_of cd m') = held (sharing_of cd m)" if "same_caches m m'"
      using sharing_of_same [OF that, of cd] by simp
    ultimately show ?thesis using ri(2) by (cases r) auto
  qed
  show "rows_of cd m' = rows_after cd (map (share_op cd tbl i) rs) (rows_of cd m)" if "r = Inr ()"
    using that ri(2) by (simp add: committed_def sharing_of_def)
  show "block_get t k m' = op_value (map (share_op cd tbl i) rs) t k (block_get t k m)" if "r = Inr ()" "t \<in> set TABLES"
    using that ri(2) by (simp add: committed_def)
qed

lemma share_batches_copy:
  assumes cd: "codec_ok cd" and i: "nul_free i"
  shows "meta_inv cd m \<Longrightarrow> list_all2 (source_row cd ft j tbl i m) (concat bs) rs \<Longrightarrow>
    distinct (map (share_target tbl i) rs) \<Longrightarrow> distinct (map ref_id rs) \<Longrightarrow>
    share_batches cd j (release_flag ft) tbl i bs m = (r, m') \<Longrightarrow>
    meta_inv cd m' \<and> framed (chunk_table_name tbl) i m m' \<and> held (sharing_of cd m') = held (sharing_of cd m) \<and>
    (r = Inr () \<longrightarrow> (\<forall>t \<in> set TABLES. \<forall>k.
       block_get t k m' = op_value (map (share_op cd tbl i) rs) t k (block_get t k m)))"
proof (induction bs arbitrary: m rs)
  case (Cons b bs)
  obtain rs1 rs2 where rs: "rs = rs1 @ rs2" and l1: "list_all2 (source_row cd ft j tbl i m) b rs1"
    and l2: "list_all2 (source_row cd ft j tbl i m) (concat bs) rs2"
    using Cons.prems(2) by (auto simp: list_all2_append1)
  obtain r1 m1 where b: "block_retry cd (share_build cd j (release_flag ft) tbl i b) m = (r1, m1)" by force
  have d1: "distinct (map (share_target tbl i) rs1)" "distinct (map ref_id rs1)" using Cons.prems(3,4) rs by auto
  note sb = share_batch [OF cd Cons.prems(1) i l1 d1 b]
  show ?case
  proof (cases r1)
    case (Inl e)
    then show ?thesis using Cons.prems(5) b sb by auto
  next
    case (Inr x)
    then have rows1: "rows_of cd m1 = rows_after cd (map (share_op cd tbl i) rs1) (rows_of cd m)" using sb(4) by simp
    have l1': "list_all (\<lambda>r0. \<exists>k ow. shareable row_group tbl i (rows_of cd m) k ow r0) rs1"
      unfolding list_all_iff using list_all2_ex [OF l1] unfolding source_row_def by blast
    then obtain k0 ow0 where k0: "list_all (\<lambda>r0. shareable row_group tbl i (rows_of cd m) (k0 r0) (ow0 r0) r0) rs1"
      unfolding list_all_iff by metis
    have l2': "list_all2 (source_row cd ft j tbl i m1) (concat bs) rs2"
      using l2
    proof (rule list.rel_mono_strong)
      fix p r
      assume r: "r \<in> set rs2" and s: "source_row cd ft j tbl i m p r"
      have "distinct (map (share_target tbl i) (rs1 @ [r]))" "distinct (map ref_id (rs1 @ [r]))"
        using Cons.prems(3,4) rs r by auto
      from shareable_after [OF cd k0 this] s show "source_row cd ft j tbl i m1 p r"
        by (simp add: source_row_def rows1)
    qed
    have d2: "distinct (map (share_target tbl i) rs2)" "distinct (map ref_id rs2)" using Cons.prems(3,4) rs by auto
    have "share_batches cd j (release_flag ft) tbl i bs m1 = (r, m')" using Cons.prems(5) b Inr by simp
    note ih = Cons.IH [OF sb(1) l2' d2 this]
    have "framed (chunk_table_name tbl) i m m'" using ih sb(2) framed_trans by blast
    moreover have "block_get t k m' = op_value (map (share_op cd tbl i) rs) t k (block_get t k m)"
      if "r = Inr ()" "t \<in> set TABLES" for t k
      using ih that sb(5) [of t k] Inr by (simp add: rs op_value_append)
    ultimately show ?thesis using ih sb(3) by simp
  qed
qed simp
section \<open>Copying a whole map\<close>

lemma distinct_map_keys:
  assumes "distinct (map fst xs)"
    and "\<And>p q. p \<in> set xs \<Longrightarrow> q \<in> set xs \<Longrightarrow> f p = f q \<Longrightarrow> fst p = fst q"
  shows "distinct (map f xs)"
  using assms
proof (induction xs)
  case (Cons x xs)
  have "f x \<notin> f ` set xs"
  proof
    assume "f x \<in> f ` set xs"
    then obtain q where "q \<in> set xs" "f x = f q" by auto
    moreover have "fst q \<noteq> fst x" using Cons.prems(1) \<open>q \<in> set xs\<close> by (simp add: image_iff) metis
    ultimately show False using Cons.prems(2) [of x q] by simp
  qed
  with Cons show ?case by simp
qed simp

lemma concat_batches [simp]: "concat (batches xs) = xs"
proof (induction xs rule: batches.induct)
  case (1 xs)
  have nil: "batches [] = []" by (simp add: batches.simps)
  show ?case
  proof (cases "xs = []")
    case False
    then show ?thesis using 1 by (simp add: batches.simps [of xs])
  qed (simp add: nil)
qed

text \<open>The id \<open>i\<close> is drawn afresh: no row is under it and none has it as its owner.\<close>

definition unused_id :: "'b codec \<Rightarrow> string \<Rightarrow> 'b meta_service \<Rightarrow> bool" where
  "unused_id cd i m \<longleftrightarrow>
     nul_free i \<and> (\<forall>k s ow. rows_of cd m k = Some (s, ow) \<longrightarrow> row_id (snd k) \<noteq> i \<and> ow \<noteq> as_bytes i)"

text \<open>The stripe of a chunk of a volume or a snapshot.\<close>

definition chunk_stripe :: "'b codec \<Rightarrow> chunk_table \<Rightarrow> string \<Rightarrow> nat \<Rightarrow> 'b meta_service \<Rightarrow> stripe_meta option" where
  "chunk_stripe cd tbl i c m =
     (case block_get (chunk_table_name tbl) (block_chunk_key i c) m of
        None \<Rightarrow> None
      | Some raw \<Rightarrow> (case dec_chunk cd raw of None \<Rightarrow> None | Some r \<Rightarrow> bc_stripe r))"

definition source_refs :: "'b codec \<Rightarrow> chunk_table \<Rightarrow> string \<Rightarrow> 'b meta_service \<Rightarrow> block_chunk_ref list" where
  "source_refs cd ft j m =
     map (\<lambda>(key, raw). the (dec_chunk cd raw)) (chunks_of (chunk_table_name ft) j 0 u64_max (ms_block m))"

lemma chunk_row_ref:
  assumes "rows_ok cd m" and "block_get (chunk_table_name tbl) key m = Some raw"
  shows "rows_of cd m (chunk_table_name tbl, key) = Some (ref_id (the (dec_chunk cd raw)), bc_owner (the (dec_chunk cd raw)))"
    and "dec_chunk cd raw = Some (the (dec_chunk cd raw))"
    and "bc_stripe (the (dec_chunk cd raw)) = Some (the (bc_stripe (the (dec_chunk cd raw))))"
    and "key = block_chunk_key (row_id key) (bc_chunk_id (the (dec_chunk cd raw)))"
    and "bc_chunk_id (the (dec_chunk cd raw)) < 2 ^ 64"
    and "tbl = Snapshot_chunks \<Longrightarrow> bc_owner (the (dec_chunk cd raw)) = as_bytes (row_id key)"
  by (rule row_of_chunk [OF assms]; simp add: ref_id_def)+

lemma unused_key:
  assumes inv: "meta_inv cd m" and un: "unused_id cd i m" and key: "row_id key = i"
  shows "block_get (chunk_table_name tbl) key m = None"
proof (rule ccontr)
  assume "block_get (chunk_table_name tbl) key m \<noteq> None"
  then obtain raw where raw: "block_get (chunk_table_name tbl) key m = Some raw" by blast
  from chunk_row_ref(1) [OF meta_invD(1) [OF inv] raw] show False
    using un key unfolding unused_id_def by fastforce
qed

lemma source_row_of:
  assumes inv: "meta_inv cd m" and j: "nul_free j" and un: "unused_id cd i m"
    and row: "(key, raw) \<in> set (chunks_of (chunk_table_name ft) j 0 u64_max (ms_block m))"
  shows "rows_of cd m (chunk_table_name ft, key) = Some (ref_id (the (dec_chunk cd raw)), bc_owner (the (dec_chunk cd raw)))"
    and "key = block_chunk_key j (bc_chunk_id (the (dec_chunk cd raw)))"
    and "source_row cd ft j tbl i m (key, raw) (the (dec_chunk cd raw))"
proof -
  note d = meta_invD [OF inv]
  have raw: "block_get (chunk_table_name ft) key m = Some raw" and id: "row_id key = j"
    using row all_chunks_iff [OF d(1) j] by blast+
  define r where "r = the (dec_chunk cd raw)"
  define st where "st = the (bc_stripe r)"
  note r = chunk_row_ref [OF d(1) raw, folded r_def, folded st_def]
  have i: "nul_free i" using un by (simp add: unused_id_def)
  have none: "rows_of cd m (share_target tbl i r) = None"
  proof (cases "rows_of cd m (share_target tbl i r)")
    case (Some p)
    then obtain s ow where "rows_of cd m (share_target tbl i r) = Some (s, ow)" by (cases p) auto
    then have "row_id (snd (share_target tbl i r)) \<noteq> i" using un unfolding unused_id_def by blast
    with i show ?thesis by (simp add: share_target_def)
  qed
  have owner: "(if release_flag ft then as_bytes j else bc_owner r) = bc_owner r"
    using r(6) id by (auto simp: release_flag_def)
  have "o1 \<noteq> as_bytes i \<and> row_group k1 \<noteq> row_group (share_target tbl i r)"
    if "rows_of cd m k1 = Some (st_object_id st, o1)" for k1 o1
  proof -
    have "row_id (snd k1) \<noteq> i \<and> o1 \<noteq> as_bytes i" using un that unfolding unused_id_def by blast
    with i show ?thesis by (auto simp: row_group_def share_target_def)
  qed
  then show "source_row cd ft j tbl i m (key, raw) (the (dec_chunk cd raw))"
    using r(1-3,5) none unfolding source_row_def shareable_def r_def [symmetric] owner ref_id_def st_def [symmetric]
    by auto
  show "rows_of cd m (chunk_table_name ft, key) = Some (ref_id (the (dec_chunk cd raw)), bc_owner (the (dec_chunk cd raw)))"
    using r(1) by (simp add: r_def)
  show "key = block_chunk_key j (bc_chunk_id (the (dec_chunk cd raw)))" using r(4) id by (simp add: r_def)
qed

lemma source_refs_facts:
  assumes inv: "meta_inv cd m" and j: "nul_free j" and un: "unused_id cd i m"
  shows "list_all2 (source_row cd ft j tbl i m) (chunks_of (chunk_table_name ft) j 0 u64_max (ms_block m)) (source_refs cd ft j m)"
    and "distinct (map (share_target tbl i) (source_refs cd ft j m))"
    and "distinct (map ref_id (source_refs cd ft j m))"
proof -
  let ?rows = "chunks_of (chunk_table_name ft) j 0 u64_max (ms_block m)"
  note d = meta_invD [OF inv]
  have i: "nul_free i" using un by (simp add: unused_id_def)
  note src = source_row_of [OF inv j un]
  have each: "source_row cd ft j tbl i m p (case p of (key, raw) \<Rightarrow> the (dec_chunk cd raw))" if "p \<in> set ?rows" for p
    using src(3) [of "fst p" "snd p"] that by (simp add: case_prod_beta)
  show "list_all2 (source_row cd ft j tbl i m) ?rows (source_refs cd ft j m)"
    unfolding source_refs_def list.rel_map by (rule list.rel_refl_strong) (use each in blast)
  have dist: "distinct (map fst ?rows)"
    using chunks_of_distinct d(1) unfolding rows_ok_def by blast
  have chunk: "fst p = block_chunk_key j (bc_chunk_id (the (dec_chunk cd (snd p))))" if "p \<in> set ?rows" for p
    using src(2) [of "fst p" "snd p"] that by simp
  then have same_chunk: "fst p = fst q"
    if "p \<in> set ?rows" "q \<in> set ?rows" "bc_chunk_id (the (dec_chunk cd (snd p))) = bc_chunk_id (the (dec_chunk cd (snd q)))" for p q
    using that by metis
  have same_stripe: "fst p = fst q"
    if p: "p \<in> set ?rows" and q: "q \<in> set ?rows"
      and eq: "ref_id (the (dec_chunk cd (snd p))) = ref_id (the (dec_chunk cd (snd q)))" for p q
  proof -
    define s where "s = ref_id (the (dec_chunk cd (snd p)))"
    have k: "rows_of cd m (chunk_table_name ft, fst p) = Some (s, bc_owner (the (dec_chunk cd (snd p))))"
        "rows_of cd m (chunk_table_name ft, fst q) = Some (s, bc_owner (the (dec_chunk cd (snd q))))"
      using src(1) [of "fst p" "snd p"] src(1) [of "fst q" "snd q"] p q eq by (simp_all add: s_def)
    have id: "row_id (fst p) = row_id (fst q)"
      unfolding chunk [OF p] chunk [OF q] using j by simp
    have "rows_apart row_group (sharing_of cd m)" using d(3) by (simp add: sharing_inv_def)
    from rows_apartD [OF this, of "(chunk_table_name ft, fst p)" s _ "(chunk_table_name ft, fst q)"] k id
    have "(chunk_table_name ft, fst p) = (chunk_table_name ft, fst q)"
      by (simp add: sharing_of_def row_group_def)
    then show ?thesis by simp
  qed
  have refs: "source_refs cd ft j m = map (\<lambda>p. the (dec_chunk cd (snd p))) ?rows"
    by (simp add: source_refs_def case_prod_beta')
  show "distinct (map (share_target tbl i) (source_refs cd ft j m))"
    unfolding refs map_map comp_def
  proof (rule distinct_map_keys [OF dist])
    fix p q
    assume pq: "p \<in> set ?rows" "q \<in> set ?rows"
      and "share_target tbl i (the (dec_chunk cd (snd p))) = share_target tbl i (the (dec_chunk cd (snd q)))"
    then have "bc_chunk_id (the (dec_chunk cd (snd p))) = bc_chunk_id (the (dec_chunk cd (snd q)))"
      using block_chunk_key_inj [OF i i] by (simp add: share_target_def)
    with same_chunk pq show "fst p = fst q" by blast
  qed
  show "distinct (map ref_id (source_refs cd ft j m))"
    unfolding refs map_map comp_def by (rule distinct_map_keys [OF dist same_stripe])
qed
text \<open>The records of the copy: the source's, under the new id.\<close>

lemma find_target:
  assumes "distinct (map (share_target tbl i) rs)" and "r \<in> set rs"
  shows "find (\<lambda>r'. share_target tbl i r' = share_target tbl i r) rs = Some r"
  using assms
proof (induction rs)
  case (Cons a rs)
  have "share_target tbl i a \<noteq> share_target tbl i r" if "r \<in> set rs"
    using Cons.prems(1) imageI [OF that, of "share_target tbl i"] by auto
  with Cons show ?case by auto
qed simp

lemma copied_stripe:
  assumes cd: "codec_ok cd" and inv: "meta_inv cd m" and j: "nul_free j" and un: "unused_id cd i m"
    and copy: "block_get (chunk_table_name tbl) (block_chunk_key i c) m' =
      op_value (map (share_op cd tbl i) (source_refs cd ft j m)) (chunk_table_name tbl) (block_chunk_key i c)
        (block_get (chunk_table_name tbl) (block_chunk_key i c) m)"
  shows "chunk_stripe cd tbl i c m' = chunk_stripe cd ft j c m"
proof -
  let ?rows = "chunks_of (chunk_table_name ft) j 0 u64_max (ms_block m)"
  let ?rs = "source_refs cd ft j m"
  have i: "nul_free i" using un by (simp add: unused_id_def)
  note ok = meta_invD(1) [OF inv] and src = source_refs_facts(1,2) [OF inv j un, where ft = ft and tbl = tbl]
  note val = op_value_share [OF src(2), of cd c "block_get (chunk_table_name tbl) (block_chunk_key i c) m"]
  have old: "block_get (chunk_table_name tbl) (block_chunk_key i c) m = None"
    using unused_key [OF inv un] i by simp
  show ?thesis
  proof (cases "block_get (chunk_table_name ft) (block_chunk_key j c) m")
    case (Some raw)
    let ?r = "the (dec_chunk cd raw)"
    note r = chunk_row_ref [OF ok Some]
    have "row_id (block_chunk_key j c) = j" using j by simp
    then have "(block_chunk_key j c, raw) \<in> set ?rows" using all_chunks_iff [OF ok j] Some by blast
    then have mem: "?r \<in> set ?rs" by (force simp: source_refs_def)
    have c: "bc_chunk_id ?r = c" using r(4) block_chunk_key_inj [OF j j] j by simp
    have "find (\<lambda>r. share_target tbl i r = (chunk_table_name tbl, block_chunk_key i c)) ?rs = Some ?r"
      using find_target [OF src(2) mem] c by (simp add: share_target_def)
    then have "block_get (chunk_table_name tbl) (block_chunk_key i c) m' = Some (enc_chunk cd (?r\<lparr>bc_owner := as_bytes i\<rparr>))"
      using copy val by simp
    then show ?thesis using Some r(2) cd by (cases "dec_chunk cd raw") (simp_all add: chunk_stripe_def codec_ok_def)
  next
    case None
    have "find (\<lambda>r. share_target tbl i r = (chunk_table_name tbl, block_chunk_key i c)) ?rs = None"
      unfolding find_None_iff
    proof (intro notI, elim exE conjE)
      fix r
      assume r: "r \<in> set ?rs" and t: "share_target tbl i r = (chunk_table_name tbl, block_chunk_key i c)"
      from r obtain key raw where row: "(key, raw) \<in> set ?rows" and r': "r = the (dec_chunk cd raw)"
        by (auto simp: source_refs_def)
      have "bc_chunk_id r = c" using t block_chunk_key_inj [OF i i] by (simp add: share_target_def)
      then have "key = block_chunk_key j c" using source_row_of(2) [OF inv j un row] r' by simp
      with row None show False using all_chunks_iff [OF ok j] by simp
    qed
    then show ?thesis using copy val None old by (simp add: chunk_stripe_def)
  qed
qed

lemma share_chunks_copies:
  assumes cd: "codec_ok cd" and inv: "meta_inv cd m" and j: "nul_free j" and un: "unused_id cd i m"
    and run: "share_chunks cd ft j (release_flag ft) tbl i m = (r, m')"
  shows "meta_inv cd m'" and "framed (chunk_table_name tbl) i m m'" and "held (sharing_of cd m') = held (sharing_of cd m)"
    and "r = Inr () \<Longrightarrow> chunk_stripe cd tbl i c m' = chunk_stripe cd ft j c m"
proof -
  have i: "nul_free i" using un by (simp add: unused_id_def)
  note src = source_refs_facts(1,2) [OF inv j un, where ft = ft and tbl = tbl]
    source_refs_facts(3) [OF inv j un, where ft = ft]
  have l: "list_all2 (source_row cd ft j tbl i m)
      (concat (batches (chunks_of (chunk_table_name ft) j 0 u64_max (ms_block m)))) (source_refs cd ft j m)"
    using src(1) by simp
  note sb = share_batches_copy [OF cd i inv l src(2,3) run [unfolded share_chunks_def]]
  then show "meta_inv cd m'" and "framed (chunk_table_name tbl) i m m'" and "held (sharing_of cd m') = held (sharing_of cd m)"
    by blast+
  show "chunk_stripe cd tbl i c m' = chunk_stripe cd ft j c m" if "r = Inr ()"
    using sb that by (intro copied_stripe [OF cd inv j un]) simp
qed

lemma chunk_stripe_same:
  "(\<And>k. block_get (chunk_table_name tbl) k m' = block_get (chunk_table_name tbl) k m) \<Longrightarrow>
     chunk_stripe cd tbl i c m' = chunk_stripe cd tbl i c m"
  by (simp add: chunk_stripe_def)

text \<open>
  A copy: write the row of the new volume or snapshot, share the map, write the row again as
  available. \<open>first\<close> may refuse.
\<close>

lemma copy_stages:
  assumes cd: "codec_ok cd" and inv: "meta_inv cd m" and j: "nul_free j" and un: "unused_id cd i m"
    and first: "first m = Inl e \<or>
      (\<exists>ops. first m = Inr (ops, ()) \<and> (\<forall>op \<in> set ops. op_ok cd op \<and> bo_table op \<notin> chunk_table_names))"
    and final: "op_ok cd final \<and> bo_table final \<notin> chunk_table_names"
    and run: "then_do (block_retry cd first m)
      (\<lambda>_ m1. then_do (share_chunks cd ft j (release_flag ft) tbl i m1)
        (\<lambda>_ m2. then_do (block_retry cd (\<lambda>_. Inr ([final], ())) m2) (\<lambda>_ m3. (Inr out, m3)))) = (r, m')"
  shows "meta_inv cd m'" and "chunk_framed (chunk_table_name tbl) i m m'"
    and "held (sharing_of cd m') = held (sharing_of cd m)"
    and "r = Inr out' \<Longrightarrow> out' = out"
    and "r = Inr out' \<Longrightarrow> chunk_stripe cd tbl i c m' = chunk_stripe cd ft j c m"
    and "r = Inr out' \<Longrightarrow> block_get (bo_table final) (bo_key final) m' = bo_new final"
proof -
  let ?t = "chunk_table_name tbl"
  obtain r1 m1 where s1: "block_retry cd first m = (r1, m1)" by force
  have m1: "meta_inv cd m1 \<and> sharing_of cd m1 = sharing_of cd m \<and>
      (\<forall>t \<in> chunk_table_names. \<forall>k. block_get t k m1 = block_get t k m)"
    using first
  proof (elim disjE exE conjE)
    assume "first m = Inl e"
    then show ?thesis using retry_refused [of first m e cd] s1 inv by simp
  next
    fix ops
    assume "first m = Inr (ops, ())" "\<forall>op \<in> set ops. op_ok cd op \<and> bo_table op \<notin> chunk_table_names"
    from retry_plain_rows [OF cd inv this s1] show ?thesis by blast
  qed
  have un1: "unused_id cd i m1" using un m1 by (simp add: unused_id_def sharing_of_def)
  have stripe1: "chunk_stripe cd t' i' c m1 = chunk_stripe cd t' i' c m" for t' i' c
    by (rule chunk_stripe_same) (use m1 chunk_table_name_in in blast)
  have "meta_inv cd m' \<and> chunk_framed ?t i m m' \<and> held (sharing_of cd m') = held (sharing_of cd m) \<and>
    (\<forall>out'. r = Inr out' \<longrightarrow> out' = out \<and> chunk_stripe cd tbl i c m' = chunk_stripe cd ft j c m \<and>
       block_get (bo_table final) (bo_key final) m' = bo_new final)"
  proof (cases r1)
    case (Inl e1)
    then have "r = Inl e1" "m' = m1" using run s1 by simp_all
    then show ?thesis using m1 by (simp add: chunk_framed_def)
  next
    case (Inr x)
    obtain r2 m2 where s2: "share_chunks cd ft j (release_flag ft) tbl i m1 = (r2, m2)" by force
    have inv1: "meta_inv cd m1" using m1 by blast
    note sh = share_chunks_copies [OF cd inv1 j un1 s2]
    have f1: "chunk_framed ?t i m m1" using m1 by (simp add: chunk_framed_def)
    have f2: "chunk_framed ?t i m m2" using chunk_framed_trans [OF f1 framed_chunks [OF sh(2)]] .
    show ?thesis
    proof (cases r2)
      case (Inl e2)
      then have "r = Inl e2" "m' = m2" using run s1 s2 Inr by simp_all
      then show ?thesis using m1 sh(1,3) f2 by simp
    next
      case r2: (Inr y)
      obtain r3 m3 where s3: "block_retry cd (\<lambda>_. Inr ([final], ())) m2 = (r3, m3)" by force
      have fin: "\<forall>op \<in> set [final]. op_ok cd op \<and> bo_table op \<notin> chunk_table_names" using final by simp
      note c = retry_plain_rows [where build = "\<lambda>_. Inr ([final], ())", OF cd sh(1) refl fin s3]
      have m': "m' = m3" and r: "r = (case r3 of Inl e \<Rightarrow> Inl e | Inr _ \<Rightarrow> Inr out)"
        using run s1 s2 s3 Inr r2 by (auto simp: then_do_def split: sum.splits)
      have "chunk_framed ?t i m m3" using chunk_framed_trans [OF f2 chunk_framed_all] c(4) by blast
      moreover have "chunk_stripe cd tbl i c m3 = chunk_stripe cd ft j c m"
        using chunk_stripe_same [of tbl m3 m2 cd i c] c(4) chunk_table_name_in sh(4) r2 stripe1 by simp
      moreover have "block_get (bo_table final) (bo_key final) m3 = bo_new final" if ok: "r = Inr out'" for out'
      proof -
        obtain z where "r3 = Inr z" using ok r by (cases r3) auto
        moreover have "bo_table final \<in> set TABLES" using final by (simp add: op_ok_def)
        ultimately show ?thesis using c(5) by (simp add: op_value_Cons)
      qed
      moreover have "out' = out" if "r = Inr out'" for out' using that r by (cases r3) auto
      ultimately show ?thesis using m' c(1,2) sh(3) m1 by simp
    qed
  qed
  then show "meta_inv cd m'" and "chunk_framed ?t i m m'" and "held (sharing_of cd m') = held (sharing_of cd m)"
    and "r = Inr out' \<Longrightarrow> out' = out"
    and "r = Inr out' \<Longrightarrow> chunk_stripe cd tbl i c m' = chunk_stripe cd ft j c m"
    and "r = Inr out' \<Longrightarrow> block_get (bo_table final) (bo_key final) m' = bo_new final" by blast+
qed
section \<open>The handlers\<close>

definition available_snapshot :: "string \<Rightarrow> nat \<Rightarrow> string \<Rightarrow> meta_volume \<Rightarrow> meta_snapshot" where
  "available_snapshot uuid now name v =
     \<lparr>mp_snapshot_id = uuid, mp_volume_id = mv_volume_id v, mp_name = name, mp_size_bytes = mv_size_bytes v,
      mp_unique_bytes = 0, mp_state = SS_Available, mp_created_at = now, mp_metadata = []\<rparr>"

lemma meta_create_snapshot_inv:
  assumes cd: "codec_ok cd" and inv: "meta_inv cd m" and un: "unused_id cd uuid m"
    and run: "block_create_snapshot_impl cd uuid now i name m = (r, m')"
  shows "meta_inv cd m'" and "chunk_framed SNAP_CHUNKS uuid m m'" and "held (sharing_of cd m') = held (sharing_of cd m)"
    and "r = Inr s \<Longrightarrow> mp_snapshot_id s = uuid \<and> meta_get_snapshot cd uuid m' = Inr s"
    and "r = Inr s \<Longrightarrow> chunk_stripe cd Snapshot_chunks uuid c m' = chunk_stripe cd Volume_chunks i c m"
proof -
  have "meta_inv cd m' \<and> chunk_framed SNAP_CHUNKS uuid m m' \<and> held (sharing_of cd m') = held (sharing_of cd m) \<and>
    (\<forall>s. r = Inr s \<longrightarrow> mp_snapshot_id s = uuid \<and> meta_get_snapshot cd uuid m' = Inr s \<and>
       chunk_stripe cd Snapshot_chunks uuid c m' = chunk_stripe cd Volume_chunks i c m)"
  proof (cases "\<exists>v. meta_get_volume cd i m = Inr v \<and> mv_state v \<notin> {VS_Deleting, VS_Creating}")
    case False
    then have "m' = m" "\<exists>e. r = Inl e"
      using run by (auto simp: block_create_snapshot_impl_def split: if_splits sum.splits)
    then show ?thesis using inv by auto
  next
    case True
    then obtain v where v: "meta_get_volume cd i m = Inr v" "mv_state v \<notin> {VS_Deleting, VS_Creating}" by blast
    note vf = volume_found [OF meta_invD(1) [OF inv] v(1)]
    define ready where "ready = available_snapshot uuid now name v"
    have uuid: "nul_free uuid" using un by (simp add: unused_id_def)
    have b: "put_snapshot_build cd w = (\<lambda>_. Inr ([put_snapshot cd w], ()))" for w
      by (rule ext) (simp add: put_snapshot_build_def)
    have first: "put_snapshot_build cd (ready\<lparr>mp_state := SS_Creating\<rparr>) m = Inl Internal \<or>
        (\<exists>ops. put_snapshot_build cd (ready\<lparr>mp_state := SS_Creating\<rparr>) m = Inr (ops, ()) \<and>
          (\<forall>op \<in> set ops. op_ok cd op \<and> bo_table op \<notin> chunk_table_names))"
      using put_snapshot_ok [OF cd, of "ready\<lparr>mp_state := SS_Creating\<rparr>"] uuid
      by (simp add: put_snapshot_build_def ready_def available_snapshot_def)
    have final: "op_ok cd (put_snapshot cd ready) \<and> bo_table (put_snapshot cd ready) \<notin> chunk_table_names"
      using put_snapshot_ok [OF cd, of ready] uuid by (simp add: ready_def available_snapshot_def)
    have "then_do (block_retry cd (put_snapshot_build cd (ready\<lparr>mp_state := SS_Creating\<rparr>)) m)
        (\<lambda>_ m1. then_do (share_chunks cd Volume_chunks i (release_flag Volume_chunks) Snapshot_chunks uuid m1)
          (\<lambda>_ m2. then_do (block_retry cd (\<lambda>_. Inr ([put_snapshot cd ready], ())) m2) (\<lambda>_ m3. (Inr ready, m3)))) = (r, m')"
      using run v vf(1) by (simp add: block_create_snapshot_impl_def Let_def b ready_def available_snapshot_def release_flag_def)
    note cs = copy_stages [OF cd inv vf(2) un first final this]
    have "meta_get_snapshot cd uuid m' = Inr ready" if "r = Inr s" for s
      using cs(6) [OF that] cd
      by (simp add: put_snapshot_def put_op_def meta_get_snapshot_def codec_ok_def ready_def available_snapshot_def)
    moreover have "mp_snapshot_id ready = uuid" by (simp add: ready_def available_snapshot_def)
    ultimately have "mp_snapshot_id s = uuid \<and> meta_get_snapshot cd uuid m' = Inr s \<and>
        chunk_stripe cd Snapshot_chunks uuid c m' = chunk_stripe cd Volume_chunks i c m" if "r = Inr s" for s
      using cs(4) [OF that] cs(5) [OF that] that by simp
    then show ?thesis using cs(1-3) by simp
  qed
  then show "meta_inv cd m'" and "chunk_framed SNAP_CHUNKS uuid m m'" and "held (sharing_of cd m') = held (sharing_of cd m)"
    and "r = Inr s \<Longrightarrow> mp_snapshot_id s = uuid \<and> meta_get_snapshot cd uuid m' = Inr s"
    and "r = Inr s \<Longrightarrow> chunk_stripe cd Snapshot_chunks uuid c m' = chunk_stripe cd Volume_chunks i c m"
    by blast+
qed

lemma clone_volume_inv:
  assumes cd: "codec_ok cd" and inv: "meta_inv cd m" and un: "unused_id cd uuid m"
    and run: "block_clone_volume_impl cd uuid now now' i name m = (r, m')"
  shows "meta_inv cd m'" and "chunk_framed CHUNKS uuid m m'" and "held (sharing_of cd m') = held (sharing_of cd m)"
    and "r = Inr v \<Longrightarrow> mv_volume_id v = uuid \<and> meta_get_volume cd uuid m' = Inr v"
    and "r = Inr v \<Longrightarrow> chunk_stripe cd Volume_chunks uuid c m' = chunk_stripe cd Snapshot_chunks i c m"
proof -
  have "meta_inv cd m' \<and> chunk_framed CHUNKS uuid m m' \<and> held (sharing_of cd m') = held (sharing_of cd m) \<and>
    (\<forall>v. r = Inr v \<longrightarrow> mv_volume_id v = uuid \<and> meta_get_volume cd uuid m' = Inr v \<and>
       chunk_stripe cd Volume_chunks uuid c m' = chunk_stripe cd Snapshot_chunks i c m)"
  proof (cases "\<exists>s. meta_get_snapshot cd i m = Inr s \<and> mp_state s = SS_Available \<and> name \<noteq> ''''")
    case False
    then have "m' = m" "\<exists>e. r = Inl e"
      using run by (auto simp: block_clone_volume_impl_def split: if_splits sum.splits)
    then show ?thesis using inv by auto
  next
    case True
    then obtain s where s: "meta_get_snapshot cd i m = Inr s" "mp_state s = SS_Available" "name \<noteq> ''''" by blast
    note sf = snapshot_found [OF meta_invD(1) [OF inv] s(1)]
    let ?source = "meta_get_volume cd (mp_volume_id s) m"
    define clone where "clone = \<lparr>mv_volume_id = uuid, mv_name = name, mv_size_bytes = mp_size_bytes s,
      mv_used_bytes = 0, mv_pool = (case ?source of Inr v \<Rightarrow> mv_pool v | Inl _ \<Rightarrow> ''''),
      mv_state = VS_Creating, mv_created_at = now, mv_updated_at = now, mv_parent_snapshot_id = mp_snapshot_id s,
      mv_chunk_size_bytes = (case ?source of Inr v \<Rightarrow> mv_chunk_size_bytes v | Inl _ \<Rightarrow> META_CHUNK_SIZE),
      mv_metadata = [], mv_qos = None, mv_attached_read_only = False\<rparr>"
    define ready where "ready = clone\<lparr>mv_state := VS_Available, mv_updated_at := now'\<rparr>"
    have ids: "mv_volume_id clone = uuid" "mv_volume_id ready = uuid" by (simp_all add: clone_def ready_def)
    have uuid: "nul_free uuid" using un by (simp add: unused_id_def)
    have b: "put_volume_build cd w = (\<lambda>_. Inr ([put_volume cd w], ()))" for w
      by (rule ext) (simp add: put_volume_build_def)
    have first: "clone_volume_build cd clone m = Inl Already_exists \<or>
        (\<exists>ops. clone_volume_build cd clone m = Inr (ops, ()) \<and>
          (\<forall>op \<in> set ops. op_ok cd op \<and> bo_table op \<notin> chunk_table_names))"
      using put_volume_ok [OF cd, of clone] put_name_ok uuid ids by (auto simp: clone_volume_build_def)
    have final: "op_ok cd (put_volume cd ready) \<and> bo_table (put_volume cd ready) \<notin> chunk_table_names"
      using put_volume_ok [OF cd, of ready] uuid ids by simp
    have "then_do (block_retry cd (clone_volume_build cd clone) m)
        (\<lambda>_ m1. then_do (share_chunks cd Snapshot_chunks i (release_flag Snapshot_chunks) Volume_chunks uuid m1)
          (\<lambda>_ m2. then_do (block_retry cd (\<lambda>_. Inr ([put_volume cd ready], ())) m2) (\<lambda>_ m3. (Inr ready, m3)))) = (r, m')"
      using run s sf(1)
      by (simp add: block_clone_volume_impl_def Let_def ready_def clone_def b release_flag_def)
    note cs = copy_stages [OF cd inv sf(2) un first final this]
    have "meta_get_volume cd uuid m' = Inr ready" if "r = Inr v" for v
      using cs(6) [OF that] cd ids by (simp add: put_volume_def put_op_def meta_get_volume_def codec_ok_def)
    then have "mv_volume_id v = uuid \<and> meta_get_volume cd uuid m' = Inr v \<and>
        chunk_stripe cd Volume_chunks uuid c m' = chunk_stripe cd Snapshot_chunks i c m" if "r = Inr v" for v
      using cs(4) [OF that] cs(5) [OF that] that ids by simp
    then show ?thesis using cs(1-3) by simp
  qed
  then show "meta_inv cd m'" and "chunk_framed CHUNKS uuid m m'" and "held (sharing_of cd m') = held (sharing_of cd m)"
    and "r = Inr v \<Longrightarrow> mv_volume_id v = uuid \<and> meta_get_volume cd uuid m' = Inr v"
    and "r = Inr v \<Longrightarrow> chunk_stripe cd Volume_chunks uuid c m' = chunk_stripe cd Snapshot_chunks i c m"
    by blast+
qed

end
