(* ===== verification/Meta_Steps.thy ===== *)
theory Meta_Steps
  imports Meta_Snapshots
begin

text \<open>
  The block metadata as a system: every handler is a step, a run is any sequence of them, and the
  invariant holds in every state a run reaches. On it rest the component's properties.
\<close>

section \<open>Volumes\<close>

lemma create_volume_inv:
  assumes cd: "codec_ok cd" and inv: "meta_inv cd m" and uuid: "nul_free uuid"
    and run: "block_create_volume_impl cd uuid now name sz pool chunk meta m = (r, m')"
  shows "meta_inv cd m'" and "sharing_of cd m' = sharing_of cd m"
proof -
  have "meta_inv cd m' \<and> sharing_of cd m' = sharing_of cd m"
  proof (cases "name = '''' \<or> sz = 0")
    case True
    then show ?thesis using run inv by (auto simp: block_create_volume_impl_def)
  next
    case False
    define v where "v = \<lparr>mv_volume_id = uuid, mv_name = name, mv_size_bytes = sz, mv_used_bytes = 0, mv_pool = pool,
      mv_state = VS_Available, mv_created_at = now, mv_updated_at = now, mv_parent_snapshot_id = [],
      mv_chunk_size_bytes = (if chunk = 0 then META_CHUNK_SIZE else chunk), mv_metadata = meta, mv_qos = None, mv_attached_read_only = False\<rparr>"
    have v: "mv_volume_id v = uuid" by (simp add: v_def)
    have retry: "block_retry cd (create_volume_build cd v) m = (r, m')"
      using run False by (simp add: block_create_volume_impl_def v_def)
    have ok: "\<forall>op \<in> set [put_volume cd v, put_name cd v]. op_ok cd op \<and> bo_table op \<notin> chunk_table_names"
      using put_volume_ok [OF cd, of v] put_name_ok v uuid by simp
    show ?thesis
    proof (cases "block_get NAMES (mv_name v) m")
      case None
      then have "create_volume_build cd v m = Inr ([put_volume cd v, put_name cd v], v)"
        by (simp add: create_volume_build_def)
      from retry_plain_rows(1,2) [OF cd inv this ok retry] show ?thesis by blast
    next
      case (Some raw)
      then have "create_volume_build cd v m = Inl Already_exists" by (simp add: create_volume_build_def)
      from retry_refused [of "create_volume_build cd v", OF this, of cd] retry inv show ?thesis by simp
    qed
  qed
  then show "meta_inv cd m'" and "sharing_of cd m' = sharing_of cd m" by blast+
qed

lemma meta_update_volume_inv:
  assumes cd: "codec_ok cd" and inv: "meta_inv cd m"
    and run: "block_update_volume_impl cd now i sz state ro m = (r, m')"
  shows "meta_inv cd m'" and "sharing_of cd m' = sharing_of cd m"
proof -
  let ?build = "update_volume_build cd now i sz state ro"
  have retry: "block_retry cd ?build m = (r, m')" using run by (simp add: block_update_volume_impl_def)
  have "meta_inv cd m' \<and> sharing_of cd m' = sharing_of cd m"
  proof (cases "?build m")
    case (Inl e)
    from retry_refused [of ?build, OF this, of cd] retry inv show ?thesis by simp
  next
    case (Inr p)
    obtain v where v: "meta_get_volume cd i m = Inr v"
      using Inr by (auto simp: update_volume_build_def and_then_eq_Inr_iff)
    have vf: "mv_volume_id v = i" "nul_free i" using volume_found [OF meta_invD(1) [OF inv] v] by simp_all
    then obtain w where b: "?build m = Inr ([put_volume cd w], w)" "mv_volume_id w = i"
      using Inr v by (auto simp: update_volume_build_def Let_def split: if_splits)
    have ok: "\<forall>op \<in> set [put_volume cd w]. op_ok cd op \<and> bo_table op \<notin> chunk_table_names"
      using put_volume_ok [OF cd, of w] b(2) vf by simp
    from retry_plain_rows(1,2) [OF cd inv b(1) ok retry] show ?thesis by blast
  qed
  then show "meta_inv cd m'" and "sharing_of cd m' = sharing_of cd m" by blast+
qed

section \<open>Moving and adding shards\<close>

lemma chunk_rows_iff:
  assumes "rows_ok cd m"
  shows "(t, k, raw) \<in> set (chunk_rows (ms_block m)) \<longleftrightarrow> t \<in> chunk_table_names \<and> block_get t k m = Some raw"
proof -
  have "bt_sorted (ms_block m)" using assms by (simp add: rows_ok_def)
  then have get: "(k, raw) \<in> set (table_rows t (ms_block m)) \<longleftrightarrow> block_get t k m = Some raw" for t
    by (simp add: set_table_rows block_get_def bt_get_items)
  show ?thesis using get by (auto simp: chunk_rows_def chunk_table_names_def)
qed

text \<open>A rewrite that keeps the stripe's id, of a record \<open>r\<close> that is there.\<close>

definition same_holder :: "'b codec \<Rightarrow> 'b meta_service \<Rightarrow> 'b block_op \<Rightarrow> bool" where
  "same_holder cd m op \<longleftrightarrow> bo_table op \<in> chunk_table_names \<and> op_ok cd op \<and>
     rows_of cd m (bo_table op, bo_key op) = Option.bind (bo_new op) (held_by cd)"

lemma rows_after_same: "\<forall>op \<in> set ops. same_holder cd m op \<Longrightarrow> rows_after cd ops (rows_of cd m) = rows_of cd m"
proof (induction ops)
  case (Cons op ops)
  have "row_update cd op (rows_of cd m) = rows_of cd m"
    using Cons.prems by (auto simp: row_update_def same_holder_def fun_eq_iff)
  with Cons show ?case by simp
qed simp

lemma rewrite_op_same:
  assumes cd: "codec_ok cd" and ok: "rows_ok cd m" and get: "block_get t key m = Some raw" and t: "t \<in> chunk_table_names"
    and r: "dec_chunk cd raw = Some r" "bc_stripe r = Some st" and id: "st_object_id st' = st_object_id st"
  shows "same_holder cd m (put_op t key (enc_chunk cd (r\<lparr>bc_stripe := Some st'\<rparr>)))"
proof -
  obtain tbl where tbl: "t = chunk_table_name tbl"
    using t by (auto simp: chunk_table_names_def intro: that [of Volume_chunks] that [of Snapshot_chunks])
  have "chunk_row_ok cd tbl key raw" using chunk_row_okI [OF ok] get tbl by simp
  then obtain i where "nul_free i" "key = block_chunk_key i (bc_chunk_id r)" "bc_chunk_id r < 2 ^ 64"
      "bc_owner r = as_bytes i \<or> tbl = Volume_chunks \<and> bc_owner r = st_object_id st"
    using r unfolding chunk_row_ok_def by auto
  then have "chunk_row_ok cd tbl key (enc_chunk cd (r\<lparr>bc_stripe := Some st'\<rparr>))"
    unfolding chunk_row_ok_def
    by (intro exI [of _ i] exI [of _ "r\<lparr>bc_stripe := Some st'\<rparr>"] exI [of _ st'])
      (use cd id in \<open>simp add: codec_ok_def\<close>)
  then have "op_ok cd (put_op t key (enc_chunk cd (r\<lparr>bc_stripe := Some st'\<rparr>)))"
    using tbl by (cases tbl) (simp_all add: op_ok_def put_op_def row_ok_def)
  moreover have "rows_of cd m (t, key) = held_by cd (enc_chunk cd (r\<lparr>bc_stripe := Some st'\<rparr>))"
    using get t r id cd by (simp add: rows_of_def block_get_def held_by_def codec_ok_def)
  ultimately show ?thesis using t by (simp add: same_holder_def put_op_def)
qed

lemma rewrite_rows_same:
  assumes cd: "codec_ok cd" and ok: "rows_ok cd m"
    and keep: "\<And>st st'. change st = Some st' \<Longrightarrow> st_object_id st' = st_object_id st"
  shows "set rows \<subseteq> set (chunk_rows (ms_block m)) \<Longrightarrow> rewrite_rows cd oid change rows = Inr ops \<Longrightarrow>
    \<forall>op \<in> set ops. same_holder cd m op"
proof (induction rows arbitrary: ops)
  case (Cons p rows)
  obtain t key raw where p: "p = (t, key, raw)" by (cases p) auto
  have row: "t \<in> chunk_table_names" "block_get t key m = Some raw"
    using Cons.prems(1) p chunk_rows_iff [OF ok] by auto
  obtain r ops1 where r: "dec_chunk cd raw = Some r" "rewrite_rows cd oid change rows = Inr ops1"
    using Cons.prems(2) p by (auto simp: and_then_eq_Inr_iff split: option.splits)
  have "\<forall>op \<in> set ops1. same_holder cd m op" using Cons r(2) by simp
  moreover have "same_holder cd m (put_op t key (enc_chunk cd (r\<lparr>bc_stripe := Some st'\<rparr>)))"
    if "bc_stripe r = Some st" "change st = Some st'" for st st'
    using rewrite_op_same [OF cd ok row(2,1) r(1) that(1) keep [OF that(2)]] .
  ultimately show ?case
    using Cons.prems(2) p r by (auto split: option.splits if_splits)
qed simp

lemma rewrite_inv:
  assumes cd: "codec_ok cd" and inv: "meta_inv cd m"
    and keep: "\<And>st st'. change st = Some st' \<Longrightarrow> st_object_id st' = st_object_id st"
    and run: "block_retry cd (rewrite_build cd oid change) m = (r, m')"
  shows "meta_inv cd m'" and "sharing_of cd m' = sharing_of cd m"
proof -
  note ok = meta_invD(1) [OF inv]
  have "meta_inv cd m' \<and> sharing_of cd m' = sharing_of cd m"
  proof (cases "rewrite_rows cd oid change (chunk_rows (ms_block m))")
    case (Inl e)
    then have "rewrite_build cd oid change m = Inl e" by (simp add: rewrite_build_def)
    from retry_refused [of "rewrite_build cd oid change", OF this, of cd] run inv show ?thesis by simp
  next
    case (Inr ops)
    have same: "\<forall>op \<in> set ops. same_holder cd m op"
      using rewrite_rows_same [OF cd ok keep subset_refl Inr] .
    then have good: "\<forall>op \<in> set ops. op_ok cd op" by (simp add: same_holder_def)
    have b: "rewrite_build cd oid change m = Inr (ops @ refs_into_ops cd [], length ops)"
      using Inr by (simp add: rewrite_build_def)
    have share: "sharing_inv row_group \<lparr>sh_rows = rows_after cd ops (rows_of cd m), sh_reg = reg_of cd m []\<rparr>"
      using meta_invD(3) [OF inv] by (simp add: rows_after_same [OF same] sharing_of_def)
    note ri = retry_inv [OF cd inv b good bt_sorted_Nil share run]
    have "sharing_of cd m' = sharing_of cd m" if "committed cd ops [] m m'"
      using that by (simp add: committed_def rows_after_same [OF same] sharing_of_def)
    moreover have "sharing_of cd m' = sharing_of cd m" if "same_caches m m'" using sharing_of_same [OF that] .
    ultimately show ?thesis using ri by (cases r) auto
  qed
  then show "meta_inv cd m'" and "sharing_of cd m' = sharing_of cd m" by blast+
qed

lemma shards_keep_id:
  "move_shard p from to st = Some st' \<Longrightarrow> st_object_id st' = st_object_id st"
  "add_shards added st = Some st' \<Longrightarrow> st_object_id st' = st_object_id st"
  by (auto simp: move_shard_def add_shards_def Let_def split: if_splits)
section \<open>Runs\<close>

text \<open>
  The requests that change the block tables, and the ones of the repairer and the drainer, as
  \<^verbatim>\<open>crates/meta/src/service/block.rs\<close> dispatches them. New ids and the times are part of a request.
\<close>

datatype meta_request =
    Create_volume string nat string nat string nat "(string \<times> string) list"
  | Update_volume nat string nat meta_volume_state bool
  | Delete_volume nat string
  | Commit_chunks string "chunk_update list"
  | Create_snapshot string nat string string
  | Delete_snapshot string
  | Clone_volume string nat nat string string
  | Move_shard bytes nat bytes shard_location
  | Add_shard_locations bytes "shard_location list"

text \<open>The stripes an answer reports as free, and the state after it.\<close>

definition reported :: "meta_status + stripe_meta list \<Rightarrow> stripe_meta list" where
  "reported r = (case r of Inl e \<Rightarrow> [] | Inr free \<Rightarrow> free)"

fun meta_handle :: "'b codec \<Rightarrow> meta_request \<Rightarrow> 'b meta_service \<Rightarrow> stripe_meta list \<times> 'b meta_service" where
  "meta_handle cd (Create_volume uuid now name sz pool chunk metadata) m =
     ([], snd (block_create_volume_impl cd uuid now name sz pool chunk metadata m))"
| "meta_handle cd (Update_volume now i sz state ro) m = ([], snd (block_update_volume_impl cd now i sz state ro m))"
| "meta_handle cd (Delete_volume now i) m = apfst reported (block_delete_volume_impl cd now i m)"
| "meta_handle cd (Commit_chunks i us) m = apfst reported (block_commit_chunks_impl cd i us m)"
| "meta_handle cd (Create_snapshot uuid now i name) m = ([], snd (block_create_snapshot_impl cd uuid now i name m))"
| "meta_handle cd (Delete_snapshot i) m = apfst reported (block_delete_snapshot_impl cd i m)"
| "meta_handle cd (Clone_volume uuid now now' i name) m = ([], snd (block_clone_volume_impl cd uuid now now' i name m))"
| "meta_handle cd (Move_shard oid pos from to) m = ([], snd (block_move_shard cd oid pos from to m))"
| "meta_handle cd (Add_shard_locations oid added) m = ([], snd (block_add_shard_locations cd oid added m))"

text \<open>
  New ids are fresh: a volume's or snapshot's is not in use, a written stripe's is not held, not
  in the registry and not among those reported free before.
\<close>

fun request_ok :: "'b codec \<Rightarrow> 'b meta_service \<Rightarrow> bytes list \<Rightarrow> meta_request \<Rightarrow> bool" where
  "request_ok cd m free (Create_volume uuid now name sz pool chunk metadata) \<longleftrightarrow> nul_free uuid"
| "request_ok cd m free (Create_snapshot uuid now i name) \<longleftrightarrow> unused_id cd uuid m"
| "request_ok cd m free (Clone_volume uuid now now' i name) \<longleftrightarrow> unused_id cd uuid m"
| "request_ok cd m free (Commit_chunks i us) \<longleftrightarrow> fresh_updates cd m us \<and> set (new_ids us) \<inter> set free = {}"
| "request_ok cd m free _ \<longleftrightarrow> True"

text \<open>
  A run answers requests one after another (the handlers hold the block lock) and collects the
  ids of the stripes reported as free.
\<close>

inductive meta_run ::
  "'b codec \<Rightarrow> 'b meta_service \<Rightarrow> bytes list \<Rightarrow> meta_request list \<Rightarrow> 'b meta_service \<Rightarrow> bytes list \<Rightarrow> bool"
  for cd :: "'b codec" and m :: "'b meta_service" and free :: "bytes list" where
  nil: "meta_run cd m free [] m free"
| snoc: "meta_run cd m free qs m1 free1 \<Longrightarrow> request_ok cd m1 free1 q \<Longrightarrow> meta_handle cd q m1 = (rel, m2) \<Longrightarrow>
    meta_run cd m free (qs @ [q]) m2 (free1 @ map st_object_id rel)"

inductive_cases meta_run_nilE [elim!]: "meta_run cd m free [] m' free'"

text \<open>A node that starts on an empty store, with any script of Raft outcomes.\<close>

definition meta_start :: "raft_result list \<Rightarrow> 'b meta_service" where
  "meta_start script = \<lparr>ms_block = [], ms_refs = [], ms_mode = Raft_mode, ms_store = [], ms_raft = script\<rparr>"

lemma meta_start_inv: "meta_inv cd (meta_start script)"
  by (simp add: meta_inv_def rows_ok_def in_sync_def meta_start_def block_get_def sharing_inv_def rows_apart_def
      registry_exact_def sharing_of_def rows_of_def bt_sorted_def)

text \<open>What a run keeps: the invariant, and that nothing reported free is held.\<close>

definition freed_ok :: "'b codec \<Rightarrow> 'b meta_service \<Rightarrow> bytes list \<Rightarrow> bool" where
  "freed_ok cd m free \<longleftrightarrow> meta_inv cd m \<and> distinct free \<and> set free \<inter> held (sharing_of cd m) = {}"

lemma freed_ok_same:
  "freed_ok cd m free \<Longrightarrow> meta_inv cd m' \<Longrightarrow> held (sharing_of cd m') = held (sharing_of cd m) \<Longrightarrow> freed_ok cd m' free"
  by (simp add: freed_ok_def)

lemma freed_ok_reported:
  assumes ok: "freed_ok cd m free" and inv: "meta_inv cd m'" and new: "new \<inter> set free = {}"
    and sub: "held (sharing_of cd m') \<subseteq> held (sharing_of cd m) \<union> new"
    and rel: "\<And>fr. rel = Inr fr \<Longrightarrow> freed_exactly cd m m' fr"
  shows "freed_ok cd m' (free @ map st_object_id (reported rel))"
proof (cases rel)
  case (Inl e)
  then show ?thesis using ok inv new sub by (auto simp: freed_ok_def reported_def)
next
  case (Inr fr)
  then have ex: "distinct (map st_object_id fr)" "st_object_id ` set fr = held (sharing_of cd m) - held (sharing_of cd m')"
    using rel by (auto simp: freed_exactly_def)
  have "set free \<inter> held (sharing_of cd m) = {}" "distinct free" using ok by (auto simp: freed_ok_def)
  then have "set free \<inter> st_object_id ` set fr = {}" and "set free \<inter> held (sharing_of cd m') = {}"
    using ex(2) new sub by blast+
  then show ?thesis
    using Inr inv ex \<open>distinct free\<close> unfolding freed_ok_def reported_def by auto
qed

lemma meta_handle_ok:
  assumes cd: "codec_ok cd" and ok: "freed_ok cd m free" and req: "request_ok cd m free q"
    and run: "meta_handle cd q m = (rel, m')"
  shows "freed_ok cd m' (free @ map st_object_id rel)"
proof -
  have inv: "meta_inv cd m" using ok by (simp add: freed_ok_def)
  show ?thesis
  proof (cases q)
    case (Create_volume uuid now name sz pool chunk metadata)
    obtain r where h: "block_create_volume_impl cd uuid now name sz pool chunk metadata m = (r, m')"
      using run Create_volume by (auto simp: prod_eq_iff)
    have "nul_free uuid" using req Create_volume by simp
    note c = create_volume_inv [OF cd inv this h]
    show ?thesis using freed_ok_same [OF ok c(1)] c(2) run Create_volume by simp
  next
    case (Update_volume now i sz state ro)
    obtain r where "block_update_volume_impl cd now i sz state ro m = (r, m')"
      using run Update_volume by (auto simp: prod_eq_iff)
    note c = meta_update_volume_inv [OF cd inv this]
    show ?thesis using freed_ok_same [OF ok c(1)] c(2) run Update_volume by simp
  next
    case (Delete_volume now i)
    obtain r where h: "block_delete_volume_impl cd now i m = (r, m')" "rel = reported r"
      using run Delete_volume by (auto simp: apfst_def map_prod_def split: prod.splits)
    note c = meta_delete_volume_inv [OF cd inv h(1)]
    show ?thesis unfolding h(2) by (rule freed_ok_reported [OF ok c(1), of "{}"]) (use c in auto)
  next
    case (Commit_chunks i us)
    obtain r where h: "block_commit_chunks_impl cd i us m = (r, m')" "rel = reported r"
      using run Commit_chunks by (auto simp: apfst_def map_prod_def split: prod.splits)
    have f: "fresh_updates cd m us" "set (new_ids us) \<inter> set free = {}" using req Commit_chunks by auto
    note c = commit_chunks_inv [OF cd inv f(1) h(1)]
    show ?thesis unfolding h(2)
      by (rule freed_ok_reported [OF ok c(1) f(2) c(4)]) (use c(3) in \<open>simp add: chunks_committed_def\<close>)
  next
    case (Create_snapshot uuid now i name)
    obtain r where h: "block_create_snapshot_impl cd uuid now i name m = (r, m')"
      using run Create_snapshot by (auto simp: prod_eq_iff)
    have "unused_id cd uuid m" using req Create_snapshot by simp
    note c = meta_create_snapshot_inv(1,3) [OF cd inv this h]
    show ?thesis using freed_ok_same [OF ok c(1)] c(2) run Create_snapshot by simp
  next
    case (Delete_snapshot i)
    obtain r where h: "block_delete_snapshot_impl cd i m = (r, m')" "rel = reported r"
      using run Delete_snapshot by (auto simp: apfst_def map_prod_def split: prod.splits)
    note c = meta_delete_snapshot_inv [OF cd inv h(1)]
    show ?thesis unfolding h(2) by (rule freed_ok_reported [OF ok c(1), of "{}"]) (use c in auto)
  next
    case (Clone_volume uuid now now' i name)
    obtain r where h: "block_clone_volume_impl cd uuid now now' i name m = (r, m')"
      using run Clone_volume by (auto simp: prod_eq_iff)
    have "unused_id cd uuid m" using req Clone_volume by simp
    note c = clone_volume_inv(1,3) [OF cd inv this h]
    show ?thesis using freed_ok_same [OF ok c(1)] c(2) run Clone_volume by simp
  next
    case (Move_shard oid pos src dst)
    obtain r where "block_move_shard cd oid pos src dst m = (r, m')" using run Move_shard by (auto simp: prod_eq_iff)
    note c = rewrite_inv [OF cd inv shards_keep_id(1) this [unfolded block_move_shard_def]]
    show ?thesis using freed_ok_same [OF ok c(1)] c(2) run Move_shard by simp
  next
    case (Add_shard_locations oid added)
    obtain r where "block_add_shard_locations cd oid added m = (r, m')"
      using run Add_shard_locations by (auto simp: prod_eq_iff)
    note c = rewrite_inv [OF cd inv shards_keep_id(2) this [unfolded block_add_shard_locations_def]]
    show ?thesis using freed_ok_same [OF ok c(1)] c(2) run Add_shard_locations by simp
  qed
qed

lemma meta_run_ok:
  assumes "meta_run cd m free qs m' free'" and "codec_ok cd" and "freed_ok cd m free"
  shows "freed_ok cd m' free'"
  using assms(1)
proof induction
  case nil
  then show ?case by (rule assms(3))
next
  case (snoc qs m1 free1 q rel m2)
  then show ?case using meta_handle_ok [OF assms(2)] by blast
qed

lemma meta_start_ok: "freed_ok cd (meta_start script) []"
  by (simp add: freed_ok_def meta_start_inv)

end
