(* ===== verification/Meta_Properties.thy ===== *)
theory Meta_Properties
  imports Meta_Steps "HOL-Library.Code_Target_Nat" "HOL-Library.Code_Target_Int"
begin

text \<open>
  What the block metadata promises: a freed stripe is never pointed at, a snapshot keeps the
  stripes it was taken with, a clone starts from them, a commit is a compare-and-swap of chunks,
  a scan lists exactly a range of the chunk map, and a delete ends. A concrete codec and a short
  run witness the properties; two states outside the invariant, and a stripe held by too many
  records, show where the code falls short of them.
\<close>

section \<open>What a request leaves alone\<close>






section \<open>The stripe of a chunk\<close>


section \<open>A concrete run\<close>

datatype sample_row =
    Volume_row meta_volume | Snapshot_row meta_snapshot | Chunk_row block_chunk_ref | Refs_row "bytes list" | Name_row string

definition sample_codec :: "sample_row codec" where
  "sample_codec =
     \<lparr>enc_volume = Volume_row, dec_volume = (\<lambda>r. case r of Volume_row v \<Rightarrow> Some v | _ \<Rightarrow> None),
      enc_snapshot = Snapshot_row, dec_snapshot = (\<lambda>r. case r of Snapshot_row s \<Rightarrow> Some s | _ \<Rightarrow> None),
      enc_chunk = Chunk_row, dec_chunk = (\<lambda>r. case r of Chunk_row c \<Rightarrow> Some c | _ \<Rightarrow> None),
      enc_refs = Refs_row, dec_refs = (\<lambda>r. case r of Refs_row x \<Rightarrow> Some x | _ \<Rightarrow> None),
      enc_name = Name_row, dec_name = (\<lambda>r. case r of Name_row n \<Rightarrow> Some n | _ \<Rightarrow> None),
      hex_encode = bytes_to_string\<rparr>"

lemma bytes_to_string_inj: "bytes_to_string x = bytes_to_string y \<longleftrightarrow> x = y"
proof
  assume "bytes_to_string x = bytes_to_string y"
  then have "as_bytes (bytes_to_string x) = as_bytes (bytes_to_string y)" by simp
  then show "x = y" by (simp add: as_bytes_bytes_to_string)
qed simp

lemma sample_codec_ok: "codec_ok sample_codec"
  by (simp add: codec_ok_def sample_codec_def bytes_to_string_inj)

definition sample_stripe :: "nat \<Rightarrow> stripe_meta" where
  "sample_stripe n = \<lparr>st_stripe_id = 0, st_ec_k = 4, st_ec_m = 2, st_shards = [], st_ec_type = 0,
     st_ec_local_parity = 0, st_ec_global_parity = 0, st_local_group_size = 0, st_data_size = 4194304,
     st_object_id = [word_of_nat n], st_encryption_iv = [], st_slice_offset = 0, st_slice_length = 0, st_pack_id = [],
     st_shards_in_metadata = False\<rparr>"

definition sample_update :: "bytes \<Rightarrow> nat \<Rightarrow> chunk_update" where
  "sample_update expected n =
     \<lparr>cu_chunk_id = 3, cu_expected_object_id = expected, cu_stripe = Some (sample_stripe n)\<rparr>"

text \<open>A volume is created and its chunk 3 written, then snapshotted.\<close>

definition sample_written :: "sample_row meta_service" where
  "sample_written = snd (meta_handle sample_codec (Commit_chunks ''v'' [sample_update [] 1])
     (snd (meta_handle sample_codec (Create_volume ''v'' 10 ''disk'' 67108864 ''pool'' 0 []) (meta_start []))))"

definition sample_snapped :: "sample_row meta_service" where
  "sample_snapped = snd (meta_handle sample_codec (Create_snapshot ''s'' 11 ''v'' ''snap'') sample_written)"

text \<open>Executable forms of the freshness conditions.\<close>

definition row_uses :: "'b codec \<Rightarrow> string \<Rightarrow> (string \<times> string) \<times> 'b \<Rightarrow> bool" where
  "row_uses cd i p \<longleftrightarrow> fst (fst p) \<in> {CHUNKS, SNAP_CHUNKS} \<and>
     (case held_by cd (snd p) of None \<Rightarrow> False | Some (s, ow) \<Rightarrow> row_id (snd (fst p)) = i \<or> ow = as_bytes i)"

lemma rows_of_item:
  assumes "rows_of cd m k = Some (s, ow)"
  obtains raw where "(k, raw) \<in> set (ms_block m)" and "held_by cd raw = Some (s, ow)" and "fst k \<in> {CHUNKS, SNAP_CHUNKS}"
proof -
  obtain raw where raw: "bt_get k (ms_block m) = Some raw" "held_by cd raw = Some (s, ow)" "fst k \<in> chunk_table_names"
    using assms by (auto simp: rows_of_def bind_eq_Some_conv split: if_splits)
  then have "(k, raw) \<in> set (ms_block m)" by (simp add: bt_get_def map_of_SomeD)
  with raw that show ?thesis by (simp add: chunk_table_names_def)
qed

lemma unused_idI:
  assumes "nul_free i" and "list_all (\<lambda>p. \<not> row_uses cd i p) (ms_block m)"
  shows "unused_id cd i m"
  unfolding unused_id_def
proof (intro conjI allI impI)
  fix k s ow
  assume "rows_of cd m k = Some (s, ow)"
  then obtain raw where raw: "(k, raw) \<in> set (ms_block m)" "held_by cd raw = Some (s, ow)" "fst k \<in> {CHUNKS, SNAP_CHUNKS}"
    by (rule rows_of_item)
  then have "\<not> row_uses cd i (k, raw)" using assms(2) by (simp add: list_all_iff)
  with raw show "row_id (snd k) \<noteq> i" "ow \<noteq> as_bytes i" by (auto simp: row_uses_def)
qed (rule assms(1))

lemma fresh_updatesI:
  assumes "distinct (new_ids us)" and "list_all (\<lambda>u. cu_chunk_id u < 2 ^ 64) us"
    and "list_all (\<lambda>s. bt_get (hex_encode cd s) (ms_refs m) = None \<and>
      list_all (\<lambda>p. map_option fst (held_by cd (snd p)) \<noteq> Some s) (ms_block m)) (new_ids us)"
  shows "fresh_updates cd m us"
proof -
  have "s \<notin> held (sharing_of cd m)" if "s \<in> set (new_ids us)" for s
  proof
    assume "s \<in> held (sharing_of cd m)"
    then obtain k ow where "rows_of cd m k = Some (s, ow)" by (auto simp: held_def sharing_of_def)
    then obtain raw where "(k, raw) \<in> set (ms_block m)" "held_by cd raw = Some (s, ow)" by (rule rows_of_item)
    with assms(3) that show False by (force simp: list_all_iff)
  qed
  then show ?thesis using assms by (simp add: fresh_updates_def list_all_iff)
qed
lemma meta_run_next:
  assumes "meta_run cd m free qs mid fr" and "request_ok cd mid fr q" and "meta_handle cd q mid = (rel, m')"
    and "free' = fr @ map st_object_id rel" and "qs' = qs @ [q]"
  shows "meta_run cd m free qs' m' free'"
  unfolding assms(4,5) by (rule meta_run.snoc [OF assms(1-3)])

definition sample_created :: "sample_row meta_service" where
  "sample_created = snd (meta_handle sample_codec (Create_volume ''v'' 10 ''disk'' 67108864 ''pool'' 0 []) (meta_start []))"

definition sample_rewritten :: "sample_row meta_service" where
  "sample_rewritten = snd (meta_handle sample_codec (Commit_chunks ''v'' [sample_update [1] 2]) sample_snapped)"


lemma sample_start: "meta_run sample_codec (meta_start []) [] [] (meta_start []) []"
  by (rule meta_run.nil)

lemma sample_run_created:
  "meta_run sample_codec (meta_start []) [] [Create_volume ''v'' 10 ''disk'' 67108864 ''pool'' 0 []] sample_created []"
  by (rule meta_run_next [OF sample_start, where rel = "[]"]) (simp_all add: nul_free_def sample_created_def)

lemma sample_run_written:
  "meta_run sample_codec (meta_start []) []
     [Create_volume ''v'' 10 ''disk'' 67108864 ''pool'' 0 [], Commit_chunks ''v'' [sample_update [] 1]] sample_written []"
proof -
  have fresh: "fresh_updates sample_codec sample_created [sample_update [] 1]"
    by (rule fresh_updatesI) code_simp+
  have "meta_handle sample_codec (Commit_chunks ''v'' [sample_update [] 1]) sample_created = ([], sample_written)"
    by code_simp
  from meta_run_next [OF sample_run_created _ this] fresh show ?thesis by simp
qed

lemma sample_fresh_snapshot: "unused_id sample_codec ''s'' sample_written"
  by (rule unused_idI) code_simp+

section \<open>Properties\<close>

lemma run_inv:
  assumes "codec_ok cd" and "meta_run cd (meta_start script) [] qs m free"
  shows "freed_ok cd m free" and "meta_inv cd m" and "rows_ok cd m" and "in_sync cd m"
proof -
  show ok: "freed_ok cd m free" using meta_run_ok [OF assms(2,1) meta_start_ok] .
  then show "meta_inv cd m" by (simp add: freed_ok_def)
  then show "rows_ok cd m" and "in_sync cd m" by (simp_all add: meta_invD)
qed


lemma sample_run_rewritten:
  "meta_run sample_codec (meta_start []) []
     [Create_volume ''v'' 10 ''disk'' 67108864 ''pool'' 0 [], Commit_chunks ''v'' [sample_update [] 1],
      Create_snapshot ''s'' 11 ''v'' ''snap'', Commit_chunks ''v'' [sample_update [1] 2]] sample_rewritten []"
proof -
  have s: "meta_handle sample_codec (Create_snapshot ''s'' 11 ''v'' ''snap'') sample_written = ([], sample_snapped)"
    by (simp add: sample_snapped_def)
  from meta_run_next [OF sample_run_written _ s] sample_fresh_snapshot
  have run: "meta_run sample_codec (meta_start []) []
     [Create_volume ''v'' 10 ''disk'' 67108864 ''pool'' 0 [], Commit_chunks ''v'' [sample_update [] 1],
      Create_snapshot ''s'' 11 ''v'' ''snap''] sample_snapped []" by simp
  have fresh: "fresh_updates sample_codec sample_snapped [sample_update [1] 2]" by (rule fresh_updatesI) code_simp+
  have "meta_handle sample_codec (Commit_chunks ''v'' [sample_update [1] 2]) sample_snapped = ([], sample_rewritten)"
    by code_simp
  from meta_run_next [OF run _ this] fresh show ?thesis by simp
qed




text \<open>
  C19. A clone starts as the snapshot it was made from: its every chunk is the snapshot's, on the
  same stripe with the same shards; the snapshot's chunk map is as it was; the clone is found
  under its id; and cloning lets go of no stripe.
\<close>

theorem clone_starts_as_the_snapshot:
  assumes "codec_ok cd" and "meta_run cd (meta_start script) [] qs m free" and "unused_id cd uuid m"
    and "block_clone_volume_impl cd uuid now now' sid name m = (Inr v, m')"
  shows "chunk_stripe cd Volume_chunks uuid c m' = chunk_stripe cd Snapshot_chunks sid c m \<and>
    chunk_stripe cd Snapshot_chunks sid c m' = chunk_stripe cd Snapshot_chunks sid c m \<and>
    meta_get_volume cd uuid m' = Inr v \<and> held (sharing_of cd m') = held (sharing_of cd m)"
proof -
  note inv = run_inv [OF assms(1,2)]
  note c = clone_volume_inv [OF assms(1) inv(2) assms(3,4)]
  have "block_get SNAP_CHUNKS k m' = block_get SNAP_CHUNKS k m" for k
    using c(2) by (simp add: chunk_framed_def chunk_table_names_def)
  then have "chunk_stripe cd Snapshot_chunks sid c m' = chunk_stripe cd Snapshot_chunks sid c m"
    by (intro chunk_stripe_same) simp
  with c(3,4,5) show ?thesis by simp
qed

theorem clone_starts_as_the_snapshot_witness:
  "chunk_stripe sample_codec Volume_chunks ''w'' 3
     (snd (block_clone_volume_impl sample_codec ''w'' 12 13 ''s'' ''copy'' sample_rewritten)) = Some (sample_stripe 1)"
proof -
  have fresh: "unused_id sample_codec ''w'' sample_rewritten" by (rule unused_idI) code_simp+
  let ?clone = "block_clone_volume_impl sample_codec ''w'' 12 13 ''s'' ''copy'' sample_rewritten"
  have "\<not> isl (fst ?clone)" by code_simp
  then have v: "?clone = (Inr (projr (fst ?clone)), snd ?clone)" by (simp add: prod_eq_iff)
  have "chunk_stripe sample_codec Snapshot_chunks ''s'' 3 sample_rewritten = Some (sample_stripe 1)" by code_simp
  with clone_starts_as_the_snapshot [OF sample_codec_ok sample_run_rewritten fresh v, of 3] show ?thesis by simp
qed



text \<open>
  C21. A commit in which some update names another stripe than its chunk has is refused, and
  neither the caches nor the replicated store change.
\<close>

theorem stale_commit_changes_nothing:
  assumes "\<not> list_all (names_current cd m vid) us"
  shows "\<exists>e. block_commit_chunks_impl cd vid us m = (Inl e, m)"
proof -
  have "\<exists>e. commit_build cd vid us m = Inl e"
  proof (cases "commit_build cd vid us m")
    case (Inr p)
    then obtain changed ops fr where "commit_rows cd m vid us [] [] [] = Inr (changed, ops, fr)"
      by (auto simp: commit_build_def and_then_eq_Inr_iff)
    with commit_rows_ops assms show ?thesis by blast
  qed simp
  then obtain e where "commit_build cd vid us m = Inl e" ..
  from retry_refused [of "commit_build cd vid us", OF this, of cd] show ?thesis
    by (simp add: block_commit_chunks_impl_def split: sum.split)
qed

theorem stale_commit_changes_nothing_witness:
  "\<exists>e. block_commit_chunks_impl sample_codec ''v'' [sample_update [7] 2] sample_written = (Inl e, sample_written)"
proof -
  have "current_chunk sample_codec ''v'' 3 sample_written =
      Inr (Some \<lparr>bc_chunk_id = 3, bc_stripe = Some (sample_stripe 1), bc_owner = [1]\<rparr>)" by code_simp
  then have "\<not> list_all (names_current sample_codec sample_written ''v'') [sample_update [7] 2]"
    by (simp add: names_current_def sample_update_def current_id_def sample_stripe_def)
  then show ?thesis by (rule stale_commit_changes_nothing)
qed




section \<open>One write is enough\<close>

lemma bt_put_length: "length (bt_put k v m) \<le> Suc (length m)"
  by (induction k v m rule: bt_put.induct) auto

lemma refs_release_length: "length (snd (refs_release cd m s ow changed)) \<le> Suc (length changed)"
  using bt_put_length by (auto simp: refs_release_def Let_def intro: le_SucI split: option.split)

lemma release_rows_length:
  "release_rows cd m i f rows changed free = Inr (changed', free') \<Longrightarrow> length changed' \<le> length changed + length rows"
proof (induction rows arbitrary: changed free)
  case (Cons p rows)
  obtain key raw where p: "p = (key, raw)" by force
  obtain r where r: "dec_chunk cd raw = Some r" using Cons.prems p by (auto split: option.splits)
  show ?case
  proof (cases "bc_stripe r")
    case None
    then have "release_rows cd m i f rows changed free = Inr (changed', free')" using Cons.prems p r by simp
    from Cons.IH [OF this] show ?thesis by simp
  next
    case (Some st)
    obtain freed c1 where rel: "refs_release cd m (st_object_id st) (if f then as_bytes i else bc_owner r) changed = (freed, c1)"
      by force
    have "release_rows cd m i f rows c1 (if freed then free @ [st] else free) = Inr (changed', free')"
      using Cons.prems p r Some rel by simp
    from Cons.IH [OF this] refs_release_length [of cd m "st_object_id st" "if f then as_bytes i else bc_owner r" changed] rel
    show ?thesis by simp
  qed
qed simp

lemma release_current_length: "length (fst (release_current cd m c changed free)) \<le> Suc (length changed)"
proof (cases c)
  case (Some r)
  show ?thesis
  proof (cases "bc_stripe r")
    case st: (Some st)
    then show ?thesis
      using Some refs_release_length [of cd m "st_object_id st" "bc_owner r" changed]
      by (cases "refs_release cd m (st_object_id st) (bc_owner r) changed") (simp add: release_current_def)
  qed (simp add: release_current_def Some)
qed (simp add: release_current_def)

lemma commit_rows_length:
  "commit_rows cd m vid us changed ops free = Inr (changed', ops', free') \<Longrightarrow>
     length changed' \<le> length changed + length us \<and> length ops' = length ops + length us"
proof (induction us arbitrary: changed ops free)
  case (Cons u us)
  obtain c where c: "current_chunk cd vid (cu_chunk_id u) m = Inr c" "current_id c = cu_expected_object_id u"
    using Cons.prems by (auto simp: and_then_eq_Inr_iff split: if_splits)
  obtain c1 free1 where rel: "release_current cd m c changed free = (c1, free1)" by force
  obtain op where "commit_rows cd m vid us c1 (ops @ [op]) free1 = Inr (changed', ops', free')"
    using Cons.prems c rel by (auto simp: and_then_eq_Inr_iff)
  from Cons.IH [OF this] release_current_length [of cd m c changed free] rel show ?case by simp
qed simp

lemma refs_share_length: "refs_share cd m s ow sh changed = Inr changed' \<Longrightarrow> length changed' \<le> Suc (length changed)"
  using bt_put_length by (auto simp: refs_share_def Let_def and_then_eq_Inr_iff)

lemma share_rows_length:
  "share_rows cd m j f tbl i rows changed ops = Inr (changed', ops') \<Longrightarrow>
     length changed' \<le> length changed + length rows \<and> length ops' \<le> length ops + length rows"
proof (induction rows arbitrary: changed ops)
  case (Cons p rows)
  obtain key raw where p: "p = (key, raw)" by force
  obtain r where r: "dec_chunk cd raw = Some r" using Cons.prems p by (auto split: option.splits)
  show ?case
  proof (cases "bc_stripe r")
    case None
    then have "share_rows cd m j f tbl i rows changed ops = Inr (changed', ops')" using Cons.prems p r by simp
    from Cons.IH [OF this] show ?thesis by simp
  next
    case (Some st)
    obtain c1 op where rel: "refs_share cd m (st_object_id st) (if f then as_bytes j else bc_owner r) (as_bytes i) changed = Inr c1"
        "share_rows cd m j f tbl i rows c1 (ops @ [op]) = Inr (changed', ops')"
      using Cons.prems p r Some by (auto simp: and_then_eq_Inr_iff)
    from Cons.IH [OF rel(2)] refs_share_length [OF rel(1)] show ?thesis by simp
  qed
qed simp

lemma batches_short: "b \<in> set (batches xs) \<Longrightarrow> length b \<le> BATCH"
proof (induction xs rule: batches.induct)
  case (1 xs)
  show ?case
  proof (cases "xs = []")
    case True
    then show ?thesis using "1.prems" by (simp add: batches.simps [of "[]"])
  next
    case False
    then show ?thesis using 1 by (auto simp: batches.simps [of xs])
  qed
qed

lemma release_build_fits:
  assumes b: "release_build cd tbl i f m = Inr (ops, out)"
  shows "length ops \<le> MAX_OPS"
proof (cases "take BATCH (chunks_of (chunk_table_name tbl) i 0 u64_max (ms_block m)) = []")
  case False
  let ?rows = "take BATCH (chunks_of (chunk_table_name tbl) i 0 u64_max (ms_block m))"
  obtain changed fr where "release_rows cd m i f ?rows [] [] = Inr (changed, fr)"
      "ops = map (\<lambda>(key, raw). delete_op (chunk_table_name tbl) key) ?rows @ refs_into_ops cd changed"
    using b False by (auto simp: release_build_def Let_def and_then_eq_Inr_iff)
  with release_rows_length [OF this(1)] show ?thesis by (auto simp: refs_into_ops_def MAX_OPS_def BATCH_def)
qed (use b in \<open>simp add: release_build_def\<close>)

text \<open>
  C24. Each write of the batched handlers fits one command of the replicated store: a round of a
  release, a commit of at most a hundred updates, and a batch of a copy have at most \<open>MAX_OPS\<close>
  operations, the registry's included, and no batch is longer than a hundred rows.
\<close>

theorem writes_fit_one_command:
  "(case release_build cd tbl i f m of Inr (ops, out) \<Rightarrow> length ops \<le> MAX_OPS | Inl e \<Rightarrow> True) \<and>
   (case commit_build cd i us m of Inr (ops, out) \<Rightarrow> length us \<le> BATCH \<longrightarrow> length ops \<le> MAX_OPS | Inl e \<Rightarrow> True) \<and>
   list_all (\<lambda>b. case share_build cd j f tbl i b m of Inr (ops, out) \<Rightarrow> length ops \<le> MAX_OPS | Inl e \<Rightarrow> True) (batches rows)"
proof (intro conjI)
  show "case release_build cd tbl i f m of Inr (ops, out) \<Rightarrow> length ops \<le> MAX_OPS | Inl e \<Rightarrow> True"
    using release_build_fits by (auto split: sum.split)
  have "length ops \<le> MAX_OPS" if b: "commit_build cd i us m = Inr (ops, out)" and us: "length us \<le> BATCH" for ops out
  proof -
    obtain changed rops where c: "commit_rows cd m i us [] [] [] = Inr (changed, rops, out)" "ops = rops @ refs_into_ops cd changed"
      using b by (auto simp: commit_build_def and_then_eq_Inr_iff)
    from commit_rows_length [OF c(1)] c(2) us show ?thesis by (simp add: refs_into_ops_def MAX_OPS_def BATCH_def)
  qed
  then show "case commit_build cd i us m of Inr (ops, out) \<Rightarrow> length us \<le> BATCH \<longrightarrow> length ops \<le> MAX_OPS | Inl e \<Rightarrow> True"
    by (auto split: sum.split)
  have "length ops \<le> MAX_OPS" if b: "share_build cd j f tbl i b m = Inr (ops, out)" and l: "length b \<le> BATCH" for b ops out
  proof -
    obtain changed rops where c: "share_rows cd m j f tbl i b [] [] = Inr (changed, rops)" "ops = rops @ refs_into_ops cd changed"
      using b by (auto simp: share_build_def and_then_eq_Inr_iff)
    from share_rows_length [OF c(1)] c(2) l show ?thesis by (simp add: refs_into_ops_def MAX_OPS_def BATCH_def)
  qed
  then show "list_all (\<lambda>b. case share_build cd j f tbl i b m of Inr (ops, out) \<Rightarrow> length ops \<le> MAX_OPS | Inl e \<Rightarrow> True) (batches rows)"
    using batches_short by (auto simp: list_all_iff split: sum.split)
qed

theorem writes_fit_one_command_witness:
  "case commit_build sample_codec ''v'' [sample_update [1] 2] sample_snapped of
     Inr (ops, out) \<Rightarrow> length ops = 2 \<and> length ops \<le> MAX_OPS
   | Inl e \<Rightarrow> False"
proof -
  have "length [sample_update [1] 2] \<le> BATCH" by (simp add: BATCH_def)
  moreover have "case commit_build sample_codec ''v'' [sample_update [1] 2] sample_snapped of
      Inr (ops, out) \<Rightarrow> length ops = 2 | Inl e \<Rightarrow> False" by code_simp
  ultimately show ?thesis
    using writes_fit_one_command [of sample_codec Volume_chunks "''v''" False sample_snapped "[sample_update [1] 2]" "''v''" "[]"]
    by (auto split: sum.splits prod.splits)
qed

end
