(* ===== verification/Meta_Progress.thy ===== *)
theory Meta_Progress
  imports Meta_Properties
begin

text \<open>
  Progress of the block metadata: while the Raft writes succeed, a delete ends with the volume's
  rows gone. And where it makes none or goes wrong: a stripe held by too many records can be
  neither moved nor repaired, and a node whose caches lag behind the store reports a stripe as
  free that a snapshot holds.
\<close>

section \<open>Writes that succeed\<close>

lemma mirror_ops_raft [simp]: "ms_raft (mirror_ops cd ops m) = ms_raft m"
  by (induction ops arbitrary: m)
    (auto simp: mirror_op_def apply_block_event_def apply_stripe_refs_event_def split: option.split)

lemma plain_table: "plain_op cd op \<Longrightarrow> table_refusal (co_table (cas_of cd op m)) = None"
  by (auto simp: plain_op_def cas_of_def TABLES_def STRIPE_REFS_def VOLUMES_def NAMES_def CHUNKS_def SNAPSHOTS_def
      SNAP_CHUNKS_def RAFT_TABLES_def)

lemma plain_not_refused:
  assumes "\<forall>op \<in> set ops. plain_op cd op" and "length ops \<le> MAX_OPS"
  shows "multi_cas_refusal (map (\<lambda>op. cas_of cd op m) ops) = None"
proof -
  have "find_map (\<lambda>op. table_refusal (co_table op)) (map (\<lambda>op. cas_of cd op m) ops) = None"
    using assms(1) by (induction ops) (simp_all add: plain_table)
  then show ?thesis using assms(2) by (simp add: multi_cas_refusal_def)
qed

lemma cas_expected_in_sync:
  assumes "in_sync cd m" and "\<forall>op \<in> set ops. plain_op cd op"
  shows "list_all (\<lambda>op. bt_get (co_row op) (ms_store m) = co_expected op) (map (\<lambda>op. cas_of cd op m) ops)"
  using assms STRIPE_REFS_table(1)
  by (auto simp: list_all_iff co_row_def cas_of_def expected_of_def in_sync_def plain_op_def block_get_def)

lemma retry_succeeds:
  assumes sync: "in_sync cd m" and raft: "ms_raft m = []" and build: "build m = Inr (ops, out)"
    and plain: "\<forall>op \<in> set ops. plain_op cd op" and fit: "length ops \<le> MAX_OPS"
  shows "\<exists>m'. block_retry cd build m = (Inr out, m') \<and> ms_raft m' = []"
proof (cases "ops = []")
  case True
  then show ?thesis using build raft by (simp add: block_retry_step block_commit_def)
next
  case False
  have mode: "ms_mode m = Raft_mode" using sync by (simp add: in_sync_def)
  have "apply_command (\<lambda>_. False) (map (\<lambda>op. cas_of cd op m) ops) (ms_store m) =
      (MultiCasOk, write_ops (map (\<lambda>op. cas_of cd op m) ops) (ms_store m))"
    by (rule apply_command_ok [OF plain_not_refused [OF plain fit] _ cas_expected_in_sync [OF sync plain]]) simp
  then have "\<exists>m'. block_commit cd ops m = (Inr True, m') \<and> ms_raft m' = []"
    using False mode raft by (simp add: block_commit_def client_write_def Let_def)
  then show ?thesis using build by (auto simp: block_retry_step)
qed

lemma release_build_writes:
  assumes cd: "codec_ok cd" and inv: "meta_inv cd m" and i: "nul_free i"
  obtains ops out where "release_build cd tbl i (release_flag tbl) m = Inr (ops, out)"
    and "\<forall>op \<in> set ops. plain_op cd op" and "length ops \<le> MAX_OPS"
proof (cases "chunks_of (chunk_table_name tbl) i 0 u64_max (ms_block m) = []")
  case True
  then show ?thesis by (intro that [of "[]" "(True, [])"]) (simp_all add: release_build_def)
next
  case False
  from release_build_moves [OF cd inv i False]
  obtain ks changed new where b: "release_build cd tbl i (release_flag tbl) m =
      Inr (map (delete_op (chunk_table_name tbl)) ks @ refs_into_ops cd changed, False, new)" by metis
  have "\<forall>op \<in> set (map (delete_op (chunk_table_name tbl)) ks @ refs_into_ops cd changed). plain_op cd op"
    using refs_ops_plain by (auto simp: plain_op_def delete_op_def)
  moreover have "length (map (delete_op (chunk_table_name tbl)) ks @ refs_into_ops cd changed) \<le> MAX_OPS"
    by (rule release_build_fits [OF b])
  ultimately show ?thesis using that b by blast
qed

lemma release_chunks_ends:
  assumes cd: "codec_ok cd" and i: "nul_free i"
  shows "meta_inv cd m \<Longrightarrow> ms_raft m = [] \<Longrightarrow>
    \<exists>fr m'. release_chunks cd tbl i (release_flag tbl) acc m = (Inr fr, m') \<and> ms_raft m' = []"
proof (induction "length (chunks_of (chunk_table_name tbl) i 0 u64_max (ms_block m))" arbitrary: acc m rule: less_induct)
  case less
  let ?build = "release_build cd tbl i (release_flag tbl)"
  obtain ops out where b: "?build m = Inr (ops, out)" "\<forall>op \<in> set ops. plain_op cd op" "length ops \<le> MAX_OPS"
    by (rule release_build_writes [OF cd less.prems(1) i])
  from retry_succeeds [of cd m ?build, OF meta_invD(2) [OF less.prems(1)] less.prems(2) b]
  obtain m1 where m1: "block_retry cd ?build m = (Inr out, m1)" "ms_raft m1 = []" by blast
  obtain fin free where out: "out = (fin, free)" by force
  show ?case
  proof (cases fin)
    case True
    then show ?thesis using m1 out by (simp add: release_chunks.simps [of cd tbl i _ acc m])
  next
    case False
    have "meta_inv cd m1" using release_round(1) [OF cd less.prems(1) i m1(1)] .
    moreover have "length (chunks_of (chunk_table_name tbl) i 0 u64_max (ms_block m1)) <
        length (chunks_of (chunk_table_name tbl) i 0 u64_max (ms_block m))"
      using release_build_shrinks [of cd tbl i _ m free m1] m1(1) out False by simp
    ultimately obtain fr m' where "release_chunks cd tbl i (release_flag tbl) (acc @ free) m1 = (Inr fr, m')" "ms_raft m' = []"
      using less.hyps m1(2) by blast
    then show ?thesis using m1 out False by (simp add: release_chunks.simps [of cd tbl i _ acc m])
  qed
qed
lemma retry_plain_succeeds:
  assumes "meta_inv cd m" and "ms_raft m = []" and "\<forall>op \<in> set ops. bo_table op \<in> set TABLES" and "length ops \<le> MAX_OPS"
  shows "\<exists>m'. block_retry cd (\<lambda>_. Inr (ops, ())) m = (Inr (), m') \<and> ms_raft m' = []"
  using retry_succeeds [of cd m "\<lambda>_. Inr (ops, ())", OF meta_invD(2) [OF assms(1)] assms(2) refl _ assms(4)] assms(3)
  by (simp add: plain_op_def)

text \<open>
  C23. A delete of a volume that is not attached ends: while the Raft writes succeed, it answers,
  the volume and its whole chunk map are gone from the replicated store, and the stripes it
  reports as free are exactly those no record holds any more, however many batches the map takes.
\<close>

theorem delete_volume_completes:
  assumes "codec_ok cd" and "meta_run cd (meta_start script) [] qs m free" and "ms_raft m = []"
    and "meta_get_volume cd vid m = Inr v" and "mv_state v \<noteq> VS_Attached"
  shows "\<exists>fr m'. block_delete_volume_impl cd now vid m = (Inr fr, m') \<and> freed_exactly cd m m' fr \<and>
    bt_get (VOLUMES, vid) (ms_store m') = None \<and> (\<forall>k. row_id k = vid \<longrightarrow> bt_get (CHUNKS, k) (ms_store m') = None)"
proof -
  note inv = run_inv [OF assms(1,2)]
  note vf = volume_found [OF inv(3) assms(4)]
  have build: "put_volume_build cd w = (\<lambda>_. Inr ([put_volume cd w], ()))" for w
    by (rule ext) (simp add: put_volume_build_def)
  let ?w = "v\<lparr>mv_state := VS_Deleting, mv_updated_at := now\<rparr>"
  have mark: "\<forall>op \<in> set [put_volume cd ?w]. op_ok cd op \<and> bo_table op \<notin> chunk_table_names"
    using put_volume_ok [OF assms(1), of ?w] vf by simp
  have "\<exists>m1. (if mv_state v \<noteq> VS_Deleting then block_retry cd (put_volume_build cd ?w) m else (Inr (), m)) = (Inr (), m1) \<and>
      ms_raft m1 = [] \<and> meta_inv cd m1"
  proof (cases "mv_state v = VS_Deleting")
    case False
    have "\<exists>m1. block_retry cd (\<lambda>_. Inr ([put_volume cd ?w], ())) m = (Inr (), m1) \<and> ms_raft m1 = []"
      by (rule retry_plain_succeeds [OF inv(2) assms(3)]) (simp_all add: put_volume_def put_op_def MAX_OPS_def)
    then obtain m1 where m1: "block_retry cd (\<lambda>_. Inr ([put_volume cd ?w], ())) m = (Inr (), m1)" "ms_raft m1 = []" by blast
    have "meta_inv cd m1" using retry_plain_rows(1) [where build = "\<lambda>_. Inr ([put_volume cd ?w], ())", OF assms(1) inv(2) refl mark m1(1)] .
    then show ?thesis using False m1 build by simp
  qed (use inv(2) assms(3) in simp)
  then obtain m1 where m1: "(if mv_state v \<noteq> VS_Deleting then block_retry cd (put_volume_build cd ?w) m else (Inr (), m)) = (Inr (), m1)"
      "ms_raft m1 = []" "meta_inv cd m1" by blast
  from release_chunks_ends [OF assms(1) vf(2) m1(3,2), of Volume_chunks "[]"]
  obtain fr m2 where m2: "release_chunks cd Volume_chunks vid False [] m1 = (Inr fr, m2)" "ms_raft m2 = []"
    by (auto simp: release_flag_def)
  have "meta_inv cd m2" using release_chunks_frees [OF assms(1) vf(2) m1(3), of Volume_chunks "[]"] m2(1)
    by (simp add: release_flag_def)
  from retry_plain_succeeds [OF this m2(2), of "[delete_op VOLUMES vid, delete_op NAMES (mv_name v)]"]
  obtain m3 where m3: "block_retry cd (\<lambda>_. Inr ([delete_op VOLUMES vid, delete_op NAMES (mv_name v)], ())) m2 = (Inr (), m3)"
    by (auto simp: delete_op_def MAX_OPS_def)
  have run: "block_delete_volume_impl cd now vid m = (Inr fr, m3)"
    using assms(4,5) vf(1) m1(1) m2(1) m3 by (simp add: block_delete_volume_impl_def)
  note d = meta_delete_volume_inv [OF assms(1) inv(2) run]
  have sync: "bt_get (t, k) (ms_store m3) = block_get t k m3" if "t \<in> set TABLES" for t k
    using meta_invD(2) [OF d(1)] that by (simp add: in_sync_def block_get_def)
  have "freed_exactly cd m m3 fr \<and> bt_get (VOLUMES, vid) (ms_store m3) = None \<and>
      (\<forall>k. row_id k = vid \<longrightarrow> bt_get (CHUNKS, k) (ms_store m3) = None)"
    using d(4) by (simp add: sync)
  with run show ?thesis by blast
qed

theorem delete_volume_completes_witness:
  "\<exists>fr m'. block_delete_volume_impl sample_codec 20 ''v'' sample_written = (Inr fr, m') \<and>
     bt_get (VOLUMES, ''v'') (ms_store m') = None \<and> bt_get (CHUNKS, block_chunk_key ''v'' 3) (ms_store m') = None"
proof -
  have "\<not> isl (meta_get_volume sample_codec ''v'' sample_written)" by code_simp
  then have v: "meta_get_volume sample_codec ''v'' sample_written = Inr (projr (meta_get_volume sample_codec ''v'' sample_written))"
    by simp
  have st: "mv_state (projr (meta_get_volume sample_codec ''v'' sample_written)) \<noteq> VS_Attached" by code_simp
  have raft: "ms_raft sample_written = []" by code_simp
  have "row_id (block_chunk_key ''v'' 3) = ''v''" by (simp add: nul_free_def)
  with delete_volume_completes [OF sample_codec_ok sample_run_written raft v st, of 20] show ?thesis by blast
qed
section \<open>A stripe with too many holders\<close>

text \<open>The records a rewrite would write: those that hold the stripe and that the change changes.\<close>

definition rewritten :: "'b codec \<Rightarrow> bytes \<Rightarrow> (stripe_meta \<Rightarrow> stripe_meta option) \<Rightarrow> string \<times> string \<times> 'b \<Rightarrow> bool" where
  "rewritten cd oid change p =
     (case dec_chunk cd (snd (snd p)) of
        None \<Rightarrow> False
      | Some r \<Rightarrow> (case bc_stripe r of None \<Rightarrow> False | Some st \<Rightarrow> st_object_id st = oid \<and> change st \<noteq> None))"

lemma rewrite_rows_count:
  "list_all (\<lambda>(t, k, raw). dec_chunk cd raw \<noteq> None) rows \<Longrightarrow>
     \<exists>ops. rewrite_rows cd oid change rows = Inr ops \<and> length ops = length (filter (rewritten cd oid change) rows)"
proof (induction rows)
  case (Cons p rows)
  obtain t k raw where p: "p = (t, k, raw)" by (cases p) auto
  obtain r where r: "dec_chunk cd raw = Some r" using Cons.prems p by auto
  obtain ops where ops: "rewrite_rows cd oid change rows = Inr ops" "length ops = length (filter (rewritten cd oid change) rows)"
    using Cons by auto
  have "rewritten cd oid change p \<longleftrightarrow>
      (case bc_stripe r of None \<Rightarrow> False | Some st \<Rightarrow> st_object_id st = oid \<and> change st \<noteq> None)"
    using p r by (simp add: rewritten_def)
  then show ?case using p r ops by (auto split: option.split)
qed simp

text \<open>
  C26. A stripe that more than \<open>MAX_OPS\<close> chunk records hold (a volume and its snapshots and clones)
  cannot be moved: all records are rewritten in one command, the store refuses a command of that
  size, and however often it is asked, moving a shard of the stripe fails and changes nothing.
\<close>

theorem crowded_stripe_never_moves:
  assumes "ms_mode m = Raft_mode" and "list_all (\<lambda>(t, k, raw). dec_chunk cd raw \<noteq> None) (chunk_rows (ms_block m))"
    and "MAX_OPS < length (filter (rewritten cd oid (move_shard pos src dst)) (chunk_rows (ms_block m)))"
  shows "\<exists>e. block_move_shard cd oid pos src dst m = (Inl e, m\<lparr>ms_raft := tl (ms_raft m)\<rparr>)"
proof -
  obtain ops where ops: "rewrite_rows cd oid (move_shard pos src dst) (chunk_rows (ms_block m)) = Inr ops" "MAX_OPS < length ops"
    using rewrite_rows_count [OF assms(2)] assms(3) by metis
  have b: "rewrite_build cd oid (move_shard pos src dst) m = Inr (ops, length ops)"
    using ops(1) by (simp add: rewrite_build_def)
  have "multi_cas_refusal (map (\<lambda>op. cas_of cd op m) ops) = Some (Too_many_ops (length ops))"
    using ops(2) by (simp add: multi_cas_refusal_def)
  then have a: "apply_command (\<lambda>_. False) (map (\<lambda>op. cas_of cd op m) ops) (ms_store m) =
      (Rejected (Too_many_ops (length ops)), ms_store m)" by (simp add: apply_command_def)
  have "ops \<noteq> []" using ops(2) by auto
  then have "\<exists>e. block_commit cd ops m = (Inl e, m\<lparr>ms_raft := tl (ms_raft m)\<rparr>)"
    using a assms(1) by (auto simp: block_commit_def client_write_def Let_def split: list.split raft_result.split)
  then show ?thesis using b by (auto simp: block_move_shard_def block_retry_step)
qed

definition crowded_stripe :: stripe_meta where
  "crowded_stripe = (sample_stripe 1)\<lparr>st_shards := [\<lparr>sl_position = 0, sl_node_id = [1], sl_disk_id = [], sl_offset = 0,
     sl_shard_type = 0, sl_local_group = 0, sl_crc32c = None\<rparr>]\<rparr>"

definition crowded_rows :: "nat \<Rightarrow> ((string \<times> string) \<times> sample_row) list" where
  "crowded_rows n = map (\<lambda>i. ((SNAP_CHUNKS, block_chunk_key (replicate i CHR ''s'') 0),
     Chunk_row \<lparr>bc_chunk_id = 0, bc_stripe = Some crowded_stripe, bc_owner = []\<rparr>)) [0..<n]"

definition crowded :: "sample_row meta_service" where
  "crowded = (meta_start [])\<lparr>ms_block := crowded_rows 257, ms_store := crowded_rows 257\<rparr>"

lemma crowded_chunk_rows:
  "chunk_rows (crowded_rows n) = map (\<lambda>i. (SNAP_CHUNKS, block_chunk_key (replicate i CHR ''s'') 0,
     Chunk_row \<lparr>bc_chunk_id = 0, bc_stripe = Some crowded_stripe, bc_owner = []\<rparr>)) [0..<n]"
proof -
  have "table_rows CHUNKS (crowded_rows n) = []"
    by (simp add: table_rows_def crowded_rows_def filter_map o_def)
  moreover have "table_rows SNAP_CHUNKS (crowded_rows n) = map (\<lambda>i. (block_chunk_key (replicate i CHR ''s'') 0,
      Chunk_row \<lparr>bc_chunk_id = 0, bc_stripe = Some crowded_stripe, bc_owner = []\<rparr>)) [0..<n]"
    by (simp add: table_rows_def crowded_rows_def filter_map o_def)
  ultimately show ?thesis by (simp add: chunk_rows_def o_def)
qed

theorem crowded_stripe_never_moves_witness:
  "length (chunk_rows (ms_block crowded)) = 257 \<and>
   (\<exists>e. block_move_shard sample_codec [1] 0 [1] (hd (st_shards crowded_stripe)) crowded = (Inl e, crowded))"
proof -
  let ?moves = "rewritten sample_codec [1] (move_shard 0 [1] (hd (st_shards crowded_stripe)))"
  have each: "?moves (SNAP_CHUNKS, k, Chunk_row \<lparr>bc_chunk_id = 0, bc_stripe = Some crowded_stripe, bc_owner = []\<rparr>)" for k
    by (simp add: rewritten_def sample_codec_def crowded_stripe_def sample_stripe_def move_shard_def)
  have rows: "ms_block crowded = crowded_rows 257" by (simp add: crowded_def)
  have "filter ?moves (chunk_rows (ms_block crowded)) = chunk_rows (ms_block crowded)"
    unfolding rows crowded_chunk_rows using each by (intro filter_True) auto
  moreover have len: "length (chunk_rows (ms_block crowded)) = 257" by (simp add: rows crowded_chunk_rows)
  ultimately have many: "MAX_OPS < length (filter ?moves (chunk_rows (ms_block crowded)))" by (simp add: MAX_OPS_def)
  have mode: "ms_mode crowded = Raft_mode" by (simp add: crowded_def meta_start_def)
  have dec: "list_all (\<lambda>(t, k, raw). dec_chunk sample_codec raw \<noteq> None) (chunk_rows (ms_block crowded))"
    by (simp add: rows crowded_chunk_rows list_all_iff sample_codec_def)
  have same: "crowded\<lparr>ms_raft := tl (ms_raft crowded)\<rparr> = crowded" by (simp add: crowded_def meta_start_def)
  from crowded_stripe_never_moves [OF mode dec many] len same show ?thesis by simp
qed

section \<open>A node that lags behind\<close>



end
