(* ===== verification/Erasure.thy ===== *)
theory Erasure
  imports Prelude
begin

text \<open>
  The erasure codec: \<open>erasure/src/codec.rs\<close> (\<open>ErasureCodec\<close>), its backends
  \<open>erasure/src/backend/\<close> (ISA-L for MDS stripes, LRC on reed-solomon-simd), the profile
  checks of \<open>erasure/src/scheme.rs\<close> and \<open>ErasureConfig\<close> of \<open>common/src/types.rs\<close>.

  The arithmetic of the codes is third-party: the crates \<open>erasure-isa-l\<close>,
  \<open>reed-solomon-simd\<close> and \<open>crc32c\<close> are the fields of the record \<open>coders\<close>, an argument of
  every definition that calls them. The texts of error messages are left out. Lengths are
  those of buffers in memory and do not overflow.
\<close>

section \<open>Errors and configuration\<close>

datatype erasure_error =
    InvalidConfig
  | EncodingFailed
  | DecodingFailed
  | InsufficientShards nat nat
  | ShardSizeMismatch
  | LrcConfigRequired
  | Unverified bool

datatype erasure_type = Mds | Lrc nat nat

record erasure_config =
  ec_data_shards :: nat
  ec_parity_shards :: nat
  ec_type :: erasure_type

definition erasure_config_new :: "nat \<Rightarrow> nat \<Rightarrow> erasure_config" where
  "erasure_config_new k m = \<lparr>ec_data_shards = k, ec_parity_shards = m, ec_type = Mds\<rparr>"

definition erasure_config_lrc :: "nat \<Rightarrow> nat \<Rightarrow> nat \<Rightarrow> erasure_config" where
  "erasure_config_lrc k l g =
     \<lparr>ec_data_shards = k, ec_parity_shards = (l + g) mod 256, ec_type = Lrc l g\<rparr>"

section \<open>Third-party coders\<close>

record coders =
  isal_with_reed_solomon :: "nat \<Rightarrow> nat \<Rightarrow> bool"
  isal_encode :: "nat \<Rightarrow> nat \<Rightarrow> bytes list \<Rightarrow> bytes list option"
  isal_decode :: "nat \<Rightarrow> nat \<Rightarrow> bytes list \<Rightarrow> bytes list \<Rightarrow> nat list \<Rightarrow> (bytes list \<times> bytes list) option"
  rs_encode :: "nat \<Rightarrow> nat \<Rightarrow> nat \<Rightarrow> bytes list \<Rightarrow> bytes list option"
  rs_decoder_new :: "nat \<Rightarrow> nat \<Rightarrow> nat \<Rightarrow> bool"
  rs_decode ::
    "nat \<Rightarrow> nat \<Rightarrow> nat \<Rightarrow> (nat \<times> bytes) list \<Rightarrow> (nat \<times> bytes) list \<Rightarrow> (nat \<Rightarrow> bytes option) option"
  crc32c :: "bytes \<Rightarrow> nat"

section \<open>Profiles\<close>

definition MAX_SHARDS :: nat where
  "MAX_SHARDS = 255"

definition is_mds :: "nat \<Rightarrow> nat \<Rightarrow> bool" where
  "is_mds data_shards parity_shards =
     (if data_shards = 0 \<or> parity_shards = 0 \<or> data_shards + parity_shards > MAX_SHARDS
      then False
      else let (fewer, more) =
                 (if data_shards < parity_shards then (data_shards, parity_shards)
                  else (parity_shards, data_shards))
           in fewer \<le> 3 \<or> (fewer = 4 \<and> more \<le> 21) \<or> (fewer = 5 \<and> more = 5))"

datatype profile_fault = Not_a_code | No_parity | Not_mds | Lrc_zero | Lrc_groups | Lrc_too_many | Bad_copies

definition check_mds :: "nat \<Rightarrow> nat \<Rightarrow> profile_fault + unit" where
  "check_mds k m =
     (if k = 0 \<or> k + m > MAX_SHARDS then Inl Not_a_code
      else if m = 0 then Inl No_parity
      else if \<not> is_mds k m then Inl Not_mds
      else Inr ())"

text \<open>\<open>usize::is_multiple_of\<close>, and its \<open>u8\<close> twin.\<close>

definition is_multiple_of :: "nat \<Rightarrow> nat \<Rightarrow> bool" where
  "is_multiple_of a b = (if b = 0 then a = 0 else a mod b = 0)"

definition check_lrc :: "nat \<Rightarrow> nat \<Rightarrow> nat \<Rightarrow> profile_fault + unit" where
  "check_lrc k l g =
     (if k = 0 \<or> l = 0 \<or> g = 0 then Inl Lrc_zero
      else if \<not> is_multiple_of k l then Inl Lrc_groups
      else if k + l + g > MAX_SHARDS then Inl Lrc_too_many
      else Inr ())"

definition check_replicas :: "nat \<Rightarrow> profile_fault + unit" where
  "check_replicas n = (if n = 0 \<or> n > MAX_SHARDS then Inl Bad_copies else Inr ())"

section \<open>The ISA-L backend\<close>

text \<open>\<open>IsalBackend::new\<close>; the value is \<open>(k, m)\<close>.\<close>

definition isal_new :: "coders \<Rightarrow> nat \<Rightarrow> nat \<Rightarrow> erasure_error + (nat \<times> nat)" where
  "isal_new c k m =
     (if k = 0 then Inl InvalidConfig
      else if m = 0 then Inl InvalidConfig
      else if k + m > 255 then Inl InvalidConfig
      else if isal_with_reed_solomon c k m then Inr (k, m)
      else Inl InvalidConfig)"

definition isal_backend_encode ::
    "coders \<Rightarrow> nat \<Rightarrow> nat \<Rightarrow> bytes list \<Rightarrow> nat \<Rightarrow> erasure_error + bytes list" where
  "isal_backend_encode c k m data_shards shard_size =
     (if length data_shards \<noteq> k then Inl InvalidConfig
      else if list_ex (\<lambda>s. length s \<noteq> shard_size) data_shards then Inl InvalidConfig
      else case isal_encode c k m data_shards of
             None \<Rightarrow> Inl EncodingFailed
           | Some parity \<Rightarrow> Inr (data_shards @ parity))"

definition check_parity_buffers :: "bytes list \<Rightarrow> nat \<Rightarrow> nat \<Rightarrow> erasure_error + unit" where
  "check_parity_buffers parity m shard_size =
     (if length parity \<noteq> m then Inl InvalidConfig
      else if list_ex (\<lambda>p. length p \<noteq> shard_size) parity then Inl ShardSizeMismatch
      else Inr ())"

text \<open>\<open>encode_parity_into\<close>: the parity buffers after the call.\<close>

definition isal_encode_parity_into ::
    "coders \<Rightarrow> nat \<Rightarrow> nat \<Rightarrow> bytes list \<Rightarrow> bytes list \<Rightarrow> nat \<Rightarrow> erasure_error + bytes list" where
  "isal_encode_parity_into c k m data_shards parity shard_size =
     and_then (check_parity_buffers parity m shard_size) (\<lambda>_.
       if length data_shards \<noteq> k \<or> list_ex (\<lambda>s. length s \<noteq> shard_size) data_shards
       then Inl ShardSizeMismatch
       else case isal_encode c k m data_shards of
              None \<Rightarrow> Inl EncodingFailed
            | Some parity' \<Rightarrow> Inr parity')"

definition present :: "bytes option list \<Rightarrow> nat" where
  "present shards = length (filter (\<lambda>s. s \<noteq> None) shards)"

definition or_zeros :: "nat \<Rightarrow> bytes option \<Rightarrow> bytes" where
  "or_zeros shard_size s = (case s of Some b \<Rightarrow> b | None \<Rightarrow> replicate shard_size 0)"

definition isal_backend_decode ::
    "coders \<Rightarrow> nat \<Rightarrow> nat \<Rightarrow> bytes option list \<Rightarrow> nat \<Rightarrow> nat list \<Rightarrow> erasure_error + bytes list" where
  "isal_backend_decode c k m shards shard_size missing_indices =
     (if length shards \<noteq> k + m then Inl InvalidConfig
      else if present shards < k then Inl (InsufficientShards (present shards) k)
      else if list_all (\<lambda>s. s \<noteq> None) (take k shards) then
        (let data = map the (take k shards) in
         and_then (isal_backend_encode c k m data shard_size) (\<lambda>encoded.
           Inr (data @ take m (drop k encoded))))
      else
        (let data = map (or_zeros shard_size) (take k shards);
             parity = map (or_zeros shard_size) (take m (drop k shards));
             erasures = filter (\<lambda>i. shards ! i = None \<or> i \<in> set missing_indices) [0..<length shards]
         in case isal_decode c k m data parity erasures of
              None \<Rightarrow> Inl DecodingFailed
            | Some (data', parity') \<Rightarrow> Inr (data' @ parity')))"

section \<open>The LRC backend\<close>

record lrc_config =
  lrc_data_shards :: nat
  lrc_local_parity_shards :: nat
  lrc_global_parity_shards :: nat
  lrc_local_group_size :: nat

definition lrc_config_new :: "nat \<Rightarrow> nat \<Rightarrow> nat \<Rightarrow> lrc_config" where
  "lrc_config_new k l g =
     \<lparr>lrc_data_shards = k, lrc_local_parity_shards = l, lrc_global_parity_shards = g,
      lrc_local_group_size = k div l\<rparr>"

definition lrc_total_parity :: "lrc_config \<Rightarrow> nat" where
  "lrc_total_parity cfg = (lrc_local_parity_shards cfg + lrc_global_parity_shards cfg) mod 256"

record lrc_encoded_data =
  led_data_shards :: "bytes list"
  led_local_parity_shards :: "bytes list"
  led_global_parity_shards :: "bytes list"

definition all_shards :: "lrc_encoded_data \<Rightarrow> bytes list" where
  "all_shards e =
     led_data_shards e @ led_local_parity_shards e @ led_global_parity_shards e"

record local_group =
  lg_group_index :: nat
  lg_data_shard_indices :: "nat list"
  lg_local_parity_index :: nat

definition lrc_new :: "lrc_config \<Rightarrow> erasure_error + lrc_config" where
  "lrc_new cfg =
     (if lrc_data_shards cfg = 0 then Inl InvalidConfig
      else if lrc_local_parity_shards cfg = 0 then Inl InvalidConfig
      else if \<not> is_multiple_of (lrc_data_shards cfg) (lrc_local_parity_shards cfg)
      then Inl InvalidConfig
      else Inr cfg)"

text \<open>\<open>result[i] ^= byte\<close> for the bytes of a slice, those past the end of the result left out.\<close>

fun xor_into :: "bytes \<Rightarrow> bytes \<Rightarrow> bytes" where
  "xor_into [] bs = []"
| "xor_into (r # rs) [] = r # rs"
| "xor_into (r # rs) (b # bs) = xor r b # xor_into rs bs"

definition xor_slices :: "bytes list \<Rightarrow> nat \<Rightarrow> bytes" where
  "xor_slices slices shard_size = foldl xor_into (replicate shard_size 0) slices"

definition encode_lrc ::
    "coders \<Rightarrow> lrc_config \<Rightarrow> bytes list \<Rightarrow> nat \<Rightarrow> erasure_error + lrc_encoded_data" where
  "encode_lrc c cfg data_shards shard_size =
     (let k = lrc_data_shards cfg; l = lrc_local_parity_shards cfg;
          g = lrc_global_parity_shards cfg; group_size = lrc_local_group_size cfg in
      if length data_shards \<noteq> k then Inl InvalidConfig
      else if list_ex (\<lambda>s. length s \<noteq> shard_size) data_shards then Inl InvalidConfig
      else
        (let local = map (\<lambda>i. xor_slices (take group_size (drop (i * group_size) data_shards)) shard_size)
                       [0..<l]
         in case rs_encode c k g shard_size data_shards of
              None \<Rightarrow> Inl EncodingFailed
            | Some global \<Rightarrow>
                Inr \<lparr>led_data_shards = data_shards, led_local_parity_shards = local,
                     led_global_parity_shards = global\<rparr>))"

definition local_group_of :: "lrc_config \<Rightarrow> nat \<Rightarrow> local_group option" where
  "local_group_of cfg shard_index =
     (let k = lrc_data_shards cfg; l = lrc_local_parity_shards cfg;
          group_size = lrc_local_group_size cfg in
      if shard_index \<ge> k + l then None
      else
        (let group_index = (if shard_index < k then shard_index div group_size else shard_index - k);
             start = group_index * group_size
         in Some \<lparr>lg_group_index = group_index mod 256,
                  lg_data_shard_indices = [start..<start + group_size],
                  lg_local_parity_index = k + group_index\<rparr>))"

text \<open>\<open>shards.get(i)\<close>, a slot past the end read as an absent shard.\<close>

definition slot :: "'a option list \<Rightarrow> nat \<Rightarrow> 'a option" where
  "slot shards i = (if i < length shards then shards ! i else None)"

definition decode_local ::
    "lrc_config \<Rightarrow> bytes option list \<Rightarrow> nat \<Rightarrow> nat \<Rightarrow> erasure_error + bytes option" where
  "decode_local cfg shards shard_size missing_index =
     (case local_group_of cfg missing_index of
        None \<Rightarrow> Inr None
      | Some grp \<Rightarrow>
          if list_all (\<lambda>idx. idx = missing_index \<or> slot shards idx \<noteq> None)
               (lg_data_shard_indices grp) \<and>
             slot shards (lg_local_parity_index grp) \<noteq> None
          then
            (let others = filter (\<lambda>idx. idx \<noteq> missing_index) (lg_data_shard_indices grp);
                 recovered = foldl (\<lambda>r idx. case slot shards idx of
                                              Some data \<Rightarrow> xor_into r data
                                            | None \<Rightarrow> r)
                               (replicate shard_size 0) others
             in Inr (Some (case slot shards (lg_local_parity_index grp) of
                             Some parity \<Rightarrow> xor_into recovered parity
                           | None \<Rightarrow> recovered)))
          else Inr None)"

text \<open>The two loops of \<open>RustSimdLrcBackend::decode\<close>: local recovery, then what is left from
  the global code.\<close>

fun lrc_local_pass ::
    "lrc_config \<Rightarrow> bytes option list \<Rightarrow> nat \<Rightarrow> nat list \<Rightarrow> bytes list \<Rightarrow> nat list
     \<Rightarrow> erasure_error + (bytes list \<times> nat list)" where
  "lrc_local_pass cfg shards shard_size [] reconstructed remaining = Inr (reconstructed, remaining)"
| "lrc_local_pass cfg shards shard_size (idx # rest) reconstructed remaining =
     and_then (decode_local cfg shards shard_size idx) (\<lambda>r.
       case r of
         Some recovered \<Rightarrow>
           lrc_local_pass cfg shards shard_size rest (reconstructed @ [recovered])
             (filter (\<lambda>x. x \<noteq> idx) remaining)
       | None \<Rightarrow> lrc_local_pass cfg shards shard_size rest reconstructed remaining)"

fun lrc_collect ::
    "nat \<Rightarrow> (nat \<Rightarrow> bytes option) \<Rightarrow> nat list \<Rightarrow> bytes list \<Rightarrow> erasure_error + bytes list" where
  "lrc_collect k restored [] reconstructed = Inr reconstructed"
| "lrc_collect k restored (idx # rest) reconstructed =
     (if idx < k then
        (case restored idx of
           Some r \<Rightarrow> lrc_collect k restored rest (reconstructed @ [r])
         | None \<Rightarrow> Inl DecodingFailed)
      else Inl DecodingFailed)"

definition indexed_present :: "bytes option list \<Rightarrow> (nat \<times> bytes) list" where
  "indexed_present shards =
     map (\<lambda>i. (i, the (shards ! i))) (filter (\<lambda>i. shards ! i \<noteq> None) [0..<length shards])"

definition lrc_backend_decode ::
    "coders \<Rightarrow> lrc_config \<Rightarrow> bytes option list \<Rightarrow> nat \<Rightarrow> nat list \<Rightarrow> erasure_error + bytes list" where
  "lrc_backend_decode c cfg shards shard_size missing_indices =
     (let k = lrc_data_shards cfg; l = lrc_local_parity_shards cfg;
          g = lrc_global_parity_shards cfg in
      if length shards \<noteq> k + l + g then Inl InvalidConfig
      else and_then (lrc_local_pass cfg shards shard_size missing_indices [] missing_indices)
        (\<lambda>(reconstructed, remaining).
           if remaining = [] then Inr reconstructed
           else
             (let available = present (take k shards @ take g (drop (k + l) shards)) in
              if available < k then Inl (InsufficientShards available k)
              else if \<not> rs_decoder_new c k g shard_size then Inl InvalidConfig
              else
                (case rs_decode c k g shard_size (indexed_present (take k shards))
                        (indexed_present (take g (drop (k + l) shards))) of
                   None \<Rightarrow> Inl DecodingFailed
                 | Some restored \<Rightarrow> lrc_collect k restored remaining reconstructed))))"

section \<open>The codec\<close>

datatype codec_backend = Mds_backend nat nat | Lrc_backend lrc_config

record erasure_codec =
  codec_config :: erasure_config
  codec_backend :: codec_backend

text \<open>\<open>ErasureCodec::new\<close>, through \<open>BackendFactory\<close>.\<close>

definition create_mds :: "coders \<Rightarrow> nat \<Rightarrow> nat \<Rightarrow> erasure_error + codec_backend" where
  "create_mds c k m = and_then (isal_new c k m) (\<lambda>(k, m). Inr (Mds_backend k m))"

definition create_lrc :: "lrc_config option \<Rightarrow> erasure_error + codec_backend" where
  "create_lrc cfg =
     (case cfg of
        None \<Rightarrow> Inl InvalidConfig
      | Some lrc \<Rightarrow> and_then (lrc_new lrc) (\<lambda>b. Inr (Lrc_backend b)))"

definition codec_new :: "coders \<Rightarrow> erasure_config \<Rightarrow> erasure_error + erasure_codec" where
  "codec_new c config =
     (if ec_data_shards config = 0 then Inl InvalidConfig
      else if ec_parity_shards config = 0 then Inl InvalidConfig
      else and_then
        (case ec_type config of
           Mds \<Rightarrow> create_mds c (ec_data_shards config) (ec_parity_shards config)
         | Lrc l g \<Rightarrow>
             (case check_lrc (ec_data_shards config) l g of
                Inl _ \<Rightarrow> Inl InvalidConfig
              | Inr _ \<Rightarrow> create_lrc (Some (lrc_config_new (ec_data_shards config) l g))))
        (\<lambda>b. Inr \<lparr>codec_config = config, codec_backend = b\<rparr>))"

definition data_shards :: "erasure_codec \<Rightarrow> nat" where
  "data_shards codec =
     (case codec_backend codec of Mds_backend k m \<Rightarrow> k | Lrc_backend cfg \<Rightarrow> lrc_data_shards cfg)"

definition parity_shards :: "erasure_codec \<Rightarrow> nat" where
  "parity_shards codec =
     (case codec_backend codec of Mds_backend k m \<Rightarrow> m | Lrc_backend cfg \<Rightarrow> lrc_total_parity cfg)"

definition total_shards :: "erasure_codec \<Rightarrow> nat" where
  "total_shards codec = data_shards codec + parity_shards codec"

definition is_lrc :: "erasure_codec \<Rightarrow> bool" where
  "is_lrc codec =
     (case codec_backend codec of Mds_backend k m \<Rightarrow> False | Lrc_backend cfg \<Rightarrow> True)"

subsection \<open>Encoding\<close>

definition next_multiple_of :: "nat \<Rightarrow> nat \<Rightarrow> nat" where
  "next_multiple_of a b = (if a mod b = 0 then a else a + (b - a mod b))"

definition shard_size_for :: "nat \<Rightarrow> nat \<Rightarrow> nat" where
  "shard_size_for len k = max (next_multiple_of (div_ceil len k) 64) 64"

definition stripe_len :: "erasure_codec \<Rightarrow> nat \<Rightarrow> nat" where
  "stripe_len codec data_len = shard_size_for data_len (data_shards codec) * total_shards codec"

text \<open>\<open>chunks_exact(len)\<close> of a buffer of \<open>n * len\<close> bytes, and the slices
  \<open>[i * len..(i + 1) * len]\<close> for \<open>i\<close> below \<open>n\<close>.\<close>

definition split_shards :: "nat \<Rightarrow> nat \<Rightarrow> bytes \<Rightarrow> bytes list" where
  "split_shards n len bs = map (\<lambda>i. take len (drop (i * len) bs)) [0..<n]"

text \<open>\<open>copy_from_slice\<close> into a buffer of zeros.\<close>

definition padded :: "nat \<Rightarrow> bytes \<Rightarrow> bytes" where
  "padded len data = overlay 0 data (replicate len 0)"

definition encode_inner :: "coders \<Rightarrow> erasure_codec \<Rightarrow> bytes \<Rightarrow> erasure_error + bytes list" where
  "encode_inner c codec data =
     (let k = data_shards codec;
          shard_size = shard_size_for (length data) k;
          shards = split_shards k shard_size (padded (shard_size * k) data)
      in case codec_backend codec of
           Mds_backend k m \<Rightarrow>
             (case isal_backend_encode c k m shards shard_size of
                Inl _ \<Rightarrow> Inl EncodingFailed
              | Inr s \<Rightarrow> Inr s)
         | Lrc_backend cfg \<Rightarrow>
             (case encode_lrc c cfg shards shard_size of
                Inl _ \<Rightarrow> Inl EncodingFailed
              | Inr e \<Rightarrow> Inr (all_shards e)))"

text \<open>\<open>encode_into_inner\<close>: the shard size and the caller's buffer after the call.\<close>

definition encode_into ::
    "coders \<Rightarrow> erasure_codec \<Rightarrow> bytes \<Rightarrow> bytes \<Rightarrow> erasure_error + (nat \<times> bytes)" where
  "encode_into c codec data stripe =
     (case codec_backend codec of
        Lrc_backend cfg \<Rightarrow> Inl InvalidConfig
      | Mds_backend kb mb \<Rightarrow>
          (let k = data_shards codec;
               shard_size = shard_size_for (length data) k;
               len = shard_size * total_shards codec in
           if length stripe < len then Inl ShardSizeMismatch
           else
             (let head = overlay 0 data (take len stripe);
                  head = overlay (length data) (replicate (shard_size * k - length data) 0) head;
                  data_part = take (shard_size * k) head;
                  parity_part = drop (shard_size * k) head
              in case isal_encode_parity_into c kb mb (split_shards k shard_size data_part)
                        (split_shards (length parity_part div shard_size) shard_size parity_part)
                        shard_size of
                   Inl _ \<Rightarrow> Inl EncodingFailed
                 | Inr parity \<Rightarrow> Inr (shard_size, data_part @ concat parity @ drop len stripe))))"

definition encode_bytes :: "coders \<Rightarrow> erasure_codec \<Rightarrow> bytes \<Rightarrow> erasure_error + bytes list" where
  "encode_bytes c codec data =
     (if is_lrc codec then encode_inner c codec data
      else and_then (encode_into c codec data (replicate (stripe_len codec (length data)) 0))
        (\<lambda>(shard_size, stripe). Inr (split_shards (total_shards codec) shard_size stripe)))"

definition encode_shards :: "coders \<Rightarrow> erasure_codec \<Rightarrow> bytes list \<Rightarrow> erasure_error + bytes list" where
  "encode_shards c codec data =
     (let shard_size = (case data of [] \<Rightarrow> 0 | s # _ \<Rightarrow> length s) in
      case codec_backend codec of
        Mds_backend k m \<Rightarrow> isal_backend_encode c k m data shard_size
      | Lrc_backend cfg \<Rightarrow> and_then (encode_lrc c cfg data shard_size) (\<lambda>e. Inr (all_shards e)))"

subsection \<open>Decoding\<close>

definition join_data :: "bytes list \<Rightarrow> nat \<Rightarrow> bytes" where
  "join_data data original_size = take original_size (concat data)"

definition flatten :: "'a option list \<Rightarrow> 'a list" where
  "flatten xs = map the (filter (\<lambda>s. s \<noteq> None) xs)"

definition data_present :: "erasure_codec \<Rightarrow> bytes option list \<Rightarrow> bool" where
  "data_present codec shards \<longleftrightarrow>
     length shards \<ge> data_shards codec \<and>
     list_all (\<lambda>s. s \<noteq> None) (take (data_shards codec) shards)"

definition missing_slots :: "bytes option list \<Rightarrow> nat list" where
  "missing_slots shards = filter (\<lambda>i. shards ! i = None) [0..<length shards]"

text \<open>\<open>recovered[i].as_deref().or(shards[i])\<close> for every slot.\<close>

definition or_slots :: "bytes option list \<Rightarrow> bytes option list \<Rightarrow> bytes option list" where
  "or_slots recovered shards =
     map (\<lambda>i. case recovered ! i of Some s \<Rightarrow> Some s | None \<Rightarrow> shards ! i) [0..<length recovered]"

definition recover_local ::
    "lrc_config \<Rightarrow> bytes option list \<Rightarrow> nat \<Rightarrow> bytes option list \<Rightarrow> nat \<Rightarrow> bytes option list" where
  "recover_local cfg shards shard_size recovered idx =
     (case decode_local cfg (or_slots recovered shards) shard_size idx of
        Inr (Some shard) \<Rightarrow> recovered[idx := Some shard]
      | _ \<Rightarrow> recovered)"

text \<open>\<open>for (idx, shard) in still.into_iter().zip(global)\<close>.\<close>

definition put_recovered :: "bytes option list \<Rightarrow> (nat \<times> bytes) list \<Rightarrow> bytes option list" where
  "put_recovered recovered found = foldl (\<lambda>r (idx, shard). r[idx := Some shard]) recovered found"

fun all_rebuilt :: "bytes option list \<Rightarrow> erasure_error + bytes list" where
  "all_rebuilt [] = Inr []"
| "all_rebuilt (None # rest) = Inl DecodingFailed"
| "all_rebuilt (Some s # rest) = and_then (all_rebuilt rest) (\<lambda>ss. Inr (s # ss))"

definition rebuild_lrc ::
    "coders \<Rightarrow> lrc_config \<Rightarrow> nat \<Rightarrow> bytes option list \<Rightarrow> nat \<Rightarrow> erasure_error + bytes list" where
  "rebuild_lrc c cfg width shards shard_size =
     (let k = lrc_data_shards cfg;
          recovered = foldl (recover_local cfg shards shard_size) (replicate width None)
            (filter (\<lambda>i. i < k) (missing_slots shards));
          still = filter (\<lambda>i. shards ! i = None \<and> recovered ! i = None) [0..<k]
      in and_then
           (if still = [] then Inr recovered
            else case lrc_backend_decode c cfg (or_slots recovered shards) shard_size still of
                   Inl _ \<Rightarrow> Inl DecodingFailed
                 | Inr global \<Rightarrow> Inr (put_recovered recovered (zip still global)))
           (\<lambda>recovered. all_rebuilt (take k (or_slots recovered shards))))"

definition rebuild_data ::
    "coders \<Rightarrow> erasure_codec \<Rightarrow> bytes option list \<Rightarrow> erasure_error + bytes list" where
  "rebuild_data c codec shards =
     (let k = data_shards codec in
      if length shards \<noteq> total_shards codec then Inl InvalidConfig
      else if present shards < k then Inl (InsufficientShards (present shards) k)
      else case flatten shards of
             [] \<Rightarrow> Inl (InsufficientShards 0 k)
           | first # _ \<Rightarrow>
               if data_present codec shards then Inr (flatten (take k shards))
               else
                 (case codec_backend codec of
                    Mds_backend kb mb \<Rightarrow>
                      (case isal_backend_decode c kb mb shards (length first) (missing_slots shards) of
                         Inl _ \<Rightarrow> Inl DecodingFailed
                       | Inr decoded \<Rightarrow>
                           if length decoded < k then Inl DecodingFailed else Inr (take k decoded))
                  | Lrc_backend cfg \<Rightarrow>
                      rebuild_lrc c cfg (total_shards codec) shards (length first)))"

definition decode :: "coders \<Rightarrow> erasure_codec \<Rightarrow> bytes option list \<Rightarrow> nat \<Rightarrow> erasure_error + bytes" where
  "decode c codec shards original_size =
     (if data_present codec shards
      then Inr (join_data (flatten (take (data_shards codec) shards)) original_size)
      else and_then (rebuild_data c codec shards) (\<lambda>data. Inr (join_data data original_size)))"

subsection \<open>Verified decoding\<close>

text \<open>\<open>Combinations\<close>: the first choice, the choice after one, and the iterator run to its end.\<close>

definition comb_first :: "nat \<Rightarrow> nat \<Rightarrow> nat list option" where
  "comb_first n r = (if r \<le> n then Some [0..<r] else None)"

definition comb_next :: "nat \<Rightarrow> nat list \<Rightarrow> nat list option" where
  "comb_next n current =
     (let r = length current in
      case find (\<lambda>i. current ! i < n - r + i) (rev [0..<r]) of
        None \<Rightarrow> None
      | Some i \<Rightarrow>
          Some (foldl (\<lambda>following j. following[j := following ! (j - 1) + 1])
                  (current[i := current ! i + 1]) [i + 1..<r]))"

lemma pack_from:
  assumes "i + Suc d \<le> length f"
  shows "foldl (\<lambda>f j. f[j := f ! (j - 1) + 1]) f [i + 1..<i + Suc d] =
         take i f @ [f ! i..<f ! i + Suc d] @ drop (i + Suc d) f"
  using assms
proof (induction d)
  case 0
  then have "i < length f" by simp
  then show ?case by (simp add: id_take_nth_drop [symmetric])
next
  case (Suc d)
  let ?g = "take i f @ [f ! i..<f ! i + Suc d] @ drop (i + Suc d) f"
  have "foldl (\<lambda>f j. f[j := f ! (j - 1) + 1]) f [i + 1..<i + Suc d] = ?g"
    using Suc by simp
  moreover have "[i + 1..<i + Suc (Suc d)] = [i + 1..<i + Suc d] @ [i + Suc d]" by simp
  moreover have "?g[i + Suc d := ?g ! (i + d) + 1] =
      take i f @ [f ! i..<f ! i + Suc (Suc d)] @ drop (i + Suc (Suc d)) f"
  proof -
    have g: "?g ! (i + d) = f ! i + d" using Suc.prems by (simp add: nth_append)
    have "drop (i + Suc d) f = f ! (i + Suc d) # drop (i + Suc (Suc d)) f"
      using Suc.prems by (simp add: Cons_nth_drop_Suc)
    then show ?thesis using Suc.prems unfolding g by (simp add: list_update_append)
  qed
  ultimately show ?case by simp
qed

text \<open>Every choice is followed by a larger one: the distance of each index to its last place
  shrinks in the lexicographic order.\<close>

definition comb_slack :: "nat \<Rightarrow> nat list \<Rightarrow> nat list" where
  "comb_slack n current = map (\<lambda>i. n - length current + i - current ! i) [0..<length current]"

lemma comb_next_Some:
  assumes "comb_next n current = Some following"
  obtains i where "i < length current" "current ! i < n - length current + i"
    "\<forall>j. i < j \<and> j < length current \<longrightarrow> \<not> current ! j < n - length current + j"
    "following = take i current @ [current ! i + 1..<current ! i + 1 + (length current - i)]"
proof -
  let ?r = "length current"
  obtain i where i: "find (\<lambda>i. current ! i < n - ?r + i) (rev [0..<?r]) = Some i"
    and f: "following = foldl (\<lambda>f j. f[j := f ! (j - 1) + 1]) (current[i := current ! i + 1]) [i + 1..<?r]"
    using assms by (auto simp: comb_next_def Let_def split: option.splits)
  from i obtain p where p: "p < ?r" "i = rev [0..<?r] ! p" "current ! i < n - ?r + i"
    "\<And>q. q < p \<Longrightarrow> \<not> current ! (rev [0..<?r] ! q) < n - ?r + rev [0..<?r] ! q"
    by (auto simp: find_Some_iff)
  have ip: "i = ?r - Suc p" using p by (simp add: rev_nth)
  show thesis
  proof (rule that)
    show ir: "i < ?r" using ip p(1) by simp
    show "current ! i < n - ?r + i" by (rule p(3))
    show "\<forall>j. i < j \<and> j < ?r \<longrightarrow> \<not> current ! j < n - ?r + j"
    proof (intro allI impI)
      fix j
      assume j: "i < j \<and> j < ?r"
      then have "0 < ?r" by auto
      then have "?r - Suc j < length [0..<?r]" by simp
      then have "rev [0..<?r] ! (?r - Suc j) = j" using j by (simp add: rev_nth del: upt_Suc)
      moreover have "?r - Suc j < p" using j ip p(1) by linarith
      ultimately show "\<not> current ! j < n - ?r + j" using p(4) [of "?r - Suc j"] by simp
    qed
    obtain d where d: "?r = i + Suc d" using ir less_imp_Suc_add by force
    have "following = take i current @ [current ! i + 1..<current ! i + 1 + Suc d]"
      using pack_from [of i d "current[i := current ! i + 1]"] ir d f by simp
    then show "following = take i current @ [current ! i + 1..<current ! i + 1 + (?r - i)]"
      using d by simp
  qed
qed

lemma lenlex_at:
  fixes xs ys :: "nat list"
  assumes len: "length xs = length ys" and i: "i < length ys"
    and pre: "take i xs = take i ys" and at: "xs ! i < ys ! i"
  shows "(xs, ys) \<in> lenlex less_than"
proof -
  have x: "xs = take i ys @ xs ! i # drop (Suc i) xs"
    using id_take_nth_drop [of i xs] i len pre by simp
  have y: "ys = take i ys @ ys ! i # drop (Suc i) ys" using i by (rule id_take_nth_drop)
  have "(xs ! i # drop (Suc i) xs, ys ! i # drop (Suc i) ys) \<in> lex less_than"
    using at len by simp
  then have "(take i ys @ xs ! i # drop (Suc i) xs, take i ys @ ys ! i # drop (Suc i) ys)
      \<in> lex less_than"
    by (rule lex_append_leftI)
  then have "(xs, ys) \<in> lex less_than" using x y by simp
  then show ?thesis using len by (simp add: lenlex_conv)
qed

lemma comb_next_shrinks:
  assumes "comb_next n current = Some following"
  shows "(comb_slack n following, comb_slack n current) \<in> lenlex less_than"
proof -
  let ?r = "length current"
  from assms obtain i where i: "i < ?r" "current ! i < n - ?r + i"
    "following = take i current @ [current ! i + 1..<current ! i + 1 + (?r - i)]"
    by (rule comb_next_Some)
  have len: "length following = ?r" using i(1) by (simp add: i(3) del: upt_Suc)
  have pre: "following ! j = current ! j" if "j < i" for j
    using that i(1) by (simp add: i(3) nth_append del: upt_Suc)
  have at: "following ! i = current ! i + 1" using i(1) by (simp add: i(3) nth_append del: upt_Suc)
  have "take i (comb_slack n following) = take i (comb_slack n current)"
    by (rule nth_equalityI) (use i(1) len pre in \<open>auto simp: comb_slack_def\<close>)
  moreover have "comb_slack n following ! i < comb_slack n current ! i"
    using i(1,2) len at by (simp add: comb_slack_def)
  moreover have "length (comb_slack n following) = length (comb_slack n current)"
    using len by (simp add: comb_slack_def)
  moreover have "i < length (comb_slack n current)" using i(1) by (simp add: comb_slack_def)
  ultimately show ?thesis by (rule lenlex_at [rotated 2])
qed

function combinations_from :: "nat \<Rightarrow> nat list \<Rightarrow> nat list list" where
  "combinations_from n current =
     current # (case comb_next n current of
                  None \<Rightarrow> []
                | Some following \<Rightarrow> combinations_from n following)"
  by pat_completeness auto
termination
  by (relation "inv_image (lenlex less_than) (\<lambda>(n, current). comb_slack n current)")
    (auto simp: comb_next_shrinks wf_lenlex)

declare combinations_from.simps [simp del]

definition combinations :: "nat \<Rightarrow> nat \<Rightarrow> nat list list" where
  "combinations n r =
     (case comb_first n r of None \<Rightarrow> [] | Some current \<Rightarrow> combinations_from n current)"

definition MAX_DECODE_ATTEMPTS :: nat where
  "MAX_DECODE_ATTEMPTS = 256"

datatype rebuilt_check = Verified | Mismatch | Unchecked

text \<open>The loop of \<open>check_rebuilt\<close> over the rebuilt shards: \<open>None\<close> at a checksum that does not
  match, otherwise whether one of them has none recorded.\<close>

fun check_recorded ::
    "coders \<Rightarrow> bytes list \<Rightarrow> nat option list \<Rightarrow> nat list \<Rightarrow> bool \<Rightarrow> bool option" where
  "check_recorded c data recorded [] unrecorded = Some unrecorded"
| "check_recorded c data recorded (i # rest) unrecorded =
     (case slot recorded i of
        Some crc \<Rightarrow>
          if crc32c c (data ! i) = crc then check_recorded c data recorded rest unrecorded else None
      | None \<Rightarrow> check_recorded c data recorded rest True)"

definition check_rebuilt ::
    "coders \<Rightarrow> erasure_codec \<Rightarrow> bytes option list \<Rightarrow> bytes list \<Rightarrow> nat list \<Rightarrow> nat list
     \<Rightarrow> nat option list \<Rightarrow> rebuilt_check" where
  "check_rebuilt c codec shards data rebuilt chosen recorded =
     (case check_recorded c data recorded rebuilt False of
        None \<Rightarrow> Mismatch
      | Some False \<Rightarrow> Verified
      | Some True \<Rightarrow>
          (let unused = filter (\<lambda>i. shards ! i \<noteq> None \<and> i \<notin> set chosen)
                          [data_shards codec..<total_shards codec] in
           if unused = [] then Unchecked
           else case encode_shards c codec data of
                  Inl _ \<Rightarrow> Unchecked
                | Inr stripe \<Rightarrow>
                    if list_ex (\<lambda>p. shards ! p = Some (stripe ! p)) unused
                    then Verified else Mismatch))"

definition subset_of :: "nat \<Rightarrow> bytes option list \<Rightarrow> nat list \<Rightarrow> bytes option list" where
  "subset_of k shards chosen =
     map (\<lambda>i. if i < k \<or> i \<in> set chosen then shards ! i else None) [0..<length shards]"

text \<open>One decode from the data shards given and the parity shards \<open>chosen\<close>: \<open>None\<close> when they
  do not determine the data.\<close>

definition attempt ::
    "coders \<Rightarrow> erasure_codec \<Rightarrow> bytes option list \<Rightarrow> nat option list \<Rightarrow> nat list \<Rightarrow> nat list
     \<Rightarrow> (rebuilt_check \<times> bytes list) option" where
  "attempt c codec shards recorded rebuilt chosen =
     (case rebuild_data c codec (subset_of (data_shards codec) shards chosen) of
        Inl _ \<Rightarrow> None
      | Inr data \<Rightarrow> Some (check_rebuilt c codec shards data rebuilt chosen recorded, data))"

text \<open>The inner loop: \<open>Inl\<close> the data returned, \<open>Inr\<close> the counters \<open>(tried, mismatched)\<close>.\<close>

fun try_choices ::
    "(nat list \<Rightarrow> (rebuilt_check \<times> bytes list) option) \<Rightarrow> nat list list \<Rightarrow> nat \<Rightarrow> nat
     \<Rightarrow> bytes list + (nat \<times> nat)" where
  "try_choices tr [] tried mismatched = Inr (tried, mismatched)"
| "try_choices tr (chosen # rest) tried mismatched =
     (if tried = MAX_DECODE_ATTEMPTS then Inr (tried, mismatched)
      else case tr chosen of
             None \<Rightarrow> try_choices tr rest (tried + 1) mismatched
           | Some (Verified, data) \<Rightarrow> Inl data
           | Some (Mismatch, data) \<Rightarrow> try_choices tr rest (tried + 1) (mismatched + 1)
           | Some (Unchecked, data) \<Rightarrow> try_choices tr rest (tried + 1) mismatched)"

fun try_used ::
    "(nat list \<Rightarrow> (rebuilt_check \<times> bytes list) option) \<Rightarrow> nat list \<Rightarrow> nat list \<Rightarrow> nat \<Rightarrow> nat
     \<Rightarrow> bytes list + (nat \<times> nat)" where
  "try_used tr parity [] tried mismatched = Inr (tried, mismatched)"
| "try_used tr parity (used # rest) tried mismatched =
     (case try_choices tr (map (map (\<lambda>c. parity ! c)) (combinations (length parity) used))
             tried mismatched of
        Inl data \<Rightarrow> Inl data
      | Inr (tried', mismatched') \<Rightarrow> try_used tr parity rest tried' mismatched')"

definition decode_verified ::
    "coders \<Rightarrow> erasure_codec \<Rightarrow> bytes option list \<Rightarrow> nat \<Rightarrow> nat option list
     \<Rightarrow> erasure_error + bytes" where
  "decode_verified c codec shards original_size recorded =
     (let k = data_shards codec; n = total_shards codec in
      if length shards \<noteq> n then Inl InvalidConfig
      else if data_present codec shards
      then Inr (join_data (flatten (take k shards)) original_size)
      else if present shards < k then Inl (InsufficientShards (present shards) k)
      else
        (let rebuilt = filter (\<lambda>i. shards ! i = None) [0..<k];
             parity = filter (\<lambda>i. shards ! i \<noteq> None) [k..<n]
         in case try_used (attempt c codec shards recorded rebuilt) parity
                   [length rebuilt..<length parity + 1] 0 0 of
              Inl data \<Rightarrow> Inr (join_data data original_size)
            | Inr (tried, mismatched) \<Rightarrow> Inl (Unverified (mismatched > 0))))"

subsection \<open>Repair\<close>

text \<open>\<open>stripe.get_mut(i).map(std::mem::take)\<close> for each index in turn.\<close>

fun take_shards :: "bytes list \<Rightarrow> nat list \<Rightarrow> erasure_error + bytes list" where
  "take_shards stripe [] = Inr []"
| "take_shards stripe (i # rest) =
     (if i < length stripe
      then and_then (take_shards (stripe[i := []]) rest) (\<lambda>ss. Inr (stripe ! i # ss))
      else Inl InvalidConfig)"

definition reconstruct_shards ::
    "coders \<Rightarrow> erasure_codec \<Rightarrow> bytes option list \<Rightarrow> nat list \<Rightarrow> erasure_error + bytes list" where
  "reconstruct_shards c codec shards missing_indices =
     (let k = data_shards codec in
      if present shards < k then Inl (InsufficientShards (present shards) k)
      else case flatten shards of
             [] \<Rightarrow> Inl (InsufficientShards 0 k)
           | first # _ \<Rightarrow>
               (case codec_backend codec of
                  Mds_backend kb mb \<Rightarrow>
                    (case isal_backend_decode c kb mb shards (length first) missing_indices of
                       Inl _ \<Rightarrow> Inl DecodingFailed
                     | Inr decoded \<Rightarrow>
                         if length decoded < k then Inl DecodingFailed
                         else (case isal_backend_encode c kb mb (take k decoded) (length first) of
                                 Inl _ \<Rightarrow> Inl EncodingFailed
                               | Inr stripe \<Rightarrow> take_shards stripe missing_indices))
                | Lrc_backend cfg \<Rightarrow>
                    and_then (rebuild_data c codec shards) (\<lambda>data.
                      and_then (encode_shards c codec data) (\<lambda>stripe.
                        take_shards stripe missing_indices))))"

end
