(* ===== verification/Erasure_Choices.thy ===== *)
theory Erasure_Choices
  imports Erasure "HOL-Library.List_Lexorder"
begin

text \<open>
  The iterator \<open>Combinations\<close> of \<open>codec.rs\<close>, which picks the parity shards a verified decode
  tries: it ends, and gives every choice once, in lexicographic order.
\<close>

definition is_choice :: "nat \<Rightarrow> nat \<Rightarrow> nat list \<Rightarrow> bool" where
  "is_choice n r xs \<longleftrightarrow> length xs = r \<and> sorted_wrt (<) xs \<and> (\<forall>x \<in> set xs. x < n)"

lemma less_list_at:
  assumes "length xs = length ys"
  shows "xs < (ys :: nat list) \<longleftrightarrow> (\<exists>p < length ys. take p xs = take p ys \<and> xs ! p < ys ! p)"
  using assms
proof (induction xs ys rule: list_induct2)
  case Nil
  then show ?case by simp
next
  case (Cons x xs y ys)
  have "(\<exists>p < length (y # ys). take p (x # xs) = take p (y # ys) \<and> (x # xs) ! p < (y # ys) ! p) \<longleftrightarrow>
      x < y \<or> x = y \<and> (\<exists>p < length ys. take p xs = take p ys \<and> xs ! p < ys ! p)"
    by (auto simp: Ex_less_Suc2)
  then show ?case using Cons.IH by simp
qed

lemma le_list_pointwise:
  assumes "length xs = length ys" "\<And>j. j < length ys \<Longrightarrow> xs ! j \<le> ys ! j"
  shows "xs \<le> (ys :: nat list)"
proof -
  have "list_all2 (\<le>) xs ys" using assms by (simp add: list_all2_conv_all_nth)
  then show ?thesis by (induction rule: list_all2_induct) (auto simp: order.order_iff_strict)
qed

lemma choice_gap:
  assumes s: "sorted_wrt (<) (xs :: nat list)" and d: "j + d < length xs"
  shows "xs ! j + d \<le> xs ! (j + d)"
  using d
proof (induction d)
  case 0
  then show ?case by simp
next
  case (Suc d)
  have "xs ! (j + d) < xs ! (j + Suc d)" using s Suc.prems by (simp add: sorted_wrt_iff_nth_less)
  then show ?case using Suc by simp
qed

lemma choice_bound:
  assumes "is_choice n r xs" "j < r"
  shows "xs ! j \<le> n - r + j"
proof -
  have len: "length xs = r" and s: "sorted_wrt (<) xs" using assms(1) by (auto simp: is_choice_def)
  obtain d where d: "r = j + Suc d" using assms(2) less_imp_Suc_add by force
  have "xs ! j + d \<le> xs ! (j + d)" using choice_gap [OF s] d len by simp
  moreover have "xs ! (j + d) < n" using assms(1) d len by (simp add: is_choice_def)
  ultimately show ?thesis using d by linarith
qed

lemma comb_next_choice:
  assumes cur: "is_choice n r current" and f: "comb_next n current = Some following"
  shows "is_choice n r following" "current < following"
    "\<And>x. is_choice n r x \<Longrightarrow> current < x \<Longrightarrow> following \<le> x"
proof -
  have len: "length current = r" and s: "sorted_wrt (<) current"
    and lt: "\<forall>x \<in> set current. x < n" using cur by (auto simp: is_choice_def)
  obtain i where i: "i < r" "current ! i < n - r + i"
    and last: "\<forall>j. i < j \<and> j < r \<longrightarrow> \<not> current ! j < n - r + j"
    and eq: "following = take i current @ [current ! i + 1..<current ! i + 1 + (r - i)]"
    by (rule comb_next_Some [OF f, unfolded len])
  have flen: "length following = r" using i(1) len by (simp add: eq del: upt_Suc)
  have pre: "take i following = take i current" using i(1) len by (simp add: eq del: upt_Suc)
  have at: "following ! (i + d) = current ! i + 1 + d" if "i + d < r" for d
    using that i(1) len by (simp add: eq nth_append del: upt_Suc)
  have below: "x < current ! i" if "x \<in> set (take i current)" for x
    using that s i(1) len by (auto simp: in_set_conv_nth sorted_wrt_iff_nth_less)
  have "n \<ge> r"
  proof (rule ccontr)
    assume "\<not> n \<ge> r"
    then have "current ! i < i" using i(2) by simp
    moreover have "i \<le> current ! i" using choice_gap [OF s, of 0 i] i(1) len by simp
    ultimately show False by simp
  qed
  then have top: "current ! i + 1 + (r - i) \<le> n" using i by linarith
  show "is_choice n r following"
    unfolding is_choice_def
  proof (intro conjI ballI)
    show "length following = r" by (rule flen)
    show "sorted_wrt (<) following"
      unfolding eq sorted_wrt_append
      using sorted_wrt_take [OF s, of i] below by (force simp del: upt_Suc)
    show "x < n" if "x \<in> set following" for x
      using that lt top by (auto simp: eq simp del: upt_Suc dest: in_set_takeD)
  qed
  show "current < following"
    using i(1) at [of 0] pre flen len by (auto simp: less_list_at)
  show "following \<le> x" if x: "is_choice n r x" and gt: "current < x" for x
  proof -
    have xlen: "length x = r" and xs: "sorted_wrt (<) x" using x by (auto simp: is_choice_def)
    obtain p where p: "p < r" "take p current = take p x" "current ! p < x ! p"
      using gt len xlen by (auto simp: less_list_at)
    have "p \<le> i"
    proof (rule ccontr)
      assume "\<not> p \<le> i"
      with last p(1) have "\<not> current ! p < n - r + p" by simp
      with p(3) choice_bound [OF x p(1)] show False by simp
    qed
    then consider "p < i \<or> p = i \<and> following ! i < x ! i" | "p = i" "following ! i = x ! i"
      using p at [of 0] i(1) by fastforce
    then show ?thesis
    proof cases
      case 1
      have "take p following = take p (take i following)" using \<open>p \<le> i\<close> by simp
      also have "\<dots> = take p current" using \<open>p \<le> i\<close> by (simp add: pre)
      finally have "take p following = take p x" using p(2) by simp
      moreover have "following ! p < x ! p"
      proof (cases "p < i")
        case True
        then have "following ! p = take i following ! p" by simp
        also have "\<dots> = current ! p" using True by (simp add: pre)
        finally show ?thesis using p(3) by simp
      qed (use 1 in simp)
      ultimately have "following < x" using p(1) flen xlen by (auto simp: less_list_at)
      then show ?thesis by simp
    next
      case 2
      have "following ! j \<le> x ! j" if j: "j < r" for j
      proof (cases "j < i")
        case True
        then have "following ! j = take i following ! j" by simp
        also have "\<dots> = take i x ! j" using pre p(2) 2(1) by simp
        also have "\<dots> = x ! j" using True by simp
        finally have "following ! j = x ! j" .
        then show ?thesis by simp
      next
        case False
        then obtain d where d: "j = i + d" using le_Suc_ex not_less by blast
        show ?thesis using at [of d] at [of 0] choice_gap [OF xs, of i d] d j xlen 2(2) i(1) by simp
      qed
      then show ?thesis using le_list_pointwise flen xlen by simp
    qed
  qed
qed

lemma comb_next_last:
  assumes cur: "is_choice n r current" and none: "comb_next n current = None"
    and x: "is_choice n r x"
  shows "x \<le> current"
proof (rule le_list_pointwise)
  show "length x = length current" using cur x by (simp add: is_choice_def)
  show "x ! j \<le> current ! j" if "j < length current" for j
  proof -
    have "find (\<lambda>i. current ! i < n - r + i) (rev [0..<r]) = None"
      using none cur by (auto simp: comb_next_def Let_def is_choice_def split: option.splits)
    then have "\<not> current ! j < n - r + j" using that cur by (auto simp: find_None_iff is_choice_def)
    then show ?thesis using choice_bound [OF x, of j] that cur by (simp add: is_choice_def)
  qed
qed

lemma combinations_from_choices:
  assumes "is_choice n r current"
  shows "set (combinations_from n current) = {x. is_choice n r x \<and> current \<le> x} \<and>
    sorted_wrt (<) (combinations_from n current)"
  using assms
proof (induction n current rule: combinations_from.induct)
  case (1 n current)
  show ?case
  proof (cases "comb_next n current")
    case None
    then have "x = current" if "is_choice n r x" "current \<le> x" for x
      using comb_next_last [OF "1.prems" None that(1)] that(2) by simp
    then show ?thesis using None "1.prems" by (auto simp: combinations_from.simps)
  next
    case (Some following)
    note c = comb_next_choice [OF "1.prems" Some]
    have IH: "set (combinations_from n following) = {x. is_choice n r x \<and> following \<le> x}"
      "sorted_wrt (<) (combinations_from n following)"
      using "1.IH" [OF Some c(1)] by auto
    have "{x. is_choice n r x \<and> current \<le> x} =
        insert current {x. is_choice n r x \<and> following \<le> x}"
      using "1.prems" c(2) c(3) by (auto simp: order.order_iff_strict intro: less_trans)
    moreover have "\<forall>x \<in> set (combinations_from n following). current < x"
      using IH(1) c(2) by auto
    ultimately show ?thesis using Some IH by (simp add: combinations_from.simps [of n current])
  qed
qed

lemma combinations_too_many:
  assumes "is_choice n r x"
  shows "r \<le> n"
proof (cases r)
  case (Suc q)
  have "x ! 0 + q \<le> x ! q" "x ! q < n"
    using assms Suc choice_gap [of x 0 q] by (auto simp: is_choice_def)
  then show ?thesis using Suc by simp
qed simp

lemma combinations_choices:
  "set (combinations n r) = {xs. is_choice n r xs}" "sorted_wrt (<) (combinations n r)"
proof -
  have first: "is_choice n r [0..<r]" if "r \<le> n" using that by (auto simp: is_choice_def)
  have least: "[0..<r] \<le> x" if "is_choice n r x" for x
    by (rule le_list_pointwise)
      (use that choice_gap [of x 0] in \<open>auto simp: is_choice_def intro: add_leD2\<close>)
  have "set (combinations n r) = {xs. is_choice n r xs} \<and> sorted_wrt (<) (combinations n r)"
  proof (cases "r \<le> n")
    case True
    then have "combinations n r = combinations_from n [0..<r]"
      by (simp add: combinations_def comb_first_def)
    then show ?thesis using combinations_from_choices [OF first [OF True]] least by auto
  next
    case False
    then show ?thesis using combinations_too_many [of n r] by (auto simp: combinations_def comb_first_def)
  qed
  then show "set (combinations n r) = {xs. is_choice n r xs}" "sorted_wrt (<) (combinations n r)"
    by blast+
qed


text \<open>
  C28. The choices a verified decode goes through: the iterator ends, and gives every way to
  take \<open>r\<close> of \<open>0..n\<close> exactly once, in lexicographic order (each list is strictly ascending,
  and so is the list of them).
\<close>

theorem combinations_every_choice_once:
  "set (combinations n r) = {xs. is_choice n r xs} \<and> sorted_wrt (<) (combinations n r)"
  using combinations_choices by blast

end
