(* ===== verification/Erasure_Code.thy ===== *)
theory Erasure_Code
  imports Erasure_Choices
begin

text \<open>
  What the codec promises over any code: the contract \<open>shard_code\<close> of a code that rebuilds
  data shards, and its consequences for encoding, decoding, verified decoding and repair. The
  contract is met by the MDS backend (here) and by the LRC backend (\<open>Erasure_Lrc\<close>).
\<close>

section \<open>Shards of a stripe\<close>

text \<open>The shards read are some of those written.\<close>

definition genuine :: "bytes list \<Rightarrow> bytes option list \<Rightarrow> bool" where
  "genuine stripe shards \<longleftrightarrow>
     length shards = length stripe \<and>
     (\<forall>i < length stripe. shards ! i = None \<or> shards ! i = Some (stripe ! i))"

definition held_slots :: "bytes option list \<Rightarrow> nat set" where
  "held_slots shards = {i. i < length shards \<and> shards ! i \<noteq> None}"

text \<open>Data shards as the codec cuts them: of one length, a multiple of 64.\<close>

definition data_ok :: "nat \<Rightarrow> nat \<Rightarrow> bytes list \<Rightarrow> bool" where
  "data_ok k L data \<longleftrightarrow> length data = k \<and> 0 < k \<and> 64 dvd L \<and> 0 < L \<and> (\<forall>s \<in> set data. length s = L)"

lemma present_card: "present shards = card (held_slots shards)"
  by (simp add: present_def held_slots_def length_filter_conv_card)

lemma genuine_Some: "genuine stripe shards \<Longrightarrow> i < length shards \<Longrightarrow> shards ! i = Some s \<Longrightarrow> s = stripe ! i"
  by (auto simp: genuine_def)

lemma genuine_flatten_take:
  assumes g: "genuine stripe shards" and k: "k \<le> length stripe"
    and all: "list_all (\<lambda>s. s \<noteq> None) (take k shards)"
  shows "flatten (take k shards) = take k stripe"
proof -
  have "filter (\<lambda>s. s \<noteq> None) (take k shards) = take k shards"
    using all by (simp add: list_all_iff)
  moreover have "map the (take k shards) = take k stripe"
  proof (rule nth_equalityI)
    show "length (map the (take k shards)) = length (take k stripe)"
      using g by (simp add: genuine_def)
    show "map the (take k shards) ! i = take k stripe ! i" if "i < length (map the (take k shards))" for i
    proof -
      have i: "i < k" "i < length shards" using that by auto
      then have "shards ! i \<noteq> None" using all by (auto simp: list_all_length)
      then show ?thesis using i genuine_Some [OF g i(2)] by auto
    qed
  qed
  ultimately show ?thesis by (simp add: flatten_def)
qed

lemma flatten_Cons_in: "flatten shards = s # r \<Longrightarrow> Some s \<in> set shards"
proof -
  assume "flatten shards = s # r"
  then have "s \<in> set (flatten shards)" by simp
  then show ?thesis by (auto simp: flatten_def)
qed

lemma flatten_Nil_iff: "flatten shards = [] \<longleftrightarrow> present shards = 0"
  by (simp add: flatten_def present_def)

section \<open>Splitting and joining\<close>

lemma shard_size_for_dvd: "64 dvd shard_size_for len k"
proof -
  have "64 dvd next_multiple_of a 64" for a
  proof (cases "a mod 64 = 0")
    case False
    have "a = 64 * (a div 64) + a mod 64" by simp
    then have "a + (64 - a mod 64) = 64 * (a div 64) + (a mod 64 + (64 - a mod 64))" by linarith
    also have "\<dots> = 64 * (a div 64 + 1)" by simp
    finally show ?thesis using False by (simp add: next_multiple_of_def)
  qed (simp add: next_multiple_of_def mod_0_imp_dvd)
  then show ?thesis by (simp add: shard_size_for_def max_def)
qed

lemma shard_size_for_ge: "64 \<le> shard_size_for len k" "div_ceil len k \<le> shard_size_for len k"
  by (auto simp: shard_size_for_def next_multiple_of_def)

lemma shard_size_for_covers: "0 < k \<Longrightarrow> len \<le> shard_size_for len k * k"
  using div_ceil_lower [of k len] mult_le_mono1 [OF shard_size_for_ge(2), of len k k] by linarith

lemma length_split_shards [simp]: "length (split_shards n L bs) = n"
  by (simp add: split_shards_def)

lemma nth_split_shards: "i < n \<Longrightarrow> split_shards n L bs ! i = take L (drop (i * L) bs)"
  by (simp add: split_shards_def)

lemma split_shards_lengths:
  assumes "n * L \<le> length bs" "s \<in> set (split_shards n L bs)"
  shows "length s = L"
proof -
  obtain i where i: "i < n" "s = take L (drop (i * L) bs)"
    using assms(2) by (auto simp: split_shards_def)
  have "Suc i * L \<le> n * L" using i(1) by (intro mult_le_mono1) simp
  then show ?thesis using i(2) assms(1) by simp
qed

lemma split_shards_Suc:
  "split_shards (Suc n) L bs = split_shards n L bs @ [take L (drop (n * L) bs)]"
  by (simp add: split_shards_def)

lemma concat_split_shards: "concat (split_shards n L bs) = take (n * L) bs"
proof (induction n)
  case 0
  then show ?case by (simp add: split_shards_def)
next
  case (Suc n)
  have "take (Suc n * L) bs = take (n * L) bs @ take L (drop (n * L) bs)"
    using take_add [of "n * L" L bs] by (simp add: add.commute)
  then show ?case by (simp add: split_shards_Suc Suc.IH)
qed

lemma split_shards_append:
  assumes "length xs = n * L"
  shows "split_shards (n + m) L (xs @ ys) = split_shards n L xs @ split_shards m L ys"
proof -
  have "[0..<n + m] = [0..<n] @ map (\<lambda>i. i + n) [0..<m]"
    using upt_add_eq_append [of 0 n m] map_add_upt [of n m] by (simp add: add.commute)
  moreover have "map (\<lambda>i. take L (drop (i * L) (xs @ ys))) [0..<n] = split_shards n L xs"
    unfolding split_shards_def
  proof (rule map_cong [OF refl])
    fix i assume "i \<in> set [0..<n]"
    then have "Suc i * L \<le> n * L" by (intro mult_le_mono1) simp
    then show "take L (drop (i * L) (xs @ ys)) = take L (drop (i * L) xs)" using assms by simp
  qed
  moreover have "drop ((i + n) * L) (xs @ ys) = drop (i * L) ys" for i
    using assms by (simp add: algebra_simps)
  ultimately show ?thesis
    by (simp add: split_shards_def comp_def del: drop_append take_append)
qed

lemma split_shards_concat:
  assumes "\<forall>s \<in> set ss. length s = L"
  shows "split_shards (length ss) L (concat ss @ r) = ss"
  using assms
proof (induction ss)
  case Nil
  then show ?case by (simp add: split_shards_def)
next
  case (Cons s ss)
  have "split_shards (1 + length ss) L (s @ (concat ss @ r)) =
      split_shards 1 L s @ split_shards (length ss) L (concat ss @ r)"
    by (rule split_shards_append) (use Cons.prems in simp)
  moreover have "split_shards 1 L s = [s]" using Cons.prems by (simp add: split_shards_def)
  ultimately show ?case using Cons by simp
qed

lemma length_padded: "length data \<le> n \<Longrightarrow> length (padded n data) = n"
  by (simp add: padded_def)

lemma padded_eq: "length data \<le> n \<Longrightarrow> padded n data = data @ replicate (n - length data) 0"
  by (simp add: padded_def overlay_def)

text \<open>The data shards of some bytes.\<close>

definition data_of :: "nat \<Rightarrow> bytes \<Rightarrow> bytes list" where
  "data_of k bs =
     (let L = shard_size_for (length bs) k in split_shards k L (padded (L * k) bs))"

lemma data_of_ok:
  assumes k: "0 < k"
  shows "data_ok k (shard_size_for (length bs) k) (data_of k bs)"
proof -
  let ?L = "shard_size_for (length bs) k"
  have "length (padded (?L * k) bs) = ?L * k"
    using shard_size_for_covers [OF k] by (simp only: length_padded)
  then have le: "k * ?L \<le> length (padded (?L * k) bs)" by (simp only: mult.commute order_refl)
  show ?thesis
    unfolding data_ok_def
  proof (intro conjI ballI)
    show "length (data_of k bs) = k" by (simp add: data_of_def Let_def)
    show "0 < k" by (rule k)
    show "64 dvd ?L" by (rule shard_size_for_dvd)
    show "0 < ?L" using shard_size_for_ge(1) [of "length bs" k] by linarith
    show "length s = ?L" if "s \<in> set (data_of k bs)" for s
      by (rule split_shards_lengths [OF le]) (use that in \<open>simp only: data_of_def Let_def\<close>)
  qed
qed

lemma join_data_of:
  assumes k: "0 < k"
  shows "join_data (data_of k bs) (length bs) = bs"
proof -
  define L where "L = shard_size_for (length bs) k"
  have le: "length bs \<le> L * k" unfolding L_def by (rule shard_size_for_covers [OF k])
  have "data_of k bs = split_shards k L (padded (L * k) bs)"
    by (simp only: data_of_def Let_def L_def)
  then show ?thesis
    using le by (simp add: join_data_def concat_split_shards padded_eq mult.commute [of k])
qed

section \<open>Encoding\<close>

lemma encode_inner_eq:
  assumes k: "0 < data_shards codec"
  shows "encode_inner c codec bs =
    (case encode_shards c codec (data_of (data_shards codec) bs) of
       Inl _ \<Rightarrow> Inl EncodingFailed | Inr s \<Rightarrow> Inr s)"
proof -
  define k where "k = data_shards codec"
  define L where "L = shard_size_for (length bs) k"
  define data where "data = data_of k bs"
  have d: "data = split_shards k L (padded (L * k) bs)"
    by (simp only: data_def data_of_def Let_def L_def)
  have ok: "data_ok k L data" unfolding data_def L_def by (rule data_of_ok) (use k in \<open>simp add: k_def\<close>)
  then obtain s ss where s: "data = s # ss" "length s = L" by (cases data) (auto simp: data_ok_def)
  have enc: "encode_shards c codec data =
      (case codec_backend codec of
         Mds_backend k m \<Rightarrow> isal_backend_encode c k m data L
       | Lrc_backend cfg \<Rightarrow> and_then (encode_lrc c cfg data L) (\<lambda>e. Inr (all_shards e)))"
    by (simp only: encode_shards_def Let_def s list.case)
  have "encode_inner c codec bs =
      (case codec_backend codec of
         Mds_backend k m \<Rightarrow>
           (case isal_backend_encode c k m data L of Inl _ \<Rightarrow> Inl EncodingFailed | Inr s \<Rightarrow> Inr s)
       | Lrc_backend cfg \<Rightarrow>
           (case encode_lrc c cfg data L of
              Inl _ \<Rightarrow> Inl EncodingFailed | Inr e \<Rightarrow> Inr (all_shards e)))"
    by (simp only: encode_inner_def Let_def k_def [symmetric] L_def [symmetric] d [symmetric])
  then show ?thesis
    unfolding k_def [symmetric] data_def [symmetric] enc
    by (simp add: and_then_def split: codec_backend.split sum.split)
qed

text \<open>
  The buffers ISA-L fills are \<open>m\<close> of the size of the data shards, and stay so: a slice keeps its
  length.
\<close>

definition isal_shape :: "coders \<Rightarrow> bool" where
  "isal_shape c \<longleftrightarrow>
     (\<forall>k m data L parity.
        length data = k \<and> (\<forall>s \<in> set data. length s = L) \<and> isal_encode c k m data = Some parity
        \<longrightarrow> length parity = m \<and> (\<forall>p \<in> set parity. length p = L))"

lemma encode_into_eq:
  assumes shape: "isal_shape c" and mds: "codec_backend codec = Mds_backend k m" and k: "0 < k"
    and buf: "stripe_len codec (length bs) \<le> length buf"
  shows "encode_into c codec bs buf =
    and_then (encode_inner c codec bs) (\<lambda>shards.
      Inr (shard_size_for (length bs) k, concat shards @ drop (stripe_len codec (length bs)) buf))"
proof -
  define L where "L = shard_size_for (length bs) k"
  define data where "data = data_of k bs"
  have ks: "data_shards codec = k" "total_shards codec = k + m"
    using mds by (simp_all add: data_shards_def parity_shards_def total_shards_def)
  define len where "len = L * (k + m)"
  have sl: "stripe_len codec (length bs) = len" by (simp add: stripe_len_def ks L_def len_def)
  have le: "length bs \<le> L * k" unfolding L_def by (rule shard_size_for_covers [OF k])
  have ok: "data_ok k L data" unfolding data_def L_def by (rule data_of_ok [OF k])
  have d: "data = split_shards k L (padded (L * k) bs)"
    by (simp only: data_def data_of_def Let_def L_def)
  have cd: "concat data = padded (L * k) bs"
    using le by (simp add: d concat_split_shards length_padded mult.commute)
  have lenbuf: "len \<le> length buf" using buf by (simp add: sl)
  let ?head = "overlay (length bs) (replicate (L * k - length bs) 0) (overlay 0 bs (take len buf))"
  have kl: "L * k \<le> len" by (simp add: len_def algebra_simps)
  have head: "?head = padded (L * k) bs @ drop (L * k) (take len buf)"
    using le kl lenbuf by (simp add: overlay_def padded_eq)
  have dpart: "take (L * k) ?head = padded (L * k) bs" "drop (L * k) ?head = drop (L * k) (take len buf)"
    unfolding head using le by (simp_all add: length_padded)
  have L: "0 < L" using ok by (simp add: data_ok_def)
  have plen: "length (drop (L * k) (take len buf)) = m * L"
    using lenbuf kl by (simp add: len_def algebra_simps)
  then have pn: "length (drop (L * k) (take len buf)) div L = m" using L by simp
  have parity_lens: "\<forall>p \<in> set (split_shards m L (drop (L * k) (take len buf))). length p = L"
    by (intro ballI)
      (rule split_shards_lengths [of m L "drop (L * k) (take len buf)"], simp only: plen order_refl)
  have into: "isal_encode_parity_into c k m data (split_shards m L (drop (L * k) (take len buf))) L =
      (case isal_encode c k m data of None \<Rightarrow> Inl EncodingFailed | Some p \<Rightarrow> Inr p)"
  proof -
    have "\<not> list_ex (\<lambda>p. length p \<noteq> L) (split_shards m L (drop (L * k) (take len buf)))"
      "\<not> list_ex (\<lambda>s. length s \<noteq> L) data" "length data = k"
      using parity_lens ok by (simp_all only: list_ex_iff data_ok_def) blast+
    then show ?thesis
      by (simp only: isal_encode_parity_into_def check_parity_buffers_def length_split_shards
          and_then_Inr if_False simp_thms)
  qed
  have inner: "encode_inner c codec bs =
      (case isal_encode c k m data of None \<Rightarrow> Inl EncodingFailed | Some p \<Rightarrow> Inr (data @ p))"
    using ok mds
    by (simp only: encode_inner_def Let_def ks L_def [symmetric] d [symmetric])
       (simp add: isal_backend_encode_def list_ex_iff data_ok_def split: option.split)
  have "encode_into c codec bs buf =
      (case isal_encode c k m data of
         None \<Rightarrow> Inl EncodingFailed
       | Some p \<Rightarrow> Inr (L, padded (L * k) bs @ concat p @ drop len buf))"
    unfolding encode_into_def mds
    using lenbuf into
    by (simp only: Let_def codec_backend.case ks L_def [symmetric] len_def [symmetric] dpart pn
        d [symmetric] not_less [symmetric] if_False)
       (simp split: option.split)
  then show ?thesis using inner by (simp add: sl L_def [symmetric] cd split: option.split)
qed

lemma codec_new_cases:
  assumes "codec_new c config = Inr codec"
  obtains (mds) k m where "codec_backend codec = Mds_backend k m" "0 < k" "0 < m" "k + m \<le> 255"
      "ec_type config = Mds" "ec_data_shards config = k" "ec_parity_shards config = m"
    | (lrc) k l g where "codec_backend codec = Lrc_backend (lrc_config_new k l g)"
      "check_lrc k l g = Inr ()" "ec_type config = Lrc l g" "ec_data_shards config = k"
proof (cases "ec_type config")
  case Mds
  then show thesis
    using assms mds
    by (auto simp: codec_new_def and_then_eq_Inr_iff create_mds_def isal_new_def split: if_splits)
next
  case (Lrc l g)
  then show thesis
    using assms lrc
    by (auto simp: codec_new_def and_then_eq_Inr_iff create_lrc_def lrc_new_def
        split: if_splits sum.splits)
qed

lemma check_lrc_Inr:
  "check_lrc k l g = Inr () \<longleftrightarrow> 0 < k \<and> 0 < l \<and> 0 < g \<and> l dvd k \<and> k + l + g \<le> 255"
  by (auto simp: check_lrc_def is_multiple_of_def MAX_SHARDS_def)

section \<open>The attempts of a verified decode\<close>

lemma try_choices_full: "try_choices tr xs MAX_DECODE_ATTEMPTS m = Inr (MAX_DECODE_ATTEMPTS, m)"
  by (cases xs) simp_all

lemma try_choices_append:
  "try_choices tr (xs @ ys) t m =
     (case try_choices tr xs t m of Inl d \<Rightarrow> Inl d | Inr (t', m') \<Rightarrow> try_choices tr ys t' m')"
  by (induction tr xs t m rule: try_choices.induct)
     (auto simp: try_choices_full split: option.split rebuilt_check.split)

lemma try_used_eq:
  "try_used tr parity us t m =
     try_choices tr
       (concat (map (\<lambda>u. map (map (\<lambda>c. parity ! c)) (combinations (length parity) u)) us)) t m"
  by (induction us arbitrary: t m) (simp_all add: try_choices_append split: sum.split prod.split)

lemma try_choices_Inl:
  "try_choices tr xs t m = Inl d \<Longrightarrow> \<exists>x \<in> set xs. tr x = Some (Verified, d)"
proof (induction xs arbitrary: t m)
  case (Cons x xs)
  show ?case
  proof (cases "tr x = Some (Verified, d)")
    case False
    then have "\<exists>t m. try_choices tr xs t m = Inl d"
      using Cons.prems by (auto split: if_splits option.splits rebuilt_check.splits)
    then show ?thesis using Cons.IH by auto
  qed simp
qed simp

lemma try_choices_found:
  assumes "j < length xs" "t + j < MAX_DECODE_ATTEMPTS" "tr (xs ! j) = Some (Verified, d)"
  shows "\<exists>d. try_choices tr xs t m = Inl d"
  using assms
proof (induction xs arbitrary: j t m)
  case (Cons x xs)
  show ?case
  proof (cases j)
    case 0
    then show ?thesis using Cons.prems by simp
  next
    case (Suc i)
    have "\<exists>d. try_choices tr xs (t + 1) m' = Inl d" for m'
      using Cons.IH [of i "t + 1" m'] Cons.prems Suc by simp
    then show ?thesis
      using Cons.prems(2) by (auto split: option.split rebuilt_check.split)
  qed
qed simp

lemma try_choices_none:
  assumes "t \<le> MAX_DECODE_ATTEMPTS"
    "\<forall>x \<in> set (take (MAX_DECODE_ATTEMPTS - t) xs). tr x = None \<or> (\<exists>d. tr x = Some (Unchecked, d))"
  shows "\<exists>t'. try_choices tr xs t m = Inr (t', m)"
  using assms
proof (induction xs arbitrary: t)
  case (Cons x xs)
  show ?case
  proof (cases "t = MAX_DECODE_ATTEMPTS")
    case False
    then obtain r where r: "MAX_DECODE_ATTEMPTS - t = Suc r"
      using Cons.prems(1) by (metis Suc_diff_Suc le_neq_implies_less)
    then have "MAX_DECODE_ATTEMPTS - (t + 1) = r" by simp
    moreover have "tr x = None \<or> (\<exists>d. tr x = Some (Unchecked, d))"
      "\<forall>y \<in> set (take r xs). tr y = None \<or> (\<exists>d. tr y = Some (Unchecked, d))"
      using Cons.prems(2) r by auto
    moreover have "t + 1 \<le> MAX_DECODE_ATTEMPTS" using Cons.prems(1) False by simp
    ultimately show ?thesis using Cons.IH [of "t + 1"] False by auto
  qed simp
qed simp

text \<open>The choices of a decode, in the order they are tried.\<close>

definition choices_of :: "nat list \<Rightarrow> nat \<Rightarrow> nat list list" where
  "choices_of parity r =
     concat (map (\<lambda>u. map (map (\<lambda>c. parity ! c)) (combinations (length parity) u))
       [r..<length parity + 1])"

lemma decode_verified_eq:
  assumes "length shards = total_shards codec" "\<not> data_present codec shards"
    "data_shards codec \<le> present shards"
  shows "decode_verified c codec shards len recorded =
    (let k = data_shards codec;
         rebuilt = filter (\<lambda>i. shards ! i = None) [0..<k];
         parity = filter (\<lambda>i. shards ! i \<noteq> None) [k..<total_shards codec]
     in case try_choices (attempt c codec shards recorded rebuilt)
               (choices_of parity (length rebuilt)) 0 0 of
          Inl data \<Rightarrow> Inr (join_data data len)
        | Inr (tried, mismatched) \<Rightarrow> Inl (Unverified (mismatched > 0)))"
  using assms by (simp add: decode_verified_def Let_def try_used_eq choices_of_def)

lemma choices_of_set:
  assumes "x \<in> set (choices_of parity r)"
  shows "set x \<subseteq> set parity" "r \<le> length x" "distinct parity \<Longrightarrow> distinct x"
proof -
  obtain u cs where u: "r \<le> u" "cs \<in> set (combinations (length parity) u)"
    and x: "x = map (\<lambda>c. parity ! c) cs"
    using assms by (auto simp: choices_of_def)
  have "is_choice (length parity) u cs" using u(2) combinations_choices by blast
  then have cs: "length cs = u" "sorted_wrt (<) cs" "\<forall>c \<in> set cs. c < length parity"
    by (auto simp: is_choice_def)
  show "set x \<subseteq> set parity" using cs(3) x by auto
  show "r \<le> length x" using u(1) cs(1) x by simp
  show "distinct x" if "distinct parity"
    unfolding x distinct_map
  proof
    show "distinct cs" using cs(2) strict_sorted_iff by auto
    show "inj_on (\<lambda>c. parity ! c) (set cs)"
      using that cs(3) by (auto simp: inj_on_def nth_eq_iff_index_eq)
  qed
qed

lemma choices_of_first:
  assumes "r \<le> length parity"
  shows "\<exists>rest. choices_of parity r = take r parity # rest"
proof -
  have "\<exists>rest. combinations (length parity) r = [0..<r] # rest"
    using assms by (simp add: combinations_def comb_first_def combinations_from.simps [of _ "[0..<r]"])
  then obtain rest where "combinations (length parity) r = [0..<r] # rest" ..
  moreover have "[r..<length parity + 1] = r # [Suc r..<length parity + 1]"
    using assms by (simp add: upt_rec)
  moreover have "map (\<lambda>c. parity ! c) [0..<r] = take r parity"
    by (rule nth_equalityI) (use assms in auto)
  ultimately show ?thesis by (simp add: choices_of_def del: upt_Suc)
qed

section \<open>The contract of a code\<close>

lemma length_subset_of [simp]: "length (subset_of k shards chosen) = length shards"
  by (simp add: subset_of_def)

lemma nth_subset_of [simp]:
  "i < length shards \<Longrightarrow>
     subset_of k shards chosen ! i = (if i < k \<or> i \<in> set chosen then shards ! i else None)"
  by (simp add: subset_of_def)

lemma genuine_subset:
  assumes "genuine stripe shards"
  shows "genuine stripe (subset_of k shards chosen)"
  using assms by (simp add: genuine_def)

lemma held_subset:
  "held_slots (subset_of k shards chosen) = {i \<in> held_slots shards. i < k \<or> i \<in> set chosen}"
  by (auto simp: held_slots_def split: if_splits)

text \<open>The stripe records the checksums its shards were written with, or none.\<close>

definition recorded_ok :: "coders \<Rightarrow> bytes list \<Rightarrow> nat option list \<Rightarrow> bool" where
  "recorded_ok c stripe recorded \<longleftrightarrow>
     (\<forall>i < length stripe. slot recorded i = None \<or> slot recorded i = Some (crc32c c (stripe ! i)))"

lemma check_recorded_ok:
  assumes "\<forall>i \<in> set is. slot recorded i = None \<or> slot recorded i = Some (crc32c c (data ! i))"
  shows "check_recorded c data recorded is u = Some (u \<or> (\<exists>i \<in> set is. slot recorded i = None))"
  using assms by (induction "is" arbitrary: u) auto

locale shard_code =
  fixes ok :: "coders \<Rightarrow> erasure_codec \<Rightarrow> bool"
    and enough :: "erasure_codec \<Rightarrow> nat set \<Rightarrow> bool"
  assumes ok_pos: "ok c codec \<Longrightarrow> 0 < data_shards codec"
    and encodes: "ok c codec \<Longrightarrow> data_ok (data_shards codec) L data \<Longrightarrow>
      \<exists>parity. encode_shards c codec data = Inr (data @ parity) \<and>
        length parity = parity_shards codec \<and> (\<forall>p \<in> set parity. length p = L)"
    and sound: "ok c codec \<Longrightarrow> data_ok (data_shards codec) L data \<Longrightarrow>
      encode_shards c codec data = Inr stripe \<Longrightarrow> genuine stripe shards \<Longrightarrow>
      rebuild_data c codec shards = Inr d \<Longrightarrow> d = data"
    and complete: "ok c codec \<Longrightarrow> data_ok (data_shards codec) L data \<Longrightarrow>
      encode_shards c codec data = Inr stripe \<Longrightarrow> genuine stripe shards \<Longrightarrow>
      enough codec (held_slots shards) \<Longrightarrow> rebuild_data c codec shards = Inr data"
begin

lemma encode_total:
  assumes "ok c codec"
  shows "\<exists>stripe. encode_inner c codec bs = Inr stripe \<and> length stripe = total_shards codec"
proof -
  note k = ok_pos [OF assms]
  obtain parity where p: "encode_shards c codec (data_of (data_shards codec) bs) =
        Inr (data_of (data_shards codec) bs @ parity)" "length parity = parity_shards codec"
    using encodes [OF assms data_of_ok [OF k]] by blast
  moreover have "length (data_of (data_shards codec) bs) = data_shards codec"
    using data_of_ok [OF k] by (simp add: data_ok_def)
  ultimately show ?thesis using encode_inner_eq [OF k, of c bs] by (simp add: total_shards_def)
qed

lemma encoded:
  assumes "ok c codec" and e: "encode_inner c codec bs = Inr stripe"
  defines "data \<equiv> data_of (data_shards codec) bs"
  shows "encode_shards c codec data = Inr stripe" "length stripe = total_shards codec"
    "take (data_shards codec) stripe = data"
    "data_ok (data_shards codec) (shard_size_for (length bs) (data_shards codec)) data"
    "\<forall>s \<in> set stripe. length s = shard_size_for (length bs) (data_shards codec)"
proof -
  note k = ok_pos [OF assms(1)]
  show dok: "data_ok (data_shards codec) (shard_size_for (length bs) (data_shards codec)) data"
    unfolding data_def by (rule data_of_ok [OF k])
  have len: "length data = data_shards codec" using dok by (simp add: data_ok_def)
  obtain parity where p: "encode_shards c codec data = Inr (data @ parity)"
    "length parity = parity_shards codec"
    "\<forall>p \<in> set parity. length p = shard_size_for (length bs) (data_shards codec)"
    using encodes [OF assms(1) dok] by blast
  have st: "stripe = data @ parity"
    using e p(1) encode_inner_eq [OF k, of c bs] by (simp add: data_def)
  show "encode_shards c codec data = Inr stripe" using p(1) st by simp
  show "length stripe = total_shards codec" using st p(2) len by (simp add: total_shards_def)
  show "take (data_shards codec) stripe = data" using st len by simp
  show "\<forall>s \<in> set stripe. length s = shard_size_for (length bs) (data_shards codec)"
    unfolding st using p(3) dok by (auto simp only: data_ok_def set_append)
qed

lemma present_data:
  assumes "ok c codec" "encode_inner c codec bs = Inr stripe" "genuine stripe shards"
    "data_present codec shards"
  shows "join_data (flatten (take (data_shards codec) shards)) (length bs) = bs"
proof -
  note e = encoded [OF assms(1,2)]
  have "data_shards codec \<le> length stripe" using e(2) by (simp add: total_shards_def)
  then have "flatten (take (data_shards codec) shards) = data_of (data_shards codec) bs"
    using genuine_flatten_take [OF assms(3)] assms(4) e(3) by (simp add: data_present_def)
  then show ?thesis using join_data_of [OF ok_pos [OF assms(1)]] by simp
qed

lemma decode_enough:
  assumes "ok c codec" "encode_inner c codec bs = Inr stripe" "genuine stripe shards"
    "enough codec (held_slots shards)"
  shows "decode c codec shards (length bs) = Inr bs"
proof (cases "data_present codec shards")
  case True
  then show ?thesis using present_data [OF assms(1-3)] by (simp add: decode_def)
next
  case False
  note e = encoded [OF assms(1,2)]
  show ?thesis
    using False complete [OF assms(1) e(4) e(1) assms(3,4)] join_data_of [OF ok_pos [OF assms(1)]]
    by (simp add: decode_def)
qed

lemma decode_verified_sound:
  assumes "ok c codec" "encode_inner c codec bs = Inr stripe" "genuine stripe shards"
    and r: "decode_verified c codec shards (length bs) recorded = Inr x"
  shows "x = bs"
proof (cases "data_present codec shards")
  case True
  then show ?thesis
    using present_data [OF assms(1-3)] r by (auto simp: decode_verified_def Let_def split: if_splits)
next
  case False
  note e = encoded [OF assms(1,2)]
  have len: "length shards = total_shards codec" using assms(3) e(2) by (simp add: genuine_def)
  have av: "data_shards codec \<le> present shards"
    using r False len by (auto simp: decode_verified_def Let_def not_less split: if_splits)
  obtain d chosen where d: "x = join_data d (length bs)"
    and a: "attempt c codec shards recorded
        (filter (\<lambda>i. shards ! i = None) [0..<data_shards codec]) chosen = Some (Verified, d)"
    using r try_choices_Inl
    by (fastforce simp: decode_verified_eq [OF len False av] Let_def split: sum.splits prod.splits)
  have "rebuild_data c codec (subset_of (data_shards codec) shards chosen) = Inr d"
    using a by (auto simp: attempt_def split: sum.splits)
  then have "d = data_of (data_shards codec) bs"
    by (rule sound [OF assms(1) e(4) e(1) genuine_subset [OF assms(3)]])
  then show ?thesis using d join_data_of [OF ok_pos [OF assms(1)]] by simp
qed

lemma attempt_checks:
  assumes "ok c codec" "encode_inner c codec bs = Inr stripe" "genuine stripe shards"
    and rec: "recorded_ok c stripe recorded"
    and en: "enough codec (held_slots (subset_of (data_shards codec) shards chosen))"
    and rb: "\<forall>i \<in> set rebuilt. i < data_shards codec"
  defines "spare \<equiv> {p \<in> held_slots shards. data_shards codec \<le> p \<and> p \<notin> set chosen}"
  shows "attempt c codec shards recorded rebuilt chosen =
    Some (if (\<forall>i \<in> set rebuilt. slot recorded i \<noteq> None) \<or> spare \<noteq> {} then Verified else Unchecked,
          data_of (data_shards codec) bs)"
proof -
  let ?k = "data_shards codec" and ?data = "data_of (data_shards codec) bs"
  note e = encoded [OF assms(1,2)]
  have n: "?k \<le> length stripe" "length shards = length stripe"
    using e(2) assms(3) by (simp_all add: total_shards_def genuine_def)
  have reb: "rebuild_data c codec (subset_of ?k shards chosen) = Inr ?data"
    by (rule complete [OF assms(1) e(4) e(1) genuine_subset [OF assms(3)] en])
  have nth: "?data ! i = stripe ! i" if "i < ?k" for i using e(3) that by (metis nth_take)
  have cr: "check_recorded c ?data recorded rebuilt False =
      Some (\<exists>i \<in> set rebuilt. slot recorded i = None)"
  proof -
    have "slot recorded i = None \<or> slot recorded i = Some (crc32c c (?data ! i))"
      if "i \<in> set rebuilt" for i
    proof -
      have i: "i < ?k" using rb that by blast
      then have "i < length stripe" using n(1) by linarith
      then show ?thesis using rec nth [OF i] by (simp add: recorded_ok_def)
    qed
    then show ?thesis using check_recorded_ok [of rebuilt recorded c ?data False] by simp
  qed
  let ?unused = "filter (\<lambda>i. shards ! i \<noteq> None \<and> i \<notin> set chosen) [?k..<total_shards codec]"
  have un: "set ?unused = spare"
    using e(2) n(2) by (auto simp: spare_def held_slots_def)
  have bear: "list_ex (\<lambda>p. shards ! p = Some (stripe ! p)) ?unused \<longleftrightarrow> spare \<noteq> {}"
  proof -
    have "shards ! p = Some (stripe ! p)" if "p \<in> spare" for p
      using that genuine_Some [OF assms(3), of p] by (auto simp: spare_def held_slots_def)
    then show ?thesis unfolding list_ex_iff un by auto
  qed
  have nil: "?unused = [] \<longleftrightarrow> spare = {}" using un by (metis empty_set set_empty)
  have "check_rebuilt c codec shards ?data rebuilt chosen recorded =
      (if (\<forall>i \<in> set rebuilt. slot recorded i \<noteq> None) \<or> spare \<noteq> {} then Verified else Unchecked)"
  proof (cases "\<exists>i \<in> set rebuilt. slot recorded i = None")
    case True
    then have "check_rebuilt c codec shards ?data rebuilt chosen recorded =
        (if spare = {} then Unchecked else if spare \<noteq> {} then Verified else Mismatch)"
      by (simp only: check_rebuilt_def cr option.case bool.case Let_def nil e(1) sum.case bear)
    then show ?thesis using True by auto
  next
    case False
    with cr have "check_recorded c ?data recorded rebuilt False = Some False" by simp
    then have "check_rebuilt c codec shards ?data rebuilt chosen recorded = Verified"
      by (simp only: check_rebuilt_def option.case bool.case)
    then show ?thesis using False by auto
  qed
  then show ?thesis by (simp only: attempt_def reb sum.case)
qed

lemma decode_verified_found:
  assumes "ok c codec" "encode_inner c codec bs = Inr stripe" "genuine stripe shards"
    and rec: "recorded_ok c stripe recorded"
  defines "rebuilt \<equiv> filter (\<lambda>i. shards ! i = None) [0..<data_shards codec]"
    and "parity \<equiv> filter (\<lambda>i. shards ! i \<noteq> None) [data_shards codec..<total_shards codec]"
  assumes av: "data_shards codec \<le> present shards"
    and j: "j < length (choices_of parity (length rebuilt))" "j < MAX_DECODE_ATTEMPTS"
      "choices_of parity (length rebuilt) ! j = chosen"
    and en: "enough codec (held_slots (subset_of (data_shards codec) shards chosen))"
    and chk: "(\<forall>i \<in> set rebuilt. slot recorded i \<noteq> None) \<or>
      (\<exists>p \<in> held_slots shards. data_shards codec \<le> p \<and> p \<notin> set chosen)"
  shows "decode_verified c codec shards (length bs) recorded = Inr bs"
proof (cases "data_present codec shards")
  case True
  have "length shards = total_shards codec"
    using assms(3) encoded(2) [OF assms(1,2)] by (simp add: genuine_def)
  then show ?thesis
    using True present_data [OF assms(1-3)] by (simp add: decode_verified_def Let_def)
next
  case False
  have len: "length shards = total_shards codec"
    using assms(3) encoded(2) [OF assms(1,2)] by (simp add: genuine_def)
  have "\<forall>i \<in> set rebuilt. i < data_shards codec" by (auto simp: rebuilt_def)
  then have "attempt c codec shards recorded rebuilt chosen =
      Some (Verified, data_of (data_shards codec) bs)"
    using attempt_checks [OF assms(1-3) rec en] chk by auto
  then obtain d where d: "try_choices (attempt c codec shards recorded rebuilt)
      (choices_of parity (length rebuilt)) 0 0 = Inl d"
    using try_choices_found [of j "choices_of parity (length rebuilt)" 0
        "attempt c codec shards recorded rebuilt" _ 0] j by auto
  then have "\<exists>x. decode_verified c codec shards (length bs) recorded = Inr x"
    by (simp add: decode_verified_eq [OF len False av] Let_def rebuilt_def parity_def)
  then show ?thesis using decode_verified_sound [OF assms(1-3)] by auto
qed

end

end
