(* ===== verification/Erasure_Mds.thy ===== *)
theory Erasure_Mds
  imports Erasure_Code
begin

text \<open>
  MDS stripes: over an ISA-L that codes as documented, the backend meets the contract of a code
  with any \<open>k\<close> shards being enough, which fixes the result of every verified decode and of every
  repair.
\<close>

text \<open>
  ISA-L's Reed-Solomon code for a profile its matrix is MDS for: encoding shards of at least 32
  bytes gives \<open>m\<close> parity shards, and decoding with at most \<open>m\<close> erasures puts the erased shards
  back, whatever their buffers held.
\<close>

definition isal_repairs :: "coders \<Rightarrow> nat \<Rightarrow> nat \<Rightarrow> nat \<Rightarrow> bytes list \<Rightarrow> bytes list \<Rightarrow> bool" where
  "isal_repairs c k m L data parity \<longleftrightarrow>
     (\<forall>data' parity' erasures.
        length data' = k \<and> length parity' = m \<and>
        (\<forall>s \<in> set data' \<union> set parity'. length s = L) \<and>
        sorted_wrt (<) erasures \<and> length erasures \<le> m \<and>
        (\<forall>i < k + m. i \<notin> set erasures \<longrightarrow> (data' @ parity') ! i = (data @ parity) ! i)
        \<longrightarrow> isal_decode c k m data' parity' erasures = Some (data, parity))"

definition isal_ok :: "coders \<Rightarrow> nat \<Rightarrow> nat \<Rightarrow> bool" where
  "isal_ok c k m \<longleftrightarrow>
     isal_with_reed_solomon c k m \<and>
     (\<forall>L data. length data = k \<and> 32 \<le> L \<and> (\<forall>s \<in> set data. length s = L) \<longrightarrow>
        (\<exists>parity. isal_encode c k m data = Some parity \<and> length parity = m \<and>
           (\<forall>p \<in> set parity. length p = L) \<and> isal_repairs c k m L data parity))"

definition mds_ok :: "coders \<Rightarrow> erasure_codec \<Rightarrow> bool" where
  "mds_ok c codec \<longleftrightarrow>
     (\<exists>k m. codec_backend codec = Mds_backend k m \<and> 0 < k \<and> isal_ok c k m)"

definition any_k :: "erasure_codec \<Rightarrow> nat set \<Rightarrow> bool" where
  "any_k codec held \<longleftrightarrow> data_shards codec \<le> card held"

lemma mds_sizes:
  assumes "codec_backend codec = Mds_backend k m"
  shows "data_shards codec = k" "parity_shards codec = m" "total_shards codec = k + m"
  using assms by (simp_all add: data_shards_def parity_shards_def total_shards_def)

lemma isal_ok_encode:
  assumes "isal_ok c k m" "data_ok k L data"
  obtains parity where "isal_encode c k m data = Some parity" "length parity = m"
    "\<forall>p \<in> set parity. length p = L" "isal_repairs c k m L data parity"
proof -
  have "64 dvd L" "0 < L" using assms(2) by (simp_all add: data_ok_def)
  then have "64 \<le> L" by (rule dvd_imp_le)
  then have "length data = k \<and> 32 \<le> L \<and> (\<forall>s \<in> set data. length s = L)"
    using assms(2) by (simp add: data_ok_def)
  then show thesis using assms(1) that unfolding isal_ok_def by blast
qed

lemma isal_backend_encode_ok:
  assumes "data_ok k L data" "isal_encode c k m data = Some parity"
  shows "isal_backend_encode c k m data L = Inr (data @ parity)"
proof -
  have "\<not> list_ex (\<lambda>s. length s \<noteq> L) data" "length data = k"
    using assms(1) by (auto simp only: data_ok_def list_ex_iff)
  then show ?thesis using assms(2) by (simp add: isal_backend_encode_def)
qed

lemma genuine_first:
  assumes "genuine stripe shards" "\<forall>s \<in> set stripe. length s = L" "flatten shards = first # r"
  shows "length first = L"
proof -
  obtain i where i: "i < length shards" "shards ! i = Some first"
    using flatten_Cons_in [OF assms(3)] by (metis in_set_conv_nth)
  then have "first = stripe ! i" by (rule genuine_Some [OF assms(1)])
  moreover have "i < length stripe" using i(1) assms(1) by (simp add: genuine_def)
  ultimately show ?thesis using assms(2) by simp
qed

lemma or_zeros_genuine:
  assumes "genuine stripe shards" "\<forall>s \<in> set stripe. length s = L" "s \<in> set shards"
  shows "length (or_zeros L s) = L"
proof (cases s)
  case (Some b)
  obtain i where i: "i < length shards" "shards ! i = Some b"
    using assms(3) Some by (metis in_set_conv_nth)
  then have "b = stripe ! i" by (rule genuine_Some [OF assms(1)])
  moreover have "i < length stripe" using i(1) assms(1) by (simp add: genuine_def)
  ultimately show ?thesis using assms(2) Some by (simp add: or_zeros_def)
qed (simp add: or_zeros_def)

lemma length_filter_nth: "length (filter (\<lambda>i. P (xs ! i)) [0..<length xs]) = length (filter P xs)"
proof -
  have "filter P xs = filter P (map (\<lambda>i. xs ! i) [0..<length xs])" by (simp only: map_nth)
  then show ?thesis by (simp add: filter_map comp_def)
qed

lemma present_missing: "present shards + length (missing_slots shards) = length shards"
  using sum_length_filter_compl [of "\<lambda>s. s \<noteq> None" shards]
    length_filter_nth [of "\<lambda>s. s = None" shards]
  by (simp add: present_def missing_slots_def)

lemma isal_backend_decode_ok:
  assumes ok: "isal_ok c k m" and d: "data_ok k L data" and e: "isal_encode c k m data = Some parity"
    and g: "genuine (data @ parity) shards" and av: "k \<le> present shards"
    and miss: "\<forall>i \<in> set missing. i < k + m \<longrightarrow> shards ! i = None"
  shows "isal_backend_decode c k m shards L missing = Inr (data @ parity)"
proof -
  obtain q where q: "isal_encode c k m data = Some q" "length q = m" "\<forall>p \<in> set q. length p = L"
    "isal_repairs c k m L data q" by (rule isal_ok_encode [OF ok d])
  then have p: "length parity = m" "\<forall>p \<in> set parity. length p = L" "isal_repairs c k m L data parity"
    using e by simp_all
  have k: "length data = k" and lens: "\<forall>s \<in> set (data @ parity). length s = L"
    using d p(2) by (auto simp only: data_ok_def set_append)
  have n: "length shards = k + m" using g k p(1) by (simp add: genuine_def)
  show ?thesis
  proof (cases "list_all (\<lambda>s. s \<noteq> None) (take k shards)")
    case True
    have "filter (\<lambda>s. s \<noteq> None) (take k shards) = take k shards" using True by (simp add: list_all_iff)
    then have "map the (take k shards) = data"
      using genuine_flatten_take [OF g _ True] k by (simp add: flatten_def)
    then show ?thesis
      using True n av isal_backend_encode_ok [OF d e] k p(1)
      by (simp add: isal_backend_decode_def Let_def)
  next
    case False
    let ?er = "filter (\<lambda>i. shards ! i = None \<or> i \<in> set missing) [0..<length shards]"
    have er: "?er = missing_slots shards"
      unfolding missing_slots_def by (rule filter_cong [OF refl]) (use miss n in auto)
    let ?d = "map (or_zeros L) (take k shards)" and ?p = "map (or_zeros L) (take m (drop k shards))"
    have zs: "length s = L" if "s \<in> set ?d \<union> set ?p" for s
      using that or_zeros_genuine [OF g lens] by (auto dest: in_set_takeD in_set_dropD)
    have dp: "?d @ ?p = map (or_zeros L) shards"
      using n by (simp only: map_append [symmetric]) simp
    have agree: "(?d @ ?p) ! i = (data @ parity) ! i" if "i < k + m" "i \<notin> set ?er" for i
    proof -
      have "shards ! i \<noteq> None" using that n by auto
      then obtain s where s: "shards ! i = Some s" by blast
      then have "s = (data @ parity) ! i" using genuine_Some [OF g _ s] that(1) n by simp
      then show ?thesis using that(1) n s unfolding dp by (simp add: or_zeros_def)
    qed
    have "sorted_wrt (<) ?er" by (intro sorted_wrt_filter) simp
    moreover have "length ?er \<le> m" unfolding er using present_missing [of shards] av n by linarith
    moreover have "length ?d = k" "length ?p = m" using n by simp_all
    ultimately have "isal_decode c k m ?d ?p ?er = Some (data, parity)"
      using p(3) zs agree unfolding isal_repairs_def by blast
    then show ?thesis
      using False n av by (simp add: isal_backend_decode_def Let_def)
  qed
qed

lemma mds_rebuild:
  assumes b: "codec_backend codec = Mds_backend k m" and ok: "isal_ok c k m" and d: "data_ok k L data"
    and e: "isal_encode c k m data = Some parity"
    and g: "genuine (data @ parity) shards" and av: "k \<le> present shards"
  shows "rebuild_data c codec shards = Inr data"
proof -
  note n = mds_sizes [OF b]
  obtain q where "isal_encode c k m data = Some q" "length q = m" "\<forall>p \<in> set q. length p = L"
    by (rule isal_ok_encode [OF ok d])
  then have p: "length parity = m" "\<forall>p \<in> set parity. length p = L" using e by simp_all
  have k: "length data = k" "0 < k" and lens: "\<forall>s \<in> set (data @ parity). length s = L"
    using d p(2) by (auto simp only: data_ok_def set_append)
  have len: "length shards = k + m" using g k p(1) by (simp add: genuine_def)
  obtain first r where f: "flatten shards = first # r"
    using av k(2) flatten_Nil_iff [of shards] by (cases "flatten shards") auto
  have L: "length first = L" by (rule genuine_first [OF g lens f])
  have dec: "isal_backend_decode c k m shards L (missing_slots shards) = Inr (data @ parity)"
    by (rule isal_backend_decode_ok [OF ok d e g av]) (auto simp: missing_slots_def)
  show ?thesis
  proof (cases "data_present codec shards")
    case True
    then have "flatten (take k shards) = data"
      using genuine_flatten_take [OF g, of k] k(1) by (simp add: data_present_def n)
    then show ?thesis using True len av f by (simp add: rebuild_data_def Let_def n)
  next
    case False
    then show ?thesis using len av f b L dec k(1) by (simp add: rebuild_data_def Let_def n)
  qed
qed

interpretation mds: shard_code mds_ok any_k
proof
  fix c codec
  assume "mds_ok c codec"
  then obtain k m where b: "codec_backend codec = Mds_backend k m" "0 < k" "isal_ok c k m"
    by (auto simp: mds_ok_def)
  note n = mds_sizes [OF b(1)]
  show "0 < data_shards codec" using b(2) n by simp
  fix L data
  assume d: "data_ok (data_shards codec) L data"
  then have d': "data_ok k L data" by (simp add: n)
  obtain parity where p: "isal_encode c k m data = Some parity" "length parity = m"
    "\<forall>p \<in> set parity. length p = L" by (rule isal_ok_encode [OF b(3) d'])
  obtain s ss where s: "data = s # ss" "length s = L"
    using d' by (cases data) (auto simp: data_ok_def)
  have enc: "encode_shards c codec data = Inr (data @ parity)"
    using isal_backend_encode_ok [OF d' p(1)] s b(1) by (simp add: encode_shards_def)
  then show "\<exists>parity. encode_shards c codec data = Inr (data @ parity) \<and>
      length parity = parity_shards codec \<and> (\<forall>p \<in> set parity. length p = L)"
    using p n by auto
  fix stripe shards
  assume "encode_shards c codec data = Inr stripe" "genuine stripe shards"
  then have g: "genuine (data @ parity) shards" using enc by simp
  show "rebuild_data c codec shards = Inr data" if "any_k codec (held_slots shards)"
    by (rule mds_rebuild [OF b(1,3) d' p(1) g])
      (use that in \<open>simp add: any_k_def n present_card\<close>)
  fix dd
  assume r: "rebuild_data c codec shards = Inr dd"
  then have "k \<le> present shards"
    by (auto simp: rebuild_data_def Let_def n not_less split: if_splits)
  then show "dd = data" using mds_rebuild [OF b(1,3) d' p(1) g] r by simp
qed

section \<open>Counting shards\<close>

lemma rebuilt_parity_count:
  assumes "length shards = n" "k \<le> n"
  shows "present shards + length (filter (\<lambda>i. shards ! i = None) [0..<k]) =
         k + length (filter (\<lambda>i. shards ! i \<noteq> None) [k..<n])"
proof -
  have "present shards = length (filter (\<lambda>i. shards ! i \<noteq> None) [0..<n])"
    using length_filter_nth [of "\<lambda>s. s \<noteq> None" shards] assms(1) by (simp add: present_def)
  also have "[0..<n] = [0..<k] @ [k..<n]" using assms(2) upt_add_eq_append [of 0 k "n - k"] by simp
  finally have "present shards = length (filter (\<lambda>i. shards ! i \<noteq> None) [0..<k]) +
      length (filter (\<lambda>i. shards ! i \<noteq> None) [k..<n])" by simp
  then show ?thesis
    using sum_length_filter_compl [of "\<lambda>i. shards ! i = None" "[0..<k]"] by simp
qed

lemma subset_count:
  assumes n: "length shards = n" "k \<le> n" and x: "distinct chosen"
    "set chosen \<subseteq> set (filter (\<lambda>i. shards ! i \<noteq> None) [k..<n])"
  shows "present (subset_of k shards chosen) + length (filter (\<lambda>i. shards ! i = None) [0..<k]) =
    k + length chosen"
proof -
  let ?sub = "subset_of k shards chosen"
  have "filter (\<lambda>i. ?sub ! i = None) [0..<k] = filter (\<lambda>i. shards ! i = None) [0..<k]"
    by (rule filter_cong [OF refl]) (use n in auto)
  moreover have "set (filter (\<lambda>i. ?sub ! i \<noteq> None) [k..<n]) = set chosen"
    using x(2) n by (auto split: if_splits)
  then have "length (filter (\<lambda>i. ?sub ! i \<noteq> None) [k..<n]) = length chosen"
    using distinct_card [OF x(1)] distinct_card [of "filter (\<lambda>i. ?sub ! i \<noteq> None) [k..<n]"] by simp
  ultimately show ?thesis using rebuilt_parity_count [of ?sub n k] n by simp
qed

section \<open>The result of a verified decode\<close>

lemma mds_decode_verified:
  assumes "mds_ok c codec" "encode_inner c codec bs = Inr stripe" "genuine stripe shards"
    "recorded_ok c stripe recorded"
  shows "decode_verified c codec shards (length bs) recorded =
    (if present shards < data_shards codec
     then Inl (InsufficientShards (present shards) (data_shards codec))
     else if (\<forall>i < data_shards codec. shards ! i = None \<longrightarrow> slot recorded i \<noteq> None) \<or>
             data_shards codec < present shards
     then Inr bs
     else Inl (Unverified False))"
proof -
  let ?k = "data_shards codec" and ?n = "total_shards codec"
  let ?rebuilt = "filter (\<lambda>i. shards ! i = None) [0..<?k]"
  let ?parity = "filter (\<lambda>i. shards ! i \<noteq> None) [?k..<?n]"
  have n: "length shards = ?n" "?k \<le> ?n"
    using assms(3) mds.encoded(2) [OF assms(1,2)] by (simp_all add: genuine_def total_shards_def)
  have count: "present shards + length ?rebuilt = ?k + length ?parity"
    by (rule rebuilt_parity_count [OF n])
  have rb: "set ?rebuilt = {i. i < ?k \<and> shards ! i = None}" by auto
  have missing: "\<not> data_present codec shards" if "\<exists>i < ?k. shards ! i = None"
    using that n by (auto simp: data_present_def list_all_length)
  consider (few) "present shards < ?k"
    | (found) "?k \<le> present shards"
        "(\<forall>i < ?k. shards ! i = None \<longrightarrow> slot recorded i \<noteq> None) \<or> ?k < present shards"
    | (bare) "present shards = ?k" "\<exists>i < ?k. shards ! i = None \<and> slot recorded i = None"
    by force
  then show ?thesis
  proof cases
    case few
    then have "?rebuilt \<noteq> []" using count by auto
    then have "\<exists>i < ?k. shards ! i = None" by (auto simp: filter_empty_conv)
    then show ?thesis using few n missing by (simp add: decode_verified_def Let_def)
  next
    case found
    let ?chosen = "take (length ?rebuilt) ?parity"
    have r: "length ?rebuilt \<le> length ?parity" using count found(1) by linarith
    then obtain rest where ch: "choices_of ?parity (length ?rebuilt) = ?chosen # rest"
      using choices_of_first by blast
    have dist: "distinct ?parity" by simp
    have sub: "set ?chosen \<subseteq> set ?parity" by (rule set_take_subset)
    have en: "any_k codec (held_slots (subset_of ?k shards ?chosen))"
      using subset_count [OF n distinct_take [OF dist] sub] r
      by (simp add: any_k_def present_card)
    have "\<exists>p \<in> held_slots shards. ?k \<le> p \<and> p \<notin> set ?chosen" if "?k < present shards"
    proof -
      have "length ?rebuilt < length ?parity" using count that by linarith
      then have "?parity ! length ?rebuilt \<in> set ?parity" "?parity ! length ?rebuilt \<notin> set ?chosen"
        using dist by (auto simp del: set_filter simp: in_set_conv_nth nth_eq_iff_index_eq)
      then show ?thesis using n by (auto simp: held_slots_def)
    qed
    then have chk: "(\<forall>i \<in> set ?rebuilt. slot recorded i \<noteq> None) \<or>
        (\<exists>p \<in> held_slots shards. ?k \<le> p \<and> p \<notin> set ?chosen)"
      using found(2) by auto
    have "decode_verified c codec shards (length bs) recorded = Inr bs"
      by (rule mds.decode_verified_found [OF assms found(1) _ _ _ en chk, of 0])
        (unfold ch, simp_all add: MAX_DECODE_ATTEMPTS_def)
    then show ?thesis using found by simp
  next
    case bare
    let ?at = "attempt c codec shards recorded ?rebuilt"
    have len: "length ?parity = length ?rebuilt" using count bare(1) by linarith
    have all: "\<exists>d. ?at x = Some (Unchecked, d)" if x: "x \<in> set (choices_of ?parity (length ?rebuilt))" for x
    proof -
      note c = choices_of_set [OF x]
      have d: "distinct x" using c(3) by simp
      have "set x = set ?parity"
        using card_subset_eq [OF _ c(1)] distinct_card [OF d] distinct_card [of ?parity] c(2) len
          card_mono [OF _ c(1)] by simp
      then have spare: "\<not> (\<exists>p \<in> held_slots shards. ?k \<le> p \<and> p \<notin> set x)"
        using n by (auto simp: held_slots_def)
      have en: "any_k codec (held_slots (subset_of ?k shards x))"
        using subset_count [OF n d c(1)] c(2) by (simp add: any_k_def present_card)
      show ?thesis
        using mds.attempt_checks [OF assms(1-3) assms(4) en, of ?rebuilt] bare(2) spare
        by (auto simp: rb)
    qed
    then have "\<exists>t. try_choices ?at (choices_of ?parity (length ?rebuilt)) 0 0 = Inr (t, 0)"
      by (intro try_choices_none) (auto dest: in_set_takeD)
    moreover have "\<not> data_present codec shards" using missing bare(2) by blast
    ultimately have "decode_verified c codec shards (length bs) recorded = Inl (Unverified False)"
      using bare(1) n decode_verified_eq [of shards codec] by (auto simp: Let_def)
    then show ?thesis using bare by auto
  qed
qed

section \<open>Repair\<close>

lemma take_shards_distinct:
  assumes "distinct is" "\<forall>i \<in> set is. i < length stripe"
  shows "take_shards stripe is = Inr (map (\<lambda>i. stripe ! i) is)"
  using assms
proof (induction "is" arbitrary: stripe)
  case (Cons i rest)
  have "take_shards (stripe[i := []]) rest = Inr (map (\<lambda>j. stripe[i := []] ! j) rest)"
    using Cons by simp
  moreover have "map (\<lambda>j. stripe[i := []] ! j) rest = map (\<lambda>j. stripe ! j) rest"
    using Cons.prems(1) by (auto intro!: map_cong nth_list_update_neq)
  ultimately show ?case using Cons.prems by simp
qed simp

lemma mds_reconstruct:
  assumes ok: "mds_ok c codec" and e: "encode_inner c codec bs = Inr stripe"
    and g: "genuine stripe shards" and av: "data_shards codec \<le> present shards"
    and m: "distinct missing" "\<forall>i \<in> set missing. i < length stripe \<and> shards ! i = None"
  shows "reconstruct_shards c codec shards missing = Inr (map (\<lambda>i. stripe ! i) missing)"
proof -
  obtain k m where b: "codec_backend codec = Mds_backend k m" "0 < k" "isal_ok c k m"
    using ok by (auto simp: mds_ok_def)
  note n = mds_sizes [OF b(1)]
  let ?data = "data_of (data_shards codec) bs" and ?L = "shard_size_for (length bs) (data_shards codec)"
  note en = mds.encoded [OF ok e]
  have d: "data_ok k ?L ?data" using en(4) by (simp only: n)
  obtain parity where p: "isal_encode c k m ?data = Some parity" by (rule isal_ok_encode [OF b(3) d])
  have be: "isal_backend_encode c k m ?data ?L = Inr (?data @ parity)"
    by (rule isal_backend_encode_ok [OF d p])
  have "length (hd ?data) = ?L" "?data \<noteq> []" using d by (auto simp: data_ok_def)
  then have "encode_shards c codec ?data = isal_backend_encode c k m ?data ?L"
    using b(1) by (cases ?data) (simp_all add: encode_shards_def)
  then have st: "stripe = ?data @ parity" using en(1) be by simp
  obtain first r where f: "flatten shards = first # r"
    using av b(2) n flatten_Nil_iff [of shards] by (cases "flatten shards") auto
  have L: "length first = ?L" by (rule genuine_first [OF g en(5) f])
  have g': "genuine (?data @ parity) shards" using g st by simp
  have av': "k \<le> present shards" using av by (simp only: n)
  have "isal_backend_decode c k m shards ?L missing = Inr (?data @ parity)"
    by (rule isal_backend_decode_ok [OF b(3) d p g' av']) (use m(2) in blast)
  then have "reconstruct_shards c codec shards missing = take_shards stripe missing"
    using av f b(1) L be d st by (simp add: reconstruct_shards_def Let_def n data_ok_def)
  then show ?thesis using take_shards_distinct m by simp
qed

end
