(* ===== verification/Erasure_Lrc.thy ===== *)
theory Erasure_Lrc
  imports Erasure_Mds
begin

text \<open>
  LRC stripes: exclusive-or algebra of the local groups, and what the backend rebuilds. A data
  shard that is the only one missing of its group comes back from the group; the others need as
  many global parity shards as there are of them.
\<close>

section \<open>Exclusive or\<close>

lemma length_xor_into [simp]: "length (xor_into r bs) = length r"
  by (induction r bs rule: xor_into.induct) auto

lemma nth_xor_into: "length bs = length r \<Longrightarrow> i < length r \<Longrightarrow> xor_into r bs ! i = xor (r ! i) (bs ! i)"
proof (induction r bs arbitrary: i rule: xor_into.induct)
  case (3 r rs b bs)
  then show ?case by (cases i) auto
qed auto

definition xor_bytes :: "byte list \<Rightarrow> byte" where
  "xor_bytes bs = foldr xor bs 0"

lemma xor_bytes_simps [simp]:
  "xor_bytes [] = 0" "xor_bytes (b # bs) = xor b (xor_bytes bs)"
  by (simp_all add: xor_bytes_def)

lemma xor_bytes_append: "xor_bytes (xs @ ys) = xor (xor_bytes xs) (xor_bytes ys)"
  by (induction xs) (simp_all add: xor.assoc)

lemma length_foldl_xor [simp]: "length (foldl xor_into r ss) = length r"
  by (induction ss arbitrary: r) auto

lemma nth_foldl_xor:
  assumes "\<forall>s \<in> set ss. length s = length r" "i < length r"
  shows "foldl xor_into r ss ! i = xor (r ! i) (xor_bytes (map (\<lambda>s. s ! i) ss))"
  using assms by (induction ss arbitrary: r) (simp_all add: nth_xor_into xor.assoc)

lemma length_xor_slices [simp]: "length (xor_slices ss L) = L"
  by (simp add: xor_slices_def)

lemma nth_xor_slices:
  assumes "\<forall>s \<in> set ss. length s = L" "i < L"
  shows "xor_slices ss L ! i = xor_bytes (map (\<lambda>s. s ! i) ss)"
  using nth_foldl_xor [of ss "replicate L 0" i] assms by (simp add: xor_slices_def)

lemma xor_bytes_without:
  assumes "j < length bs"
  shows "xor (xor_bytes (take j bs @ drop (Suc j) bs)) (xor_bytes bs) = bs ! j"
proof -
  have "xor_bytes bs = xor_bytes (take j bs @ bs ! j # drop (Suc j) bs)"
    using id_take_nth_drop [OF assms] by simp
  also have "\<dots> = xor (bs ! j) (xor_bytes (take j bs @ drop (Suc j) bs))"
    by (simp add: xor_bytes_append xor.left_commute)
  finally show ?thesis by (simp add: xor.left_commute)
qed

text \<open>A member of a group is the sum of the others and the parity.\<close>

lemma xor_recover:
  assumes "\<forall>s \<in> set ss. length s = L" "j < length ss"
  shows "xor_into (xor_slices (take j ss @ drop (Suc j) ss) L) (xor_slices ss L) = ss ! j"
proof (rule nth_equalityI)
  show len: "length (xor_into (xor_slices (take j ss @ drop (Suc j) ss) L) (xor_slices ss L)) =
      length (ss ! j)"
    using assms by simp
  fix i
  assume "i < length (xor_into (xor_slices (take j ss @ drop (Suc j) ss) L) (xor_slices ss L))"
  then have i: "i < L" by simp
  let ?bs = "map (\<lambda>s. s ! i) ss"
  have "\<forall>s \<in> set (take j ss @ drop (Suc j) ss). length s = L"
    using assms(1) by (auto dest: in_set_takeD in_set_dropD)
  then have "xor_slices (take j ss @ drop (Suc j) ss) L ! i = xor_bytes (take j ?bs @ drop (Suc j) ?bs)"
    using i by (simp add: nth_xor_slices take_map drop_map)
  moreover have "xor_slices ss L ! i = xor_bytes ?bs" using assms(1) i by (simp add: nth_xor_slices)
  ultimately show "xor_into (xor_slices (take j ss @ drop (Suc j) ss) L) (xor_slices ss L) ! i = ss ! j ! i"
    using i assms(2) xor_bytes_without [of j ?bs] by (simp add: nth_xor_into)
qed

section \<open>reed-solomon-simd and the codec\<close>

text \<open>
  The global code, reed-solomon-simd: for shards of an even length, \<open>g\<close> recovery shards are made,
  and the originals not given are restored from any \<open>k\<close> shards given.
\<close>

definition rs_restores :: "coders \<Rightarrow> nat \<Rightarrow> nat \<Rightarrow> nat \<Rightarrow> bytes list \<Rightarrow> bytes list \<Rightarrow> bool" where
  "rs_restores c k g L data global \<longleftrightarrow>
     (\<forall>origs recs.
        set origs \<subseteq> {(i, data ! i) | i. i < k} \<and> set recs \<subseteq> {(j, global ! j) | j. j < g} \<and>
        distinct (map fst origs) \<and> distinct (map fst recs) \<and> k \<le> length origs + length recs
        \<longrightarrow> (\<exists>restored. rs_decode c k g L origs recs = Some restored \<and>
              (\<forall>i < k. i \<notin> fst ` set origs \<longrightarrow> restored i = Some (data ! i))))"

definition rs_ok :: "coders \<Rightarrow> nat \<Rightarrow> nat \<Rightarrow> bool" where
  "rs_ok c k g \<longleftrightarrow>
     (\<forall>L data. length data = k \<and> 0 < L \<and> even L \<and> (\<forall>s \<in> set data. length s = L) \<longrightarrow>
        rs_decoder_new c k g L \<and>
        (\<exists>global. rs_encode c k g L data = Some global \<and> length global = g \<and>
           (\<forall>p \<in> set global. length p = L) \<and> rs_restores c k g L data global))"

definition lrc_ok :: "coders \<Rightarrow> erasure_codec \<Rightarrow> bool" where
  "lrc_ok c codec \<longleftrightarrow>
     (\<exists>k l g. codec_backend codec = Lrc_backend (lrc_config_new k l g) \<and>
        check_lrc k l g = Inr () \<and> rs_ok c k g)"

text \<open>The data shards a group gives back, those left to the global code, and when all come back.\<close>

definition lrc_local :: "lrc_config \<Rightarrow> nat set \<Rightarrow> nat \<Rightarrow> bool" where
  "lrc_local cfg held i \<longleftrightarrow>
     i < lrc_data_shards cfg \<and> i \<notin> held \<and>
     lrc_data_shards cfg + i div lrc_local_group_size cfg \<in> held \<and>
     (\<forall>j < lrc_data_shards cfg.
        j div lrc_local_group_size cfg = i div lrc_local_group_size cfg \<longrightarrow> j \<noteq> i \<longrightarrow> j \<in> held)"

definition lrc_still :: "lrc_config \<Rightarrow> nat set \<Rightarrow> nat set" where
  "lrc_still cfg held = {i. i < lrc_data_shards cfg \<and> i \<notin> held \<and> \<not> lrc_local cfg held i}"

definition lrc_globals :: "lrc_config \<Rightarrow> nat set \<Rightarrow> nat set" where
  "lrc_globals cfg held = {i \<in> held. lrc_data_shards cfg + lrc_local_parity_shards cfg \<le> i}"

definition lrc_enough :: "erasure_codec \<Rightarrow> nat set \<Rightarrow> bool" where
  "lrc_enough codec held \<longleftrightarrow>
     (case codec_backend codec of
        Mds_backend k m \<Rightarrow> False
      | Lrc_backend cfg \<Rightarrow>
          data_shards codec \<le> card held \<and>
          card (lrc_still cfg held) \<le> card (lrc_globals cfg held))"

text \<open>A stripe of an LRC code and what is known of it.\<close>

definition lrc_stripe ::
    "coders \<Rightarrow> nat \<Rightarrow> nat \<Rightarrow> nat \<Rightarrow> nat \<Rightarrow> bytes list \<Rightarrow> bytes list \<Rightarrow> bool" where
  "lrc_stripe c k l g L data stripe \<longleftrightarrow>
     data_ok k L data \<and> 0 < l \<and> l dvd k \<and> length stripe = k + l + g \<and> take k stripe = data \<and>
     (\<forall>s \<in> set stripe. length s = L) \<and>
     (\<forall>q < l. stripe ! (k + q) = xor_slices (take (k div l) (drop (q * (k div l)) data)) L) \<and>
     rs_decoder_new c k g L \<and> rs_restores c k g L data (drop (k + l) stripe)"

lemma lrc_config_simps [simp]:
  "lrc_data_shards (lrc_config_new k l g) = k"
  "lrc_local_parity_shards (lrc_config_new k l g) = l"
  "lrc_global_parity_shards (lrc_config_new k l g) = g"
  "lrc_local_group_size (lrc_config_new k l g) = k div l"
  by (simp_all add: lrc_config_new_def)

lemma lrc_sizes:
  assumes "codec_backend codec = Lrc_backend (lrc_config_new k l g)" "check_lrc k l g = Inr ()"
  shows "data_shards codec = k" "parity_shards codec = l + g" "total_shards codec = k + l + g"
  using assms
  by (simp_all add: data_shards_def parity_shards_def total_shards_def lrc_total_parity_def check_lrc_Inr)

lemma lrc_encode_shards:
  assumes b: "codec_backend codec = Lrc_backend (lrc_config_new k l g)"
    and chk: "check_lrc k l g = Inr ()" and rs: "rs_ok c k g" and d: "data_ok k L data"
  obtains parity where "encode_shards c codec data = Inr (data @ parity)" "length parity = l + g"
    "\<forall>p \<in> set parity. length p = L" "lrc_stripe c k l g L data (data @ parity)"
proof -
  have L: "0 < L" "even L" using d by (auto simp: data_ok_def intro: dvd_trans [of 2 64 L])
  have dl: "length data = k" "\<forall>s \<in> set data. length s = L" using d by (simp_all add: data_ok_def)
  obtain global where gl: "rs_decoder_new c k g L" "rs_encode c k g L data = Some global"
    "length global = g" "\<forall>p \<in> set global. length p = L" "rs_restores c k g L data global"
    using rs L dl unfolding rs_ok_def by blast
  obtain s ss where s: "data = s # ss" "length s = L"
    using d by (cases data) (auto simp: data_ok_def)
  define local where
    "local = map (\<lambda>i. xor_slices (take (k div l) (drop (i * (k div l)) data)) L) [0..<l]"
  have "\<not> list_ex (\<lambda>s. length s \<noteq> L) data" using dl(2) by (auto simp only: list_ex_iff)
  then have "encode_lrc c (lrc_config_new k l g) data L =
      Inr \<lparr>led_data_shards = data, led_local_parity_shards = local, led_global_parity_shards = global\<rparr>"
    using dl(1) gl(2) by (simp add: encode_lrc_def local_def Let_def)
  then have enc: "encode_shards c codec data = Inr (data @ (local @ global))"
    using b s by (simp add: encode_shards_def all_shards_def)
  have lens: "\<forall>p \<in> set (local @ global). length p = L" using gl(4) by (auto simp: local_def)
  show thesis
  proof (rule that [OF enc])
    show "length (local @ global) = l + g" using gl(3) by (simp add: local_def)
    show "\<forall>p \<in> set (local @ global). length p = L" by (rule lens)
    have "(data @ local @ global) ! (k + q) = xor_slices (take (k div l) (drop (q * (k div l)) data)) L"
      if "q < l" for q
      using that dl(1) by (simp add: nth_append local_def)
    then show "lrc_stripe c k l g L data (data @ local @ global)"
      using d dl gl chk lens unfolding lrc_stripe_def check_lrc_Inr
      by (auto simp: local_def)
  qed
qed

section \<open>Local recovery\<close>

lemma filter_neq_upt:
  assumes "a \<le> i" "i < b"
  shows "filter (\<lambda>j. j \<noteq> i) [a..<b] = [a..<i] @ [Suc i..<b]"
proof -
  have "[a..<b] = [a..<i] @ i # [Suc i..<b]"
    using assms upt_add_eq_append [of a i "b - i"] upt_conv_Cons [of i b] by simp
  moreover have "filter (\<lambda>j. j \<noteq> i) [a..<i] = [a..<i]" "filter (\<lambda>j. j \<noteq> i) [Suc i..<b] = [Suc i..<b]"
    by (auto simp: filter_id_conv)
  ultimately show ?thesis by simp
qed

lemma map_nth_upt: "b \<le> length xs \<Longrightarrow> map (\<lambda>j. xs ! j) [a..<b] = take (b - a) (drop a xs)"
  by (rule nth_equalityI) auto

lemma div_group:
  assumes "0 < (gs :: nat)"
  shows "j \<in> {i div gs * gs..<i div gs * gs + gs} \<longleftrightarrow> j div gs = i div gs"
proof
  assume "j \<in> {i div gs * gs..<i div gs * gs + gs}"
  then have "i div gs * gs \<le> j" "j < (i div gs + 1) * gs" by auto
  then show "j div gs = i div gs"
    using assms by (metis Suc_eq_plus1 div_nat_eqI mult.commute)
next
  assume "j div gs = i div gs"
  moreover have "j = j div gs * gs + j mod gs" "j mod gs < gs" using assms by simp_all
  ultimately show "j \<in> {i div gs * gs..<i div gs * gs + gs}" by auto
qed

lemma group_bounds:
  assumes "0 < l" "l dvd k" "idx < (k :: nat)"
  shows "0 < k div l" "idx div (k div l) < l" "idx div (k div l) * (k div l) + k div l \<le> k"
proof -
  have kl: "l * (k div l) = k" using assms(2) by simp
  then show gs: "0 < k div l" using assms by (metis gr0I mult_0_right not_less_zero)
  show q: "idx div (k div l) < l" using assms(3) kl by (metis less_mult_imp_div_less)
  have "(idx div (k div l) + 1) * (k div l) \<le> l * (k div l)" using q by (intro mult_le_mono1) simp
  then show "idx div (k div l) * (k div l) + k div l \<le> k" using kl by simp
qed

lemma foldl_slots:
  assumes "\<forall>j \<in> set js. slot refs j = Some (f j)"
  shows "foldl (\<lambda>r idx. case slot refs idx of Some data \<Rightarrow> xor_into r data | None \<Rightarrow> r) r js =
         foldl xor_into r (map f js)"
  using assms by (induction js arbitrary: r) auto

lemma decode_local_eq:
  assumes st: "lrc_stripe c k l g L data stripe" and gn: "genuine stripe refs" and idx: "idx < k"
  defines "q \<equiv> idx div (k div l)" and "held \<equiv> held_slots refs"
  shows "decode_local (lrc_config_new k l g) refs L idx =
    Inr (if k + q \<in> held \<and> (\<forall>j < k. j div (k div l) = q \<longrightarrow> j \<noteq> idx \<longrightarrow> j \<in> held)
         then Some (data ! idx) else None)"
proof -
  let ?gs = "k div l" and ?start = "q * (k div l)"
  let ?grp = "[?start..<?start + ?gs]"
  have l: "0 < l" "l dvd k" and len: "length stripe = k + l + g" and dk: "take k stripe = data"
    and lens: "\<forall>s \<in> set stripe. length s = L"
    and par: "\<forall>q < l. stripe ! (k + q) = xor_slices (take ?gs (drop (q * ?gs) data)) L"
    using st by (simp_all add: lrc_stripe_def)
  note gb = group_bounds [OF l idx, folded q_def]
  have n: "length refs = k + l + g" using gn len by (simp add: genuine_def)
  have slot: "slot refs j = Some (stripe ! j)" if "j \<in> held" for j
    using that gn by (auto simp: held_def held_slots_def slot_def genuine_def)
  have slot': "slot refs j \<noteq> None \<longleftrightarrow> j \<in> held" for j by (simp add: slot_def held_def held_slots_def)
  have mem: "j \<in> set ?grp \<longleftrightarrow> j < k \<and> j div ?gs = q" for j
    using div_group [OF gb(1), of j idx] gb(3) by (auto simp: q_def)
  have grp: "local_group_of (lrc_config_new k l g) idx =
      Some \<lparr>lg_group_index = q mod 256, lg_data_shard_indices = ?grp, lg_local_parity_index = k + q\<rparr>"
    using idx by (simp add: local_group_of_def Let_def q_def)
  have cond: "list_all (\<lambda>j. j = idx \<or> slot refs j \<noteq> None) ?grp \<longleftrightarrow>
      (\<forall>j < k. j div ?gs = q \<longrightarrow> j \<noteq> idx \<longrightarrow> j \<in> held)"
    unfolding list_all_iff slot' Ball_def mem by blast
  show ?thesis
  proof (cases "k + q \<in> held \<and> (\<forall>j < k. j div ?gs = q \<longrightarrow> j \<noteq> idx \<longrightarrow> j \<in> held)")
    case False
    then have "\<not> (list_all (\<lambda>j. j = idx \<or> slot refs j \<noteq> None) ?grp \<and> slot refs (k + q) \<noteq> None)"
      unfolding cond using slot' [of "k + q"] by blast
    then have "decode_local (lrc_config_new k l g) refs L idx = Inr None"
      unfolding decode_local_def grp by simp
    then show ?thesis using False by simp
  next
    case True
    let ?others = "filter (\<lambda>j. j \<noteq> idx) ?grp"
    have in_grp: "?start \<le> idx" "idx < ?start + ?gs"
      using mem [of idx] idx by (auto simp: q_def)
    define ss where "ss = take ?gs (drop ?start data)"
    define p where "p = idx - ?start"
    have dlen: "length data = k" using dk len by auto
    have "set data \<subseteq> set stripe" using dk set_take_subset [of k stripe] by simp
    moreover have "set ss \<subseteq> set data"
      using set_take_subset set_drop_subset unfolding ss_def by fast
    ultimately have ss: "length ss = ?gs" "\<forall>s \<in> set ss. length s = L"
      using gb(3) dlen lens by (auto simp: ss_def)
    have nth: "stripe ! j = data ! j" if "j < k" for j using dk that by (metis nth_take)
    have "\<forall>j \<in> set ?others. slot refs j = Some (data ! j)"
      using True slot nth mem by auto
    then have f: "foldl (\<lambda>r idx. case slot refs idx of Some data \<Rightarrow> xor_into r data | None \<Rightarrow> r)
        (replicate L 0) ?others = xor_slices (map (\<lambda>j. data ! j) ?others) L"
      by (simp only: foldl_slots xor_slices_def)
    have "map (\<lambda>j. data ! j) ?others = take p ss @ drop (Suc p) ss"
    proof -
      have "p \<le> ?gs" using in_grp unfolding p_def by linarith
      then have "take (idx - ?start) (drop ?start data) = take p ss"
        unfolding p_def [symmetric] by (simp add: ss_def min_absorb1)
      moreover have "take (?start + ?gs - Suc idx) (drop (Suc idx) data) = drop (Suc p) ss"
        using in_grp by (simp add: ss_def p_def drop_take add.commute)
      ultimately show ?thesis
        using in_grp gb(3) dlen idx by (simp add: filter_neq_upt map_nth_upt del: upt_Suc)
    qed
    moreover have "slot refs (k + q) = Some (xor_slices ss L)"
      using slot True par gb(2) by (simp add: ss_def)
    moreover have "xor_into (xor_slices (take p ss @ drop (Suc p) ss) L) (xor_slices ss L) = data ! idx"
    proof -
      have "p < length ss" using in_grp ss(1) by (simp add: p_def)
      then have "ss ! p = data ! idx" using in_grp dlen gb(3) by (simp add: ss_def p_def)
      then show ?thesis using xor_recover [OF ss(2) \<open>p < length ss\<close>] by simp
    qed
    ultimately have "decode_local (lrc_config_new k l g) refs L idx = Inr (Some (data ! idx))"
      using True cond f slot' unfolding decode_local_def grp by (simp add: Let_def)
    then show ?thesis using True by simp
  qed
qed

section \<open>Rebuilding the data\<close>

lemma lrc_local_pass_none:
  assumes "\<forall>i \<in> set is. decode_local cfg shards L i = Inr None"
  shows "lrc_local_pass cfg shards L is r m = Inr (r, m)"
  using assms by (induction "is" arbitrary: r m) auto

lemma lrc_collect_all:
  assumes "\<forall>i \<in> set is. i < k \<and> restored i = Some (f i)"
  shows "lrc_collect k restored is acc = Inr (acc @ map f is)"
  using assms by (induction "is" arbitrary: acc) auto

lemma length_put_recovered [simp]: "length (put_recovered r ps) = length r"
proof (induction ps arbitrary: r)
  case (Cons p ps)
  then show ?case by (cases p) (simp add: put_recovered_def)
qed (simp add: put_recovered_def)

lemma put_recovered_nth:
  assumes "i < length r"
  shows "put_recovered r (zip is (map f is)) ! i = (if i \<in> set is then Some (f i) else r ! i)"
  using assms
proof (induction "is" arbitrary: r)
  case (Cons j js)
  have "put_recovered r (zip (j # js) (map f (j # js))) =
      put_recovered (r[j := Some (f j)]) (zip js (map f js))"
    by (simp add: put_recovered_def)
  then show ?case using Cons by (auto simp: nth_list_update)
qed (simp add: put_recovered_def)

lemma all_rebuilt_Some [simp]: "all_rebuilt (map Some xs) = Inr xs"
  by (induction xs) auto

lemma length_or_slots [simp]: "length (or_slots r s) = length r"
  by (simp add: or_slots_def)

lemma nth_or_slots: "i < length r \<Longrightarrow> or_slots r s ! i = (case r ! i of Some x \<Rightarrow> Some x | None \<Rightarrow> s ! i)"
  by (simp add: or_slots_def split: option.split)

lemma indexed_present_facts:
  "length (indexed_present xs) = present xs"
  "distinct (map fst (indexed_present xs))"
  "set (indexed_present xs) = {(i, s) | i s. i < length xs \<and> xs ! i = Some s}"
proof -
  show "length (indexed_present xs) = present xs"
    using length_filter_nth [of "\<lambda>s. s \<noteq> None" xs] by (simp add: indexed_present_def present_def)
  show "distinct (map fst (indexed_present xs))" by (simp add: indexed_present_def comp_def)
  show "set (indexed_present xs) = {(i, s) | i s. i < length xs \<and> xs ! i = Some s}"
    by (force simp: indexed_present_def)
qed

text \<open>The shards the local pass has put back for the indices in \<open>P\<close>.\<close>

definition local_slots :: "lrc_config \<Rightarrow> nat set \<Rightarrow> bytes list \<Rightarrow> nat \<Rightarrow> nat set \<Rightarrow> bytes option list" where
  "local_slots cfg held data n P =
     map (\<lambda>i. if i \<in> P \<and> lrc_local cfg held i then Some (data ! i) else None) [0..<n]"

lemma lrc_local_less: "lrc_local (lrc_config_new k l g) held i \<Longrightarrow> i < k \<and> i \<notin> held"
  by (simp add: lrc_local_def)

lemma local_slots_refs:
  fixes P :: "nat set"
  assumes st: "lrc_stripe c k l g L data stripe" and gn: "genuine stripe shards"
  defines "held \<equiv> held_slots shards" and "cfg \<equiv> lrc_config_new k l g"
  defines "refs \<equiv> or_slots (local_slots cfg held data (k + l + g) P) shards"
  shows "genuine stripe refs" "held_slots refs = held \<union> {i \<in> P. lrc_local cfg held i}"
proof -
  have len: "length stripe = k + l + g" and dk: "take k stripe = data"
    using st by (simp_all add: lrc_stripe_def)
  have n: "length shards = k + l + g" using gn len by (simp add: genuine_def)
  have rn: "length refs = k + l + g" by (simp add: refs_def local_slots_def)
  have nth: "refs ! i = (if i \<in> P \<and> lrc_local cfg held i then Some (data ! i) else shards ! i)"
    if "i < k + l + g" for i
    using that by (simp add: refs_def nth_or_slots local_slots_def)
  have data: "data ! i = stripe ! i" if "lrc_local cfg held i" for i
    using lrc_local_less [of k l g held i] that dk by (metis cfg_def nth_take)
  show "genuine stripe refs"
    using gn len rn nth data by (auto simp: genuine_def)
  have "i < k + l + g" if "lrc_local cfg held i" for i
    using that lrc_local_less [of k l g held i] by (auto simp: cfg_def)
  then show "held_slots refs = held \<union> {i \<in> P. lrc_local cfg held i}"
    using n rn nth by (auto simp: held_slots_def held_def)
qed

lemma decode_local_refs:
  assumes st: "lrc_stripe c k l g L data stripe" and gn: "genuine stripe shards"
  defines "held \<equiv> held_slots shards" and "cfg \<equiv> lrc_config_new k l g"
  assumes idx: "idx < k" "idx \<notin> held"
  shows "decode_local cfg (or_slots (local_slots cfg held data (k + l + g) P) shards) L idx =
    Inr (if lrc_local cfg held idx then Some (data ! idx) else None)"
proof -
  note r = local_slots_refs [OF st gn, where P = P, folded held_def, folded cfg_def]
  let ?H = "held \<union> {i \<in> P. lrc_local cfg held i}"
  have "\<not> lrc_local cfg held (k + q)" for q
    using lrc_local_less [of k l g held "k + q"] by (auto simp: cfg_def)
  moreover have "j \<in> held" if "j < k" "j div (k div l) = idx div (k div l)" "j \<noteq> idx" "j \<in> ?H" for j
  proof (rule ccontr)
    assume "j \<notin> held"
    then have "lrc_local cfg held j" using that by auto
    then have "idx \<in> held" using that idx(1) unfolding lrc_local_def cfg_def by auto
    with idx(2) show False ..
  qed
  ultimately have "(k + idx div (k div l) \<in> ?H \<and>
      (\<forall>j < k. j div (k div l) = idx div (k div l) \<longrightarrow> j \<noteq> idx \<longrightarrow> j \<in> ?H)) \<longleftrightarrow> lrc_local cfg held idx"
    using idx unfolding lrc_local_def cfg_def by auto
  then show ?thesis
    using decode_local_eq [OF st r(1) idx(1), folded cfg_def] unfolding r(2) by simp
qed

lemma recover_local_step:
  assumes st: "lrc_stripe c k l g L data stripe" and gn: "genuine stripe shards"
  defines "held \<equiv> held_slots shards" and "cfg \<equiv> lrc_config_new k l g"
  assumes idx: "idx < k" "idx \<notin> held"
  shows "recover_local cfg shards L (local_slots cfg held data (k + l + g) P) idx =
    local_slots cfg held data (k + l + g) (insert idx P)"
proof (cases "lrc_local cfg held idx")
  case True
  then have "recover_local cfg shards L (local_slots cfg held data (k + l + g) P) idx =
      (local_slots cfg held data (k + l + g) P)[idx := Some (data ! idx)]"
    using decode_local_refs [OF st gn idx [unfolded held_def], where P = P, folded held_def,
        folded cfg_def]
    by (simp add: recover_local_def)
  also have "\<dots> = local_slots cfg held data (k + l + g) (insert idx P)"
    by (rule nth_equalityI) (use True idx(1) in \<open>auto simp: local_slots_def nth_list_update\<close>)
  finally show ?thesis .
next
  case False
  then have "recover_local cfg shards L (local_slots cfg held data (k + l + g) P) idx =
      local_slots cfg held data (k + l + g) P"
    using decode_local_refs [OF st gn idx [unfolded held_def], where P = P, folded held_def,
        folded cfg_def]
    by (simp add: recover_local_def)
  also have "\<dots> = local_slots cfg held data (k + l + g) (insert idx P)"
    using False by (auto simp: local_slots_def)
  finally show ?thesis .
qed

lemma recover_local_all:
  assumes st: "lrc_stripe c k l g L data stripe" and gn: "genuine stripe shards"
  defines "held \<equiv> held_slots shards" and "cfg \<equiv> lrc_config_new k l g"
  assumes "\<forall>i \<in> set xs. i < k \<and> i \<notin> held"
  shows "foldl (recover_local cfg shards L) (local_slots cfg held data (k + l + g) P) xs =
    local_slots cfg held data (k + l + g) (P \<union> set xs)"
  using assms(5)
proof (induction xs arbitrary: P)
  case (Cons x xs)
  have "recover_local cfg shards L (local_slots cfg held data (k + l + g) P) x =
      local_slots cfg held data (k + l + g) (insert x P)"
    using recover_local_step [OF st gn, where idx = x and P = P, folded held_def, folded cfg_def]
      Cons.prems by simp
  then show ?case using Cons.IH [of "insert x P"] Cons.prems by simp
qed simp

lemma present_append [simp]: "present (xs @ ys) = present xs + present ys"
  by (simp add: present_def)

lemma present_globals:
  assumes gn: "genuine stripe refs" and len: "length stripe = k + l + g"
  shows "present (take g (drop (k + l) refs)) =
    card (lrc_globals (lrc_config_new k l g) (held_slots refs))"
proof -
  have n: "length refs = k + l + g" using gn len by (simp add: genuine_def)
  then have ln: "length (take g (drop (k + l) refs)) = g" by simp
  have "present (take g (drop (k + l) refs)) = card {i. i < g \<and> refs ! (k + l + i) \<noteq> None}"
    unfolding present_card held_slots_def ln using n by (intro arg_cong [where f = card]) auto
  also have "\<dots> = card ((\<lambda>i. k + l + i) ` {i. i < g \<and> refs ! (k + l + i) \<noteq> None})"
    by (simp add: card_image)
  also have "(\<lambda>i. k + l + i) ` {i. i < g \<and> refs ! (k + l + i) \<noteq> None} =
      lrc_globals (lrc_config_new k l g) (held_slots refs)"
  proof (intro set_eqI iffI)
    fix i assume "i \<in> lrc_globals (lrc_config_new k l g) (held_slots refs)"
    then have "k + l \<le> i" "i < k + l + g" "refs ! i \<noteq> None"
      using n by (auto simp: lrc_globals_def held_slots_def)
    then show "i \<in> (\<lambda>i. k + l + i) ` {i. i < g \<and> refs ! (k + l + i) \<noteq> None}"
      by (intro image_eqI [of _ _ "i - (k + l)"]) auto
  qed (use n in \<open>auto simp: lrc_globals_def held_slots_def\<close>)
  finally show ?thesis .
qed

text \<open>
  The backend's decode for the missing data shards \<open>S\<close>, none of which its group gives back.
\<close>

lemma lrc_global_decode:
  assumes st: "lrc_stripe c k l g L data stripe" and gn: "genuine stripe refs"
    and S: "S = filter (\<lambda>i. refs ! i = None) [0..<k]" "S \<noteq> []"
    and none: "\<forall>i \<in> set S. decode_local (lrc_config_new k l g) refs L i = Inr None"
  defines "globals \<equiv> card (lrc_globals (lrc_config_new k l g) (held_slots refs))"
  shows "if length S \<le> globals
    then lrc_backend_decode c (lrc_config_new k l g) refs L S = Inr (map (\<lambda>i. data ! i) S)
    else \<exists>e. lrc_backend_decode c (lrc_config_new k l g) refs L S = Inl e"
proof -
  let ?o = "indexed_present (take k refs)" and ?r = "indexed_present (take g (drop (k + l) refs))"
  have len: "length stripe = k + l + g" and dk: "take k stripe = data"
    and rs: "rs_decoder_new c k g L" "rs_restores c k g L data (drop (k + l) stripe)"
    using st by (simp_all add: lrc_stripe_def)
  have rn: "length refs = k + l + g" using gn len by (simp add: genuine_def)
  have tk: "length (take k refs) = k" using rn by simp
  have "missing_slots (take k refs) = S"
    unfolding missing_slots_def tk S(1) by (rule filter_cong [OF refl]) auto
  then have "present (take k refs) + length S = k" using present_missing [of "take k refs"] tk by simp
  moreover define avail where "avail = present (take k refs) + present (take g (drop (k + l) refs))"
  ultimately have av: "avail + length S = k + globals"
    using present_globals [OF gn len] by (simp add: globals_def)
  have dec: "lrc_backend_decode c (lrc_config_new k l g) refs L S =
      (if avail < k then Inl (InsufficientShards avail k)
       else case rs_decode c k g L ?o ?r of
              None \<Rightarrow> Inl DecodingFailed
            | Some restored \<Rightarrow> lrc_collect k restored S [])"
    using lrc_local_pass_none [OF none, of "[]" S] S(2) rn rs(1)
    by (simp add: lrc_backend_decode_def Let_def avail_def)
  show ?thesis
  proof (cases "length S \<le> globals")
    case True
    have o: "set ?o \<subseteq> {(i, data ! i) | i. i < k}"
    proof clarify
      fix i s assume "(i, s) \<in> set ?o"
      then have i: "i < k" "refs ! i = Some s" using tk by (auto simp: indexed_present_facts(3))
      then have "s = stripe ! i" using genuine_Some [OF gn] rn by simp
      also have "\<dots> = data ! i" using dk i(1) by (metis nth_take)
      finally show "\<exists>j. (i, s) = (j, data ! j) \<and> j < k" using i(1) by blast
    qed
    moreover have "set ?r \<subseteq> {(j, drop (k + l) stripe ! j) | j. j < g}"
    proof clarify
      fix j s assume "(j, s) \<in> set ?r"
      then have j: "j < g" "refs ! (k + l + j) = Some s" using rn by (auto simp: indexed_present_facts(3))
      then have "s = stripe ! (k + l + j)" using genuine_Some [OF gn] rn by simp
      then show "\<exists>i. (j, s) = (i, drop (k + l) stripe ! i) \<and> i < g" using j(1) len by auto
    qed
    moreover have "k \<le> length ?o + length ?r"
      using av True by (simp add: indexed_present_facts(1) avail_def)
    ultimately obtain restored where d: "rs_decode c k g L ?o ?r = Some restored"
      and re: "\<forall>i < k. i \<notin> fst ` set ?o \<longrightarrow> restored i = Some (data ! i)"
      using rs(2) indexed_present_facts(2) unfolding rs_restores_def by blast
    have "i < k \<and> restored i = Some (data ! i)" if "i \<in> set S" for i
    proof -
      have i: "i < k" "refs ! i = None" using that by (auto simp: S(1))
      then have "i \<notin> fst ` set ?o" by (auto simp: indexed_present_facts(3))
      then show ?thesis using re i(1) by simp
    qed
    then show ?thesis
      using dec d av True lrc_collect_all [of S k restored "\<lambda>i. data ! i" "[]"] by simp
  qed (use dec av in auto)
qed

lemma rebuild_lrc_eq:
  assumes st: "lrc_stripe c k l g L data stripe" and gn: "genuine stripe shards"
  defines "held \<equiv> held_slots shards" and "cfg \<equiv> lrc_config_new k l g"
  shows "rebuild_lrc c cfg (k + l + g) shards L =
    (if card (lrc_still cfg held) \<le> card (lrc_globals cfg held) then Inr data else Inl DecodingFailed)"
proof -
  have len: "length stripe = k + l + g" and dk: "take k stripe = data" and dlen: "length data = k"
    using st by (simp_all add: lrc_stripe_def data_ok_def)
  have n: "length shards = k + l + g" using gn len by (simp add: genuine_def)
  let ?xs = "filter (\<lambda>i. i < k) (missing_slots shards)"
  have xs: "set ?xs = {i. i < k \<and> i \<notin> held}"
    using n by (auto simp: missing_slots_def held_def held_slots_def)
  define R where "R = local_slots cfg held data (k + l + g) (set ?xs)"
  have "local_slots cfg held data (k + l + g) {} = replicate (k + l + g) None"
    by (rule nth_equalityI) (auto simp: local_slots_def)
  moreover have "\<forall>i \<in> set ?xs. i < k \<and> i \<notin> held" unfolding xs by blast
  ultimately have R: "foldl (recover_local cfg shards L) (replicate (k + l + g) None) ?xs = R"
    using recover_local_all [OF st gn, where xs = ?xs and P = "{}", folded held_def, folded cfg_def]
    by (simp only: R_def Un_empty_left)
  have loc: "lrc_local cfg held i \<Longrightarrow> i \<in> set ?xs" for i
    unfolding xs using lrc_local_less [of k l g held i] by (auto simp: cfg_def)
  have Rn: "length R = k + l + g"
    "\<And>i. i < k + l + g \<Longrightarrow> R ! i = (if lrc_local cfg held i then Some (data ! i) else None)"
    using loc by (auto simp: R_def local_slots_def)
  define S where "S = filter (\<lambda>i. shards ! i = None \<and> R ! i = None) [0..<k]"
  have S: "set S = lrc_still cfg held" "distinct S"
    using n Rn(2) by (auto simp: S_def lrc_still_def cfg_def held_def held_slots_def split: if_splits)
  have cardS: "card (lrc_still cfg held) = length S" using distinct_card [OF S(2)] S(1) by simp
  let ?refs = "or_slots R shards"
  have gr: "genuine stripe ?refs" and hr: "held_slots ?refs = held \<union> {i. lrc_local cfg held i}"
    using local_slots_refs [OF st gn, where P = "set ?xs", folded held_def, folded cfg_def, folded R_def]
      loc by auto
  have globals: "lrc_globals cfg (held_slots ?refs) = lrc_globals cfg held"
    unfolding hr by (auto simp: lrc_globals_def cfg_def dest: lrc_local_less)
  have SR: "S = filter (\<lambda>i. ?refs ! i = None) [0..<k]"
    unfolding S_def by (rule filter_cong [OF refl]) (use n Rn(1) in \<open>auto simp: nth_or_slots split: option.split\<close>)
  have refs: "?refs ! i = Some (data ! i)" if "i < k" "i \<notin> set S" for i
  proof -
    have "?refs ! i \<noteq> None" using that unfolding SR by simp
    moreover have "stripe ! i = data ! i" using that(1) dk by (metis nth_take)
    ultimately show ?thesis using genuine_Some [OF gr, of i] that(1) Rn(1) by auto
  qed
  have rest: "all_rebuilt (take k (or_slots recovered shards)) = Inr data"
    if "length recovered = k + l + g"
      "\<And>i. i < k \<Longrightarrow> or_slots recovered shards ! i = Some (data ! i)" for recovered
  proof -
    have "take k (or_slots recovered shards) = map Some data"
      by (rule nth_equalityI) (use that dlen in auto)
    then show ?thesis by simp
  qed
  have main: "rebuild_lrc c cfg (k + l + g) shards L =
      and_then
        (if S = [] then Inr R
         else case lrc_backend_decode c cfg ?refs L S of
                Inl _ \<Rightarrow> Inl DecodingFailed
              | Inr global \<Rightarrow> Inr (put_recovered R (zip S global)))
        (\<lambda>recovered. all_rebuilt (take k (or_slots recovered shards)))"
    unfolding rebuild_lrc_def Let_def by (simp only: cfg_def lrc_config_simps R [unfolded cfg_def] S_def)
  show ?thesis
  proof (cases "S = []")
    case True
    then show ?thesis using main cardS rest [OF Rn(1)] refs by simp
  next
    case False
    have "\<forall>i \<in> set S. decode_local cfg ?refs L i = Inr None"
    proof
      fix i assume "i \<in> set S"
      then have "i < k" "i \<notin> held" "\<not> lrc_local cfg held i" by (auto simp: S(1) lrc_still_def cfg_def)
      then show "decode_local cfg ?refs L i = Inr None"
        using decode_local_refs [OF st gn, where idx = i and P = "set ?xs", folded held_def,
            folded cfg_def, folded R_def] by simp
    qed
    note dec = lrc_global_decode [OF st gr SR False this [unfolded cfg_def], folded cfg_def]
    have "or_slots (put_recovered R (zip S (map (\<lambda>i. data ! i) S))) shards ! i = Some (data ! i)"
      if i: "i < k" for i
      using i Rn(1) refs [OF i] put_recovered_nth [of i R S "\<lambda>i. data ! i"] by (simp add: nth_or_slots)
    then show ?thesis
      using main False dec globals cardS
        rest [of "put_recovered R (zip S (map (\<lambda>i. data ! i) S))"] Rn(1)
      by (auto split: if_splits)
  qed
qed

section \<open>The contract\<close>

lemma lrc_rebuild:
  assumes b: "codec_backend codec = Lrc_backend (lrc_config_new k l g)"
    and chk: "check_lrc k l g = Inr ()" and st: "lrc_stripe c k l g L data stripe"
    and gn: "genuine stripe shards" and av: "k \<le> present shards"
  defines "held \<equiv> held_slots shards" and "cfg \<equiv> lrc_config_new k l g"
  shows "rebuild_data c codec shards =
    (if card (lrc_still cfg held) \<le> card (lrc_globals cfg held) then Inr data else Inl DecodingFailed)"
proof -
  note n = lrc_sizes [OF b chk]
  have len: "length stripe = k + l + g" and dk: "take k stripe = data" and k: "0 < k"
    and lens: "\<forall>s \<in> set stripe. length s = L"
    using st by (simp_all add: lrc_stripe_def data_ok_def)
  have rn: "length shards = k + l + g" using gn len by (simp add: genuine_def)
  obtain first r where f: "flatten shards = first # r"
    using av k flatten_Nil_iff [of shards] by (cases "flatten shards") auto
  have L: "length first = L" by (rule genuine_first [OF gn lens f])
  show ?thesis
  proof (cases "data_present codec shards")
    case True
    then have all: "list_all (\<lambda>s. s \<noteq> None) (take k shards)" by (simp add: data_present_def n)
    then have "flatten (take k shards) = data" using genuine_flatten_take [OF gn, of k] dk len by simp
    moreover have "i \<in> held" if "i < k" for i
      using all that rn by (auto simp: list_all_length held_def held_slots_def)
    then have "lrc_still cfg held = {}" by (auto simp: lrc_still_def cfg_def)
    ultimately show ?thesis using True rn av f by (simp add: rebuild_data_def Let_def n)
  next
    case False
    then show ?thesis
      using rn av f L b rebuild_lrc_eq [OF st gn]
      by (simp add: rebuild_data_def Let_def n held_def cfg_def)
  qed
qed

interpretation lrc: shard_code lrc_ok lrc_enough
proof
  fix c codec
  assume "lrc_ok c codec"
  then obtain k l g where b: "codec_backend codec = Lrc_backend (lrc_config_new k l g)"
    and chk: "check_lrc k l g = Inr ()" and rs: "rs_ok c k g" by (auto simp: lrc_ok_def)
  note n = lrc_sizes [OF b chk]
  show "0 < data_shards codec" using chk by (simp add: n check_lrc_Inr)
  fix L data
  assume "data_ok (data_shards codec) L data"
  then have d: "data_ok k L data" by (simp add: n)
  obtain parity where p: "encode_shards c codec data = Inr (data @ parity)" "length parity = l + g"
    "\<forall>p \<in> set parity. length p = L" and st: "lrc_stripe c k l g L data (data @ parity)"
    by (rule lrc_encode_shards [OF b chk rs d])
  then show "\<exists>parity. encode_shards c codec data = Inr (data @ parity) \<and>
      length parity = parity_shards codec \<and> (\<forall>p \<in> set parity. length p = L)"
    using n by auto
  fix stripe shards
  assume "encode_shards c codec data = Inr stripe" "genuine stripe shards"
  then have gn: "genuine (data @ parity) shards" using p(1) by simp
  show "rebuild_data c codec shards = Inr data" if "lrc_enough codec (held_slots shards)"
  proof -
    have "k \<le> present shards" using that b by (simp add: lrc_enough_def n present_card)
    then show ?thesis
      using lrc_rebuild [OF b chk st gn] that b by (simp add: lrc_enough_def)
  qed
  fix dd
  assume r: "rebuild_data c codec shards = Inr dd"
  then have "k \<le> present shards"
    by (auto simp: rebuild_data_def Let_def n not_less split: if_splits)
  then show "dd = data" using lrc_rebuild [OF b chk st gn] r by (auto split: if_splits)
qed

section \<open>How much may be lost\<close>

text \<open>The loss of \<open>g\<close> shards, wherever they were, leaves enough.\<close>

lemma lrc_enough_after:
  assumes b: "codec_backend codec = Lrc_backend (lrc_config_new k l g)"
    and chk: "check_lrc k l g = Inr ()" and n: "length shards = k + l + g"
    and lost: "k + l \<le> present shards"
  shows "lrc_enough codec (held_slots shards)"
proof -
  let ?cfg = "lrc_config_new k l g" and ?h = "held_slots shards" and ?n = "k + l + g"
  have hs: "?h \<subseteq> {..<?n}" using n by (auto simp: held_slots_def)
  then have fin: "finite ?h" by (rule finite_subset) simp
  have "?h = (?h \<inter> {..<k + l}) \<union> lrc_globals ?cfg ?h" by (auto simp: lrc_globals_def)
  then have "card ?h = card (?h \<inter> {..<k + l}) + card (lrc_globals ?cfg ?h)"
    using fin by (subst card_Un_disjoint [symmetric]) (auto simp: lrc_globals_def)
  moreover have "card (lrc_still ?cfg ?h) + card (?h \<inter> {..<k + l}) \<le> k + l"
  proof -
    have "lrc_still ?cfg ?h \<union> (?h \<inter> {..<k + l}) \<subseteq> {..<k + l}" by (auto simp: lrc_still_def)
    then have "card (lrc_still ?cfg ?h \<union> (?h \<inter> {..<k + l})) \<le> k + l"
      using card_mono [of "{..<k + l}"] by fastforce
    moreover have "finite (lrc_still ?cfg ?h)" by (simp add: lrc_still_def)
    ultimately show ?thesis
      using fin by (subst card_Un_disjoint [symmetric]) (auto simp: lrc_still_def)
  qed
  moreover have "k + l \<le> card ?h" using lost by (simp add: present_card)
  ultimately show ?thesis
    using b lrc_sizes(1) [OF b chk] by (simp add: lrc_enough_def)
qed

lemma lrc_reconstruct:
  assumes ok: "lrc_ok c codec" and e: "encode_inner c codec bs = Inr stripe"
    and g: "genuine stripe shards" and en: "lrc_enough codec (held_slots shards)"
    and m: "distinct missing" "\<forall>i \<in> set missing. i < length stripe"
  shows "reconstruct_shards c codec shards missing = Inr (map (\<lambda>i. stripe ! i) missing)"
proof -
  obtain cfg where b: "codec_backend codec = Lrc_backend cfg" using ok by (auto simp: lrc_ok_def)
  note en' = lrc.encoded [OF ok e]
  have av: "data_shards codec \<le> present shards" using en b by (simp add: lrc_enough_def present_card)
  then obtain first r where f: "flatten shards = first # r"
    using lrc.ok_pos [OF ok] flatten_Nil_iff [of shards] by (cases "flatten shards") auto
  have "reconstruct_shards c codec shards missing = take_shards stripe missing"
    using av f b lrc.complete [OF ok en'(4) en'(1) g en] en'(1)
    by (simp add: reconstruct_shards_def Let_def)
  then show ?thesis using take_shards_distinct m by simp
qed

end
