(* ===== verification/Erasure_Checked.thy ===== *)
theory Erasure_Checked
  imports Erasure_Lrc
begin

text \<open>
  What a verified decode checks, whatever the coders compute: the data shards it was given are
  passed on as they are, and each rebuilt one has its recorded checksum or is borne out by a
  parity shard the decode did not use.
\<close>

text \<open>ISA-L writes only the shards named as erased.\<close>

definition isal_keeps :: "coders \<Rightarrow> bool" where
  "isal_keeps c \<longleftrightarrow>
     (\<forall>k m data parity er d p. isal_decode c k m data parity er = Some (d, p) \<longrightarrow>
        length d = length data \<and> (\<forall>i < length data. i \<notin> set er \<longrightarrow> d ! i = data ! i))"

definition keeps_given :: "bytes option list \<Rightarrow> bytes list \<Rightarrow> nat \<Rightarrow> bool" where
  "keeps_given shards d k \<longleftrightarrow> length d = k \<and> (\<forall>i < k. \<forall>s. shards ! i = Some s \<longrightarrow> d ! i = s)"

lemma all_rebuilt_Inr: "all_rebuilt xs = Inr d \<Longrightarrow> xs = map Some d"
  by (induction xs arbitrary: d rule: all_rebuilt.induct) (auto simp: and_then_eq_Inr_iff)

lemma flatten_keeps:
  assumes "list_all (\<lambda>s. s \<noteq> None) (take k shards)" "k \<le> length shards"
  shows "keeps_given shards (flatten (take k shards)) k"
proof -
  have "filter (\<lambda>s. s \<noteq> None) (take k shards) = take k shards"
    using assms(1) by (simp add: list_all_iff)
  then show ?thesis using assms(2) by (simp add: keeps_given_def flatten_def)
qed

lemma isal_decode_keeps:
  assumes keeps: "isal_keeps c" and k: "k \<le> length shards"
    and miss: "\<forall>i \<in> set missing. shards ! i = None"
    and r: "isal_backend_decode c k m shards L missing = Inr decoded"
  shows "keeps_given shards (take k decoded) k"
proof (cases "list_all (\<lambda>s. s \<noteq> None) (take k shards)")
  case True
  have "filter (\<lambda>s. s \<noteq> None) (take k shards) = take k shards" using True by (simp add: list_all_iff)
  then have "take k decoded = flatten (take k shards)"
    using True r k by (auto simp: isal_backend_decode_def Let_def and_then_eq_Inr_iff flatten_def split: if_splits)
  then show ?thesis using flatten_keeps [OF True k] by simp
next
  case False
  let ?er = "filter (\<lambda>i. shards ! i = None \<or> i \<in> set missing) [0..<length shards]"
  let ?d = "map (or_zeros L) (take k shards)"
  obtain d p where d: "isal_decode c k m ?d (map (or_zeros L) (take m (drop k shards))) ?er = Some (d, p)"
    "decoded = d @ p"
    using False r by (auto simp: isal_backend_decode_def Let_def split: if_splits option.splits)
  have dk: "length d = k" "\<forall>i < k. i \<notin> set ?er \<longrightarrow> d ! i = ?d ! i"
    using keeps d(1) k unfolding isal_keeps_def by fastforce+
  have "d ! i = s" if "i < k" "shards ! i = Some s" for i s
  proof -
    have "i \<notin> set ?er" using that(2) miss by auto
    then show ?thesis using dk(2) that k by (simp add: or_zeros_def)
  qed
  then show ?thesis using d(2) dk(1) by (simp add: keeps_given_def)
qed

lemma update_missing: "shards ! x = None \<Longrightarrow> shards ! i = Some y \<Longrightarrow> r[x := v] ! i = r ! i"
  by (cases "x = i") auto

lemma recover_local_keeps:
  assumes "\<forall>i \<in> set xs. shards ! i = None" "length r = n"
    "\<forall>i < n. shards ! i \<noteq> None \<longrightarrow> r ! i = None"
  shows "length (foldl (recover_local cfg shards L) r xs) = n \<and>
    (\<forall>i < n. shards ! i \<noteq> None \<longrightarrow> foldl (recover_local cfg shards L) r xs ! i = None)"
  using assms
proof (induction xs arbitrary: r)
  case (Cons x xs)
  have "length (recover_local cfg shards L r x) = n"
    "\<forall>i < n. shards ! i \<noteq> None \<longrightarrow> recover_local cfg shards L r x ! i = None"
    using Cons.prems
    by (auto simp: recover_local_def update_missing [of shards x] split: sum.split option.split)
  then show ?case using Cons by simp
qed simp

lemma put_recovered_keeps:
  assumes "\<forall>i \<in> fst ` set ps. shards ! i = None" "\<forall>i < length r. shards ! i \<noteq> None \<longrightarrow> r ! i = None"
  shows "\<forall>i < length r. shards ! i \<noteq> None \<longrightarrow> put_recovered r ps ! i = None"
  using assms
proof (induction ps arbitrary: r)
  case (Cons p ps)
  obtain j s where p: "p = (j, s)" by (cases p)
  have "put_recovered r (p # ps) = put_recovered (r[j := Some s]) ps" by (simp add: put_recovered_def p)
  moreover have "\<forall>i < length r. shards ! i \<noteq> None \<longrightarrow> r[j := Some s] ! i = None"
    using Cons.prems p by (auto simp: update_missing [of shards j])
  ultimately show ?case using Cons.IH [of "r[j := Some s]"] Cons.prems(1) by simp
qed (simp add: put_recovered_def)

lemma rebuild_lrc_keeps:
  assumes n: "length shards = n" "lrc_data_shards cfg \<le> n"
    and r: "rebuild_lrc c cfg n shards L = Inr d"
  shows "keeps_given shards d (lrc_data_shards cfg)"
proof -
  let ?k = "lrc_data_shards cfg"
  define R where "R = foldl (recover_local cfg shards L) (replicate n None)
    (filter (\<lambda>i. i < ?k) (missing_slots shards))"
  define S where "S = filter (\<lambda>i. shards ! i = None \<and> R ! i = None) [0..<?k]"
  have R: "length R = n" "\<forall>i < n. shards ! i \<noteq> None \<longrightarrow> R ! i = None"
    using recover_local_keeps [of "filter (\<lambda>i. i < ?k) (missing_slots shards)" shards
        "replicate n None" n cfg L]
    by (auto simp: R_def missing_slots_def)
  obtain rec where rec: "rec = R \<or> (\<exists>global. rec = put_recovered R (zip S global))"
    and d: "all_rebuilt (take ?k (or_slots rec shards)) = Inr d"
    using r unfolding rebuild_lrc_def Let_def R_def [symmetric] S_def [symmetric]
    by (auto simp: and_then_eq_Inr_iff split: if_splits sum.splits)
  have "fst ` set (zip S global) \<subseteq> set S" for global :: "bytes list"
    by (auto dest: set_zip_leftD)
  then have "\<forall>i \<in> fst ` set (zip S global). shards ! i = None" for global :: "bytes list"
    by (force simp: S_def)
  then have rn: "length rec = n" "\<forall>i < n. shards ! i \<noteq> None \<longrightarrow> rec ! i = None"
    using rec R put_recovered_keeps [of _ shards R] by auto
  have m: "take ?k (or_slots rec shards) = map Some d" by (rule all_rebuilt_Inr [OF d])
  then have len: "length d = ?k" using rn(1) n(2) by (metis length_map length_or_slots length_take min_absorb2)
  moreover have "d ! i = s" if "i < ?k" "shards ! i = Some s" for i s
  proof -
    have "Some (d ! i) = take ?k (or_slots rec shards) ! i" using m len that(1) by simp
    also have "\<dots> = Some s" using rn that n by (simp add: nth_or_slots)
    finally show ?thesis by simp
  qed
  ultimately show ?thesis by (simp add: keeps_given_def)
qed

lemma rebuild_keeps:
  assumes keeps: "isal_keeps c" and r: "rebuild_data c codec shards = Inr d"
  shows "keeps_given shards d (data_shards codec)"
proof -
  let ?k = "data_shards codec"
  have n: "length shards = total_shards codec" "?k \<le> length shards"
    using r by (auto simp: rebuild_data_def Let_def total_shards_def split: if_splits)
  obtain first rest where f: "flatten shards = first # rest"
    using r by (auto simp: rebuild_data_def Let_def split: if_splits list.splits)
  show ?thesis
  proof (cases "data_present codec shards")
    case True
    then have "d = flatten (take ?k shards)"
      using r f by (auto simp: rebuild_data_def Let_def split: if_splits)
    then show ?thesis using flatten_keeps True n(2) by (simp add: data_present_def)
  next
    case False
    show ?thesis
    proof (cases "codec_backend codec")
      case (Mds_backend kb mb)
      then have kb: "kb = ?k" by (simp add: data_shards_def)
      obtain decoded where dec: "isal_backend_decode c ?k mb shards (length first)
          (missing_slots shards) = Inr decoded" and d: "d = take ?k decoded"
        using r f False Mds_backend kb
        by (auto simp: rebuild_data_def Let_def split: if_splits sum.splits)
      have "\<forall>i \<in> set (missing_slots shards). shards ! i = None" by (simp add: missing_slots_def)
      then show ?thesis unfolding d by (rule isal_decode_keeps [OF keeps n(2) _ dec])
    next
      case (Lrc_backend cfg)
      then have k: "lrc_data_shards cfg = ?k" by (simp add: data_shards_def)
      have "rebuild_lrc c cfg (total_shards codec) shards (length first) = Inr d"
        using r f False Lrc_backend by (auto simp: rebuild_data_def Let_def split: if_splits)
      then show ?thesis using rebuild_lrc_keeps [of shards] n k by metis
    qed
  qed
qed

lemma check_recorded_Some:
  assumes "check_recorded c data recorded is u = Some v"
  shows "(\<forall>i \<in> set is. slot recorded i = None \<or> slot recorded i = Some (crc32c c (data ! i))) \<and>
    (v \<longleftrightarrow> u \<or> (\<exists>i \<in> set is. slot recorded i = None))"
  using assms by (induction "is" arbitrary: u) (auto split: option.splits if_splits)

text \<open>A rebuilt data shard is the one written, as far as the stripe can tell.\<close>

definition borne_out ::
    "coders \<Rightarrow> erasure_codec \<Rightarrow> bytes option list \<Rightarrow> nat option list \<Rightarrow> bytes list \<Rightarrow> nat \<Rightarrow> bool" where
  "borne_out c codec shards recorded d i \<longleftrightarrow>
     slot recorded i = Some (crc32c c (d ! i)) \<or>
     slot recorded i = None \<and>
     (\<exists>stripe p. encode_shards c codec d = Inr stripe \<and> data_shards codec \<le> p \<and>
        p < total_shards codec \<and> shards ! p = Some (stripe ! p))"

lemma check_rebuilt_Verified:
  assumes "check_rebuilt c codec shards d rebuilt chosen recorded = Verified" "i \<in> set rebuilt"
  shows "borne_out c codec shards recorded d i"
proof -
  obtain v where v: "check_recorded c d recorded rebuilt False = Some v"
    using assms(1) by (auto simp: check_rebuilt_def split: option.splits)
  note cr = check_recorded_Some [OF v]
  show ?thesis
  proof (cases v)
    case False
    then show ?thesis using cr assms(2) by (auto simp: borne_out_def)
  next
    case True
    then obtain stripe p where "encode_shards c codec d = Inr stripe"
      "p \<in> {data_shards codec..<total_shards codec}" "shards ! p = Some (stripe ! p)"
      using assms(1) v
      by (auto simp: check_rebuilt_def Let_def list_ex_iff split: if_splits sum.splits)
    then show ?thesis using cr assms(2) by (auto simp: borne_out_def)
  qed
qed

lemma decode_verified_checked:
  assumes keeps: "isal_keeps c" and r: "decode_verified c codec shards len recorded = Inr x"
  shows "\<exists>d. x = join_data d len \<and> keeps_given shards d (data_shards codec) \<and>
    (\<forall>i < data_shards codec. shards ! i = None \<longrightarrow> borne_out c codec shards recorded d i)"
proof (cases "data_present codec shards")
  case True
  then have "x = join_data (flatten (take (data_shards codec) shards)) len"
    using r by (auto simp: decode_verified_def Let_def split: if_splits)
  moreover have "shards ! i \<noteq> None" if "i < data_shards codec" for i
    using True that by (auto simp: data_present_def list_all_length)
  moreover have "keeps_given shards (flatten (take (data_shards codec) shards)) (data_shards codec)"
    by (rule flatten_keeps) (use True in \<open>simp_all add: data_present_def\<close>)
  ultimately show ?thesis by blast
next
  case False
  have pre: "length shards = total_shards codec" "data_shards codec \<le> present shards"
    using r False by (auto simp: decode_verified_def Let_def not_less split: if_splits)
  let ?rebuilt = "filter (\<lambda>i. shards ! i = None) [0..<data_shards codec]"
  obtain d chosen where x: "x = join_data d len"
    and a: "attempt c codec shards recorded ?rebuilt chosen = Some (Verified, d)"
    using r try_choices_Inl
    by (fastforce simp: decode_verified_eq [OF pre(1) False pre(2)] Let_def split: sum.splits prod.splits)
  have reb: "rebuild_data c codec (subset_of (data_shards codec) shards chosen) = Inr d"
    and chk: "check_rebuilt c codec shards d ?rebuilt chosen recorded = Verified"
    using a by (auto simp: attempt_def split: sum.splits)
  have "keeps_given shards d (data_shards codec)"
    using rebuild_keeps [OF keeps reb] pre(1)
    by (auto simp: keeps_given_def total_shards_def)
  moreover have "borne_out c codec shards recorded d i"
    if "i < data_shards codec" "shards ! i = None" for i
    using check_rebuilt_Verified [OF chk] that by simp
  ultimately show ?thesis using x by blast
qed

end
