(* ===== verification/Xor_Code.thy ===== *)
theory Xor_Code
  imports Erasure_Lrc
begin

text \<open>
  A concrete code with one parity shard, the exclusive or of the data shards: what ISA-L's matrix
  gives for \<open>m = 1\<close>. It meets the hypotheses made of the third-party coders.
\<close>

definition xor_isal_decode ::
    "nat \<Rightarrow> bytes list \<Rightarrow> bytes list \<Rightarrow> nat list \<Rightarrow> (bytes list \<times> bytes list) option" where
  "xor_isal_decode k data parity erasures =
     (let L = length (hd data) in
      case erasures of
        [] \<Rightarrow> Some (data, parity)
      | [i] \<Rightarrow>
          if i < k
          then Some (data[i := xor_into (xor_slices (take i data @ drop (Suc i) data) L) (hd parity)], parity)
          else Some (data, [xor_slices data L])
      | _ \<Rightarrow> None)"

definition xor_rs_decode ::
    "nat \<Rightarrow> nat \<Rightarrow> (nat \<times> bytes) list \<Rightarrow> (nat \<times> bytes) list \<Rightarrow> (nat \<Rightarrow> bytes option) option" where
  "xor_rs_decode k L origs recs =
     Some (\<lambda>i. case map_of recs 0 of
                 None \<Rightarrow> None
               | Some p \<Rightarrow>
                   Some (xor_into
                     (xor_slices (map (\<lambda>j. the (map_of origs j)) (filter (\<lambda>j. j \<noteq> i) [0..<k])) L) p))"

definition xor_coders :: coders where
  "xor_coders =
     \<lparr>isal_with_reed_solomon = \<lambda>k m. m = 1,
      isal_encode = \<lambda>k m data.
        if m = 1 \<and> data \<noteq> [] then Some [xor_slices data (length (hd data))] else None,
      isal_decode = \<lambda>k m. xor_isal_decode k,
      rs_encode = \<lambda>k g L data. if g = 1 then Some [xor_slices data L] else None,
      rs_decoder_new = \<lambda>k g L. g = 1,
      rs_decode = \<lambda>k g. xor_rs_decode k,
      crc32c = \<lambda>bs. sum_list (map unat bs) mod 2 ^ 32\<rparr>"

lemma xor_isal_shape: "isal_shape xor_coders"
  unfolding isal_shape_def
proof (intro allI impI)
  fix k m :: nat and data :: "bytes list" and L parity
  assume a: "length data = k \<and> (\<forall>s \<in> set data. length s = L) \<and>
    isal_encode xor_coders k m data = Some parity"
  then have "isal_encode xor_coders k m data = Some parity" by blast
  then have "data \<noteq> []" "m = 1" "parity = [xor_slices data (length (hd data))]"
    by (simp_all add: xor_coders_def split: if_splits)
  moreover have "length (hd data) = L" using a \<open>data \<noteq> []\<close> by simp
  ultimately show "length parity = m \<and> (\<forall>p \<in> set parity. length p = L)" by simp
qed

lemma xor_isal_repairs:
  assumes k: "length data = k" "0 < k" and lens: "\<forall>s \<in> set data. length s = L"
  shows "isal_repairs xor_coders k 1 L data [xor_slices data L]"
  unfolding isal_repairs_def
proof (intro allI impI)
  fix data' parity' :: "bytes list" and er :: "nat list"
  let ?p = "xor_slices data L"
  assume a: "length data' = k \<and> length parity' = 1 \<and>
    (\<forall>s \<in> set data' \<union> set parity'. length s = L) \<and> sorted_wrt (<) er \<and> length er \<le> 1 \<and>
    (\<forall>i < k + 1. i \<notin> set er \<longrightarrow> (data' @ parity') ! i = (data @ [?p]) ! i)"
  then have len: "length data' = k" and agree: "\<And>i. i < k + 1 \<Longrightarrow> i \<notin> set er \<Longrightarrow>
      (data' @ parity') ! i = (data @ [?p]) ! i" by auto
  obtain q where q: "parity' = [q]" using a by (metis One_nat_def length_0_conv length_Suc_conv)
  have L: "length (hd data') = L" using a k(2) by (metis Un_iff hd_in_set length_greater_0_conv)
  have d: "data' ! i = data ! i" if "i < k" "i \<notin> set er" for i
    using agree [of i] that len k(1) by (simp add: nth_append)
  have p: "q = ?p" if "k \<notin> set er" using agree [of k] that len k(1) q by (simp add: nth_append)
  have dec: "isal_decode xor_coders k 1 data' parity' er = xor_isal_decode k data' parity' er"
    by (simp add: xor_coders_def)
  show "isal_decode xor_coders k 1 data' parity' er = Some (data, [?p])"
  proof (cases er)
    case Nil
    then have "data' = data" using d len k(1) by (auto intro: nth_equalityI)
    then show ?thesis using Nil p q dec by (simp add: xor_isal_decode_def)
  next
    case (Cons i r)
    then have er: "er = [i]" using a by simp
    show ?thesis
    proof (cases "i < k")
      case True
      have oth: "take i data' = take i data" "drop (Suc i) data' = drop (Suc i) data"
        using d er True len k(1) by (auto intro: nth_equalityI)
      have "data'[i := data ! i] = data"
        by (rule nth_equalityI) (use d er len k(1) True in \<open>simp_all add: nth_list_update\<close>)
      moreover have "q = ?p" using p er True by simp
      ultimately show ?thesis
        using er True dec q L oth xor_recover [OF lens, of i] k(1) by (simp add: xor_isal_decode_def)
    next
      case False
      then have "data' = data" using d er len k(1) by (auto intro: nth_equalityI)
      then show ?thesis using er False dec L by (simp add: xor_isal_decode_def)
    qed
  qed
qed

lemma xor_isal_ok: "0 < k \<Longrightarrow> isal_ok xor_coders k 1"
  unfolding isal_ok_def
proof (intro conjI allI impI)
  fix L and data :: "bytes list"
  assume k: "0 < k" and a: "length data = k \<and> 32 \<le> L \<and> (\<forall>s \<in> set data. length s = L)"
  then have "data \<noteq> []" by auto
  then have "isal_encode xor_coders k 1 data = Some [xor_slices data L]"
    using a by (simp add: xor_coders_def)
  then show "\<exists>parity. isal_encode xor_coders k 1 data = Some parity \<and> length parity = 1 \<and>
      (\<forall>p \<in> set parity. length p = L) \<and> isal_repairs xor_coders k 1 L data parity"
    using xor_isal_repairs [of data k L] a k by simp
qed (simp add: xor_coders_def)

lemma xor_rs_restores:
  assumes k: "length data = k" and lens: "\<forall>s \<in> set data. length s = L"
  shows "rs_restores xor_coders k 1 L data [xor_slices data L]"
  unfolding rs_restores_def
proof (intro allI impI)
  fix origs recs :: "(nat \<times> bytes) list"
  let ?p = "xor_slices data L"
  assume a: "set origs \<subseteq> {(i, data ! i) | i. i < k} \<and> set recs \<subseteq> {(j, [?p] ! j) | j. j < 1} \<and>
    distinct (map fst origs) \<and> distinct (map fst recs) \<and> k \<le> length origs + length recs"
  have rec: "set (map fst recs) \<subseteq> {0}" using a by auto
  have rl: "length recs \<le> 1"
    using a rec distinct_card [of "map fst recs"] card_mono [OF _ rec] by simp
  have ol: "card (fst ` set origs) = length origs" using a distinct_card [of "map fst origs"] by simp
  have restored: "xor_rs_decode k L origs recs = Some f \<Longrightarrow> f i = Some (data ! i)"
    if i: "i < k" "i \<notin> fst ` set origs" for i f
  proof -
    assume f: "xor_rs_decode k L origs recs = Some f"
    have sub: "fst ` set origs \<subseteq> {..<k} - {i}" using a i(2) by auto
    then have "length origs \<le> k - 1" using ol card_mono [OF _ sub] i(1) by simp
    then have l1: "length recs = 1" "length origs = k - 1" using a rl i(1) by linarith+
    then have all: "fst ` set origs = {..<k} - {i}"
      using card_subset_eq [OF _ sub] ol i(1) by simp
    have origs: "the (map_of origs j) = data ! j" if "j < k" "j \<noteq> i" for j
    proof -
      have "j \<in> fst ` set origs" using all that by simp
      then have "(j, data ! j) \<in> set origs" using a by force
      then show ?thesis using a by simp
    qed
    obtain x where x: "recs = [x]" using l1(1) by (metis One_nat_def length_0_conv length_Suc_conv)
    then have "map_of recs 0 = Some ?p" using a by (cases x) auto
    moreover have "map (\<lambda>j. the (map_of origs j)) (filter (\<lambda>j. j \<noteq> i) [0..<k]) =
        take i data @ drop (Suc i) data"
    proof -
      have "map (\<lambda>j. the (map_of origs j)) (filter (\<lambda>j. j \<noteq> i) [0..<k]) =
          map (\<lambda>j. data ! j) (filter (\<lambda>j. j \<noteq> i) [0..<k])"
        by (rule map_cong [OF refl]) (use origs in auto)
      then show ?thesis using i(1) k by (simp add: filter_neq_upt map_nth_upt del: upt_Suc)
    qed
    ultimately show "f i = Some (data ! i)"
      using f xor_recover [OF lens, of i] i(1) k by (auto simp: xor_rs_decode_def)
  qed
  then show "\<exists>restored. rs_decode xor_coders k 1 L origs recs = Some restored \<and>
      (\<forall>i < k. i \<notin> fst ` set origs \<longrightarrow> restored i = Some (data ! i))"
    by (simp add: xor_coders_def xor_rs_decode_def)
qed

lemma xor_rs_ok: "rs_ok xor_coders k 1"
  unfolding rs_ok_def
proof (intro allI impI conjI)
  fix L and data :: "bytes list"
  assume a: "length data = k \<and> 0 < L \<and> even L \<and> (\<forall>s \<in> set data. length s = L)"
  show "rs_decoder_new xor_coders k 1 L" by (simp add: xor_coders_def)
  show "\<exists>global. rs_encode xor_coders k 1 L data = Some global \<and> length global = 1 \<and>
      (\<forall>p \<in> set global. length p = L) \<and> rs_restores xor_coders k 1 L data global"
    using xor_rs_restores [of data k L] a by (simp add: xor_coders_def)
qed

end
