(* ===== verification/Erasure_Properties.thy ===== *)
theory Erasure_Properties
  imports Erasure_Checked Xor_Code
    "HOL-Library.Code_Target_Nat" "HOL-Library.Code_Target_Int"
begin

text \<open>What the erasure codec promises its callers, over the codes both backends implement.\<close>

section \<open>How many choices there are\<close>

lemma length_combinations: "length (combinations n r) \<le> n choose r"
proof -
  have "distinct (combinations n r)" using combinations_choices(2) strict_sorted_iff by blast
  then have "length (combinations n r) = card {xs. is_choice n r xs}"
    using distinct_card combinations_choices(1) by metis
  also have "\<dots> = card (set ` {xs. is_choice n r xs})"
    by (rule card_image [symmetric])
      (auto simp: inj_on_def is_choice_def strict_sorted_iff intro: sorted_distinct_set_unique)
  also have "\<dots> \<le> card {A. A \<subseteq> {..<n} \<and> card A = r}"
    by (rule card_mono) (auto simp: is_choice_def strict_sorted_iff distinct_card)
  also have "\<dots> = n choose r" by (simp add: n_subsets)
  finally show ?thesis .
qed

lemma length_choices: "length (choices_of parity r) \<le> 2 ^ length parity"
proof -
  let ?n = "length parity"
  have "length (choices_of parity r) = (\<Sum>u \<in> {r..<?n + 1}. length (combinations ?n u))"
    by (simp add: choices_of_def length_concat comp_def interv_sum_list_conv_sum_set_nat del: upt_Suc)
  also have "\<dots> \<le> (\<Sum>u \<in> {r..<?n + 1}. ?n choose u)" by (intro sum_mono length_combinations)
  also have "\<dots> \<le> (\<Sum>u \<le> ?n. ?n choose u)" by (intro sum_mono2) auto
  also have "\<dots> = 2 ^ ?n" by (rule choose_row_sum)
  finally show ?thesis .
qed

text \<open>The last resort of a verified decode is every parity shard read.\<close>

lemma all_parity_tried:
  assumes "r \<le> length parity"
  shows "parity \<in> set (choices_of parity r)"
proof -
  have "[0..<length parity] \<in> set (combinations (length parity) (length parity))"
    by (simp add: combinations_choices(1) is_choice_def)
  moreover have "map (\<lambda>c. parity ! c) [0..<length parity] = parity" by (rule map_nth)
  ultimately show ?thesis using assms by (force simp: choices_of_def)
qed

section \<open>LRC\<close>

lemma lrc_verified:
  assumes ok: "lrc_ok c codec" and e: "encode_inner c codec bs = Inr stripe"
    and g: "genuine stripe shards" and rec: "recorded_ok c stripe recorded"
    and all: "\<forall>i < data_shards codec. shards ! i = None \<longrightarrow> slot recorded i \<noteq> None"
    and en: "lrc_enough codec (held_slots shards)" and few: "parity_shards codec \<le> 8"
  shows "decode_verified c codec shards (length bs) recorded = Inr bs"
proof -
  let ?k = "data_shards codec" and ?n = "total_shards codec"
  let ?rebuilt = "filter (\<lambda>i. shards ! i = None) [0..<?k]"
  let ?parity = "filter (\<lambda>i. shards ! i \<noteq> None) [?k..<?n]"
  have n: "length shards = ?n" "?k \<le> ?n"
    using g lrc.encoded(2) [OF ok e] by (simp_all add: genuine_def total_shards_def)
  have av: "?k \<le> present shards"
    using en by (auto simp: lrc_enough_def present_card split: codec_backend.splits)
  then have "length ?rebuilt \<le> length ?parity" using rebuilt_parity_count [OF n] by linarith
  then have "?parity \<in> set (choices_of ?parity (length ?rebuilt))" by (rule all_parity_tried)
  then obtain j where j: "j < length (choices_of ?parity (length ?rebuilt))"
    "choices_of ?parity (length ?rebuilt) ! j = ?parity"
    unfolding in_set_conv_nth by blast
  have "length ?parity \<le> length [?k..<?n]" by (rule length_filter_le)
  then have "length ?parity \<le> 8" using few by (simp add: total_shards_def)
  then have "2 ^ length ?parity \<le> (2 :: nat) ^ 8" by (intro power_increasing) simp_all
  then have "j < MAX_DECODE_ATTEMPTS"
    using j(1) length_choices [of ?parity "length ?rebuilt"] by (simp add: MAX_DECODE_ATTEMPTS_def)
  moreover have "subset_of ?k shards ?parity = shards"
    by (rule nth_equalityI) (use n in auto)
  then have "lrc_enough codec (held_slots (subset_of ?k shards ?parity))" using en by simp
  ultimately show ?thesis
    using lrc.decode_verified_found [OF ok e g rec av j(1) _ j(2)] all by auto
qed

text \<open>
  C32. An LRC stripe survives every loss of up to \<open>g\<close> shards, wherever they fall: the data is
  decoded, and repair gives back exactly the shards asked for. A verified read succeeds too, with
  the checksums recorded, for the profiles of at most eight parity shards.
\<close>

theorem lrc_survives_g_losses:
  assumes "codec_new c (erasure_config_lrc k l g) = Inr codec" "rs_ok c k g"
    and e: "encode_inner c codec bs = Inr stripe" and gn: "genuine stripe shards"
    and lost: "length stripe \<le> present shards + g"
  shows "decode c codec shards (length bs) = Inr bs \<and>
    (distinct missing \<and> (\<forall>i \<in> set missing. i < length stripe) \<longrightarrow>
       reconstruct_shards c codec shards missing = Inr (map (\<lambda>i. stripe ! i) missing)) \<and>
    (l + g \<le> 8 \<and> recorded_ok c stripe recorded \<and> (\<forall>i < k. slot recorded i \<noteq> None) \<longrightarrow>
       decode_verified c codec shards (length bs) recorded = Inr bs)"
proof -
  obtain b: "codec_backend codec = Lrc_backend (lrc_config_new k l g)"
    and chk: "check_lrc k l g = Inr ()"
    using assms(1) by (cases rule: codec_new_cases) (auto simp: erasure_config_lrc_def)
  have ok: "lrc_ok c codec" using b chk assms(2) by (auto simp: lrc_ok_def)
  note n = lrc_sizes [OF b chk]
  have len: "length stripe = k + l + g" using lrc.encoded(2) [OF ok e] n by simp
  then have ln: "length shards = k + l + g" using gn by (simp add: genuine_def)
  have en: "lrc_enough codec (held_slots shards)"
    by (rule lrc_enough_after [OF b chk ln]) (use lost len in linarith)
  show ?thesis
    using lrc.decode_enough [OF ok e gn en] lrc_reconstruct [OF ok e gn en, of missing]
      lrc_verified [OF ok e gn _ _ en, of recorded] n by auto
qed

text \<open>The shards of a stripe but those at the positions lost.\<close>

definition without :: "bytes list \<Rightarrow> nat set \<Rightarrow> bytes option list" where
  "without stripe lost = map (\<lambda>i. if i \<in> lost then None else Some (stripe ! i)) [0..<length stripe]"

lemma genuine_without [simp]: "genuine stripe (without stripe lost)"
  by (simp add: genuine_def without_def)

lemma held_without_lost: "held_slots (without stripe lost) = {..<length stripe} - lost"
  by (auto simp: held_slots_def without_def split: if_splits)

definition sample_lrc :: erasure_codec where
  "sample_lrc = \<lparr>codec_config = erasure_config_lrc 2 1 1,
     codec_backend = Lrc_backend (lrc_config_new 2 1 1)\<rparr>"

lemma sample_lrc_new: "codec_new xor_coders (erasure_config_lrc 2 1 1) = Inr sample_lrc"
  by (simp add: codec_new_def erasure_config_lrc_def check_lrc_def is_multiple_of_def MAX_SHARDS_def
      create_lrc_def lrc_new_def sample_lrc_def)

lemma sample_lrc_ok: "lrc_ok xor_coders sample_lrc"
  unfolding lrc_ok_def sample_lrc_def using xor_rs_ok [of 2]
  by (intro exI [of _ 2] exI [of _ 1]) (simp add: check_lrc_def is_multiple_of_def MAX_SHARDS_def)

theorem lrc_survives_g_losses_witness:
  "\<exists>stripe. encode_inner xor_coders sample_lrc [7, 8, 9] = Inr stripe \<and>
     decode xor_coders sample_lrc (without stripe {1}) 3 = Inr [7, 8, 9]"
proof -
  obtain stripe where e: "encode_inner xor_coders sample_lrc [7, 8, 9] = Inr stripe"
    and n: "length stripe = total_shards sample_lrc"
    using lrc.encode_total [OF sample_lrc_ok] by blast
  have len: "length stripe = 4"
    unfolding n by (simp add: sample_lrc_def total_shards_def data_shards_def parity_shards_def
        lrc_total_parity_def)
  then have "held_slots (without stripe {1}) = {0, 2, 3}" by (auto simp: held_without_lost)
  then have "length stripe \<le> present (without stripe {1}) + 1" by (simp add: present_card len)
  then show ?thesis
    using lrc_survives_g_losses [OF sample_lrc_new xor_rs_ok e genuine_without, of "{1}" "[]" "[]"] e
    by (simp add: numeral_3_eq_3)
qed

section \<open>The bound on attempts\<close>

lemma try_choices_verified_free:
  assumes "\<forall>x \<in> set (take MAX_DECODE_ATTEMPTS xs). tr x = None"
  shows "\<exists>t. try_choices tr xs 0 0 = Inr (t, 0)"
  by (rule try_choices_none) (use assms in auto)

lemma decode_local_blocked:
  assumes "0 < l" "l dvd k" "i < k" "j < k" "j \<noteq> i" "j div (k div l) = i div (k div l)" "slot refs j = None"
  shows "decode_local (lrc_config_new k l g) refs L i = Inr None"
proof -
  note gb = group_bounds [OF assms(1-3)]
  have "j \<in> set [i div (k div l) * (k div l)..<i div (k div l) * (k div l) + k div l]"
    using div_group [OF gb(1), of j i] assms(6) by simp
  then have "\<not> list_all (\<lambda>j. j = i \<or> slot refs j \<noteq> None)
      [i div (k div l) * (k div l)..<i div (k div l) * (k div l) + k div l]"
    using assms(5,7) unfolding list_all_iff by blast
  then show ?thesis using assms(3) by (simp add: decode_local_def local_group_of_def Let_def)
qed

lemma foldl_fixed: "\<forall>x \<in> set xs. f r x = r \<Longrightarrow> foldl f r xs = r"
  by (induction xs) auto

text \<open>Two data shards of one group, all that is missing of the data, do not come back without two
  global parity shards.\<close>

lemma rebuild_short:
  assumes b: "codec_backend codec = Lrc_backend (lrc_config_new k l g)"
    and chk: "check_lrc k l g = Inr ()" and n: "length sub = k + l + g"
    and p: "p < k" "q < k" "p \<noteq> q" "p div (k div l) = q div (k div l)"
    and lost: "{i. i < k \<and> sub ! i = None} = {p, q}"
    and glob: "present (take g (drop (k + l) sub)) < 2"
  shows "\<exists>e. rebuild_data c codec sub = Inl e"
proof -
  let ?cfg = "lrc_config_new k l g"
  note s = lrc_sizes [OF b chk]
  have l: "0 < l" "l dvd k" using chk by (simp_all add: check_lrc_Inr)
  define R where "R = replicate (k + l + g) (None :: bytes option)"
  have refs: "or_slots R sub = sub"
    by (rule nth_equalityI) (simp_all add: R_def n nth_or_slots)
  have sl: "slot sub p = None" "slot sub q = None" using lost by (auto simp: slot_def)
  have none: "decode_local ?cfg sub L i = Inr None" if "i \<in> {p, q}" for L i
    using that decode_local_blocked [OF l p(1) p(2) _ _ sl(2)] decode_local_blocked [OF l p(2) p(1) _ _ sl(1)]
      p(3,4) by auto
  have "set (filter (\<lambda>i. i < k) (missing_slots sub)) = {p, q}"
    unfolding lost [symmetric] using n by (auto simp: missing_slots_def)
  then have rec: "foldl (recover_local ?cfg sub L) R (filter (\<lambda>i. i < k) (missing_slots sub)) = R" for L
    by (intro foldl_fixed) (simp add: recover_local_def refs none)
  define S where "S = filter (\<lambda>i. sub ! i = None \<and> R ! i = None) [0..<k]"
  have S: "set S = {p, q}" "distinct S" unfolding lost [symmetric] by (auto simp: S_def R_def)
  then have S2: "length S = 2" "S \<noteq> []" using p(3) distinct_card [OF S(2)] by auto
  have "missing_slots (take k sub) = S"
    unfolding missing_slots_def S_def by (rule filter_cong) (use n in \<open>auto simp: R_def min_def\<close>)
  then have "present (take k sub) + 2 = k" using present_missing [of "take k sub"] S2(1) n by simp
  then have few: "present (take k sub @ take g (drop (k + l) sub)) < k" using glob by simp
  have "lrc_backend_decode c ?cfg sub L S =
      Inl (InsufficientShards (present (take k sub @ take g (drop (k + l) sub))) k)" for L
    using lrc_local_pass_none [of S ?cfg sub L "[]" S] none S S2(2) n few
    by (simp add: lrc_backend_decode_def Let_def)
  then have "rebuild_lrc c ?cfg (k + l + g) sub L = Inl DecodingFailed" for L
    using S2(2) by (simp add: rebuild_lrc_def Let_def R_def [symmetric] rec S_def [symmetric] refs)
  moreover have "\<not> data_present codec sub"
    using sl(1) p(1) n by (auto simp: data_present_def list_all_length s slot_def)
  ultimately show ?thesis
    using b s n by (auto simp: rebuild_data_def Let_def split: list.split)
qed

lemma pairs_before_the_last:
  "list_all (\<lambda>cs. cs \<noteq> [24, 25]) (take MAX_DECODE_ATTEMPTS (combinations 26 2))"
  by code_simp

lemma number_of_pairs: "length (combinations 26 2) = 325"
  by code_simp

lemma first_attempts:
  fixes parity :: "nat list"
  assumes "length parity = 26" "x \<in> set (take MAX_DECODE_ATTEMPTS (choices_of parity 2))"
  obtains a b where "a < b" "b < 26" "(a, b) \<noteq> (24, 25)" "x = [parity ! a, parity ! b]"
proof -
  let ?pairs = "combinations 26 2"
  have "[2..<length parity + 1] = 2 # [3..<length parity + 1]"
    using assms(1) upt_conv_Cons [of 2 "length parity + 1"] by (simp del: upt_rec_numeral)
  then have "choices_of parity 2 = map (map (\<lambda>c. parity ! c)) ?pairs @
      concat (map (\<lambda>u. map (map (\<lambda>c. parity ! c)) (combinations (length parity) u)) [3..<length parity + 1])"
    using assms(1) by (simp add: choices_of_def del: upt_rec_numeral upt_Suc)
  then have "take MAX_DECODE_ATTEMPTS (choices_of parity 2) =
      map (map (\<lambda>c. parity ! c)) (take MAX_DECODE_ATTEMPTS ?pairs)"
    by (simp add: number_of_pairs MAX_DECODE_ATTEMPTS_def take_map)
  then obtain cs where cs: "cs \<in> set (take MAX_DECODE_ATTEMPTS ?pairs)" "x = map (\<lambda>c. parity ! c) cs"
    using assms(2) by auto
  have "cs \<in> set ?pairs" using cs(1) by (rule in_set_takeD)
  then have c: "is_choice 26 2 cs" unfolding combinations_choices(1) by simp
  then obtain a b where ab: "cs = [a, b]"
    by (auto simp: is_choice_def length_Suc_conv numeral_2_eq_2)
  have "cs \<noteq> [24, 25]" using pairs_before_the_last cs(1) unfolding list_all_iff by blast
  then show thesis using that [of a b] cs(2) c ab by (auto simp: is_choice_def)
qed

lemma subset_pair_short:
  assumes n: "length shards = 74" and x: "x = [48 + a, 48 + b]" "a < b" "(a, b) \<noteq> (24, 25)" "b < 26"
  shows "present (take 2 (drop 72 (subset_of 48 shards x))) < 2"
proof -
  let ?sub = "subset_of 48 shards x"
  have "\<not> (a = 24 \<and> b = 25)" using x(3) by simp
  then have "72 \<notin> set x \<or> 73 \<notin> set x" using x(1,2,4) by auto
  then have sub: "?sub ! 72 = None \<or> ?sub ! 73 = None" using n by auto
  have "take 2 (drop 72 ?sub) = [?sub ! 72, ?sub ! 73]"
    by (rule nth_equalityI) (use n in \<open>auto simp: less_2_cases_iff\<close>)
  then show ?thesis using sub by (auto simp: present_def)
qed

lemma early_pairs_fail:
  assumes b: "codec_backend codec = Lrc_backend (lrc_config_new 48 24 2)"
    and lost: "length shards = 74" "{i. i < 74 \<and> shards ! i = None} = {0, 1}"
    and x: "x \<in> set (take MAX_DECODE_ATTEMPTS (choices_of [48..<74] 2))"
  shows "attempt c codec shards recorded rebuilt x = None"
proof -
  have chk: "check_lrc 48 24 2 = Inr ()" by (simp add: check_lrc_def is_multiple_of_def MAX_SHARDS_def)
  have s: "data_shards codec = 48" "total_shards codec = 74" using lrc_sizes [OF b chk] by simp_all
  obtain a b' where ab: "a < b'" "b' < 26" "(a, b') \<noteq> (24, 25)" "x = [48 + a, 48 + b']"
    by (rule first_attempts [OF _ x]) (simp_all del: upt_rec_numeral)
  let ?sub = "subset_of 48 shards x"
  have few: "present (take 2 (drop 72 ?sub)) < 2"
    by (rule subset_pair_short [OF lost(1) ab(4,1,3,2)])
  have "{i. i < 48 \<and> ?sub ! i = None} = {i. i < 74 \<and> shards ! i = None} \<inter> {..<48}"
    using lost(1) by auto
  then have "{i. i < 48 \<and> ?sub ! i = None} = {0, 1}" unfolding lost(2) by auto
  then have "\<exists>e. rebuild_data c codec ?sub = Inl e"
    using rebuild_short [OF b chk, of ?sub 0 1] lost(1) few by simp
  then show ?thesis by (auto simp: attempt_def s)
qed

text \<open>
  C33. A verified read of an LRC stripe tries at most 256 choices of parity shards, and the choices
  that can work may come later. With the profile 48+24+2, which the check of profiles allows, the
  loss of two data shards of one group makes every verified read fail as unverified, whatever the
  shards and checksums say, while the same shards decode to the data written.
\<close>

theorem lrc_verified_gives_up:
  assumes new: "codec_new c (erasure_config_lrc 48 24 2) = Inr codec"
    and lost: "length shards = 74" "{i. i < 74 \<and> shards ! i = None} = {0, 1}"
  shows "decode_verified c codec shards len recorded = Inl (Unverified False) \<and>
    (rs_ok c 48 2 \<and> encode_inner c codec bs = Inr stripe \<and> genuine stripe shards \<longrightarrow>
       decode c codec shards (length bs) = Inr bs)"
proof
  obtain b: "codec_backend codec = Lrc_backend (lrc_config_new 48 24 2)"
    and chk: "check_lrc 48 24 2 = Inr ()"
    using new by (cases rule: codec_new_cases) (auto simp: erasure_config_lrc_def)
  have s: "data_shards codec = 48" "total_shards codec = 74" using lrc_sizes [OF b chk] by simp_all
  have z: "shards ! 0 = None" "shards ! 1 = None" using lost(2) by blast+
  have ne: "shards ! i \<noteq> None" if "1 < i" "i < 74" for i
  proof
    assume "shards ! i = None"
    then have "i \<in> {0, 1}" unfolding lost(2) [symmetric] using that(2) by simp
    with that(1) show False by simp
  qed
  have "held_slots shards = {2..<74}"
  proof (intro set_eqI iffI)
    fix i assume "i \<in> held_slots shards"
    then have "i < 74" "shards ! i \<noteq> None" using lost(1) by (auto simp: held_slots_def)
    moreover have "i \<noteq> 0" "i \<noteq> 1" using z calculation(2) by metis+
    ultimately show "i \<in> {2..<74}" by simp
  qed (use ne lost(1) in \<open>simp add: held_slots_def\<close>)
  then have pres: "present shards = 72" by (simp add: present_card)
  let ?rebuilt = "filter (\<lambda>i. shards ! i = None) [0..<48]"
  let ?parity = "filter (\<lambda>i. shards ! i \<noteq> None) [48..<74]"
  have par: "?parity = [48..<74]"
    unfolding filter_id_conv by (intro ballI ne) (simp_all del: upt_rec_numeral)
  have "present shards + length ?rebuilt = 48 + length ?parity"
    by (rule rebuilt_parity_count [OF lost(1)]) simp
  then have reb: "length ?rebuilt = 2" unfolding par pres by (simp del: upt_rec_numeral)
  have np: "\<not> data_present codec shards" 
    using z(1) lost(1) s by (auto simp: data_present_def list_all_length intro!: exI [of _ 0])
  have "\<exists>t. try_choices (attempt c codec shards recorded ?rebuilt) (choices_of [48..<74] 2) 0 0 = Inr (t, 0)"
    by (rule try_choices_verified_free) (use early_pairs_fail [OF b lost] in blast)
  then show "decode_verified c codec shards len recorded = Inl (Unverified False)"
    using decode_verified_eq [of shards codec c len recorded] np pres lost(1) par reb
    by (auto simp: s Let_def simp del: upt_rec_numeral)
  show "rs_ok c 48 2 \<and> encode_inner c codec bs = Inr stripe \<and> genuine stripe shards \<longrightarrow>
      decode c codec shards (length bs) = Inr bs"
  proof
    assume a: "rs_ok c 48 2 \<and> encode_inner c codec bs = Inr stripe \<and> genuine stripe shards"
    then have ok: "lrc_ok c codec" using b chk by (auto simp: lrc_ok_def)
    have "lrc_enough codec (held_slots shards)"
      by (rule lrc_enough_after [OF b chk]) (use lost(1) pres in simp_all)
    then show "decode c codec shards (length bs) = Inr bs" using lrc.decode_enough [OF ok] a by blast
  qed
qed

definition sample_wide :: erasure_codec where
  "sample_wide = \<lparr>codec_config = erasure_config_lrc 48 24 2,
     codec_backend = Lrc_backend (lrc_config_new 48 24 2)\<rparr>"

theorem lrc_verified_gives_up_witness:
  "decode_verified xor_coders sample_wide (None # None # replicate 72 (Some [])) 0 [] =
     Inl (Unverified False)"
proof -
  have new: "codec_new xor_coders (erasure_config_lrc 48 24 2) = Inr sample_wide"
    by (simp add: codec_new_def erasure_config_lrc_def check_lrc_def is_multiple_of_def MAX_SHARDS_def
        create_lrc_def lrc_new_def sample_wide_def)
  have "{i. i < 74 \<and> (None # None # replicate 72 (Some ([] :: bytes))) ! i = None} = {0, 1}"
    by (auto simp: nth_Cons' split: if_splits)
  then show ?thesis
    using lrc_verified_gives_up [OF new, of "None # None # replicate 72 (Some [])" 0 "[]" "[]" "[]"]
    by simp
qed

section \<open>MDS\<close>

lemma mds_new:
  assumes "codec_new c (erasure_config_new k m) = Inr codec" "isal_ok c k m"
  shows "codec_backend codec = Mds_backend k m" "0 < k" "mds_ok c codec"
proof -
  show "codec_backend codec = Mds_backend k m" "0 < k"
    using assms(1) by (cases rule: codec_new_cases; simp add: erasure_config_new_def)+
  then show "mds_ok c codec" using assms(2) by (auto simp: mds_ok_def)
qed

text \<open>
  C29. What a verified read of an MDS stripe returns, for every choice of the shards still there
  and of the checksums recorded: too few shards is an error; with \<open>k\<close> of them the data comes back,
  unless exactly \<open>k\<close> are there and a data shard that is not has no checksum recorded.
\<close>

theorem mds_verified_read:
  assumes "codec_new c (erasure_config_new k m) = Inr codec" "isal_ok c k m"
    and "encode_inner c codec bs = Inr stripe" "genuine stripe shards"
    and "recorded_ok c stripe recorded"
  shows "decode_verified c codec shards (length bs) recorded =
    (if present shards < k then Inl (InsufficientShards (present shards) k)
     else if (\<forall>i < k. shards ! i = None \<longrightarrow> slot recorded i \<noteq> None) \<or> k < present shards
     then Inr bs
     else Inl (Unverified False))"
proof -
  note n = mds_new [OF assms(1,2)]
  show ?thesis using mds_decode_verified [OF n(3) assms(3-5)] mds_sizes(1) [OF n(1)] by simp
qed

definition sample_mds :: erasure_codec where
  "sample_mds = \<lparr>codec_config = erasure_config_new 2 1, codec_backend = Mds_backend 2 1\<rparr>"

lemma sample_mds_new: "codec_new xor_coders (erasure_config_new 2 1) = Inr sample_mds"
  by (simp add: codec_new_def erasure_config_new_def create_mds_def isal_new_def sample_mds_def)
    (simp add: xor_coders_def)

lemma sample_mds_encode:
  "\<exists>stripe. encode_inner xor_coders sample_mds bs = Inr stripe \<and> length stripe = 3"
proof -
  have "mds_ok xor_coders sample_mds" by (rule mds_new(3) [OF sample_mds_new xor_isal_ok]) simp
  then show ?thesis
    using mds.encode_total [of xor_coders sample_mds bs]
    by (auto simp: sample_mds_def total_shards_def data_shards_def parity_shards_def)
qed

lemma present_without: "lost \<subseteq> {..<length stripe} \<Longrightarrow> present (without stripe lost) = length stripe - card lost"
  unfolding present_card held_without_lost by (simp add: card_Diff_subset finite_subset [of lost "{..<length stripe}"])

theorem mds_verified_read_witness:
  "\<exists>stripe. encode_inner xor_coders sample_mds [7, 8, 9] = Inr stripe \<and>
     decode_verified xor_coders sample_mds (without stripe {0}) 3
       (map (\<lambda>s. Some (crc32c xor_coders s)) stripe) = Inr [7, 8, 9] \<and>
     decode_verified xor_coders sample_mds (without stripe {0}) 3 [] = Inl (Unverified False)"
proof -
  obtain stripe where e: "encode_inner xor_coders sample_mds [7, 8, 9] = Inr stripe"
    and n: "length stripe = 3" using sample_mds_encode by blast
  note th = mds_verified_read [OF sample_mds_new xor_isal_ok e genuine_without [of stripe "{0}"]]
  have p: "present (without stripe {0}) = 2" using n by (simp add: present_without)
  have "recorded_ok xor_coders stripe (map (\<lambda>s. Some (crc32c xor_coders s)) stripe)"
    "recorded_ok xor_coders stripe []"
    by (simp_all add: recorded_ok_def slot_def)
  note th2 = th [OF _ this(1)] th [OF _ this(2)]
  have w: "\<forall>i < 2. slot (map (\<lambda>s. Some (crc32c xor_coders s)) stripe) i \<noteq> None"
    "without stripe {0} ! 0 = None"
    using n by (simp_all add: slot_def without_def)
  then have "\<exists>i < 2. without stripe {0} ! i = None" by (intro exI [of _ 0]) simp
  then have "\<not> (\<forall>i < 2. without stripe {0} ! i = None \<longrightarrow> slot ([] :: nat option list) i \<noteq> None)"
    by (simp add: slot_def)
  then show ?thesis using e th2 p w(1) by (simp add: numeral_3_eq_3)
qed




text \<open>
  C31. Repair of an MDS stripe from any \<open>k\<close> shards gives back, for the missing positions asked
  for, exactly the shards written there, parity included and in the order asked.
\<close>

theorem mds_repair_exact:
  assumes "codec_new c (erasure_config_new k m) = Inr codec" "isal_ok c k m"
    and "encode_inner c codec bs = Inr stripe" "genuine stripe shards" "k \<le> present shards"
    and "distinct missing" "\<forall>i \<in> set missing. i < length stripe \<and> shards ! i = None"
  shows "reconstruct_shards c codec shards missing = Inr (map (\<lambda>i. stripe ! i) missing)"
proof -
  note n = mds_new [OF assms(1,2)]
  show ?thesis
    by (rule mds_reconstruct [OF n(3) assms(3,4) _ assms(6,7)])
      (use assms(5) mds_sizes(1) [OF n(1)] in simp)
qed

theorem mds_repair_exact_witness:
  "\<exists>stripe. encode_inner xor_coders sample_mds [7, 8, 9] = Inr stripe \<and>
     reconstruct_shards xor_coders sample_mds (without stripe {2}) [2] = Inr [stripe ! 2]"
proof -
  obtain stripe where e: "encode_inner xor_coders sample_mds [7, 8, 9] = Inr stripe"
    and n: "length stripe = 3" using sample_mds_encode by blast
  have p: "2 \<le> present (without stripe {2})" using n by (simp add: present_without)
  have "without stripe {2} ! 2 = None" using n by (simp add: without_def)
  then show ?thesis
    using mds_repair_exact [OF sample_mds_new xor_isal_ok e genuine_without p, of "[2]"] e n by simp
qed

section \<open>Encoding\<close>

lemma data_ok_hd: "data_ok k L data \<Longrightarrow> data \<noteq> [] \<and> length (hd data) = L"
  by (cases data) (auto simp: data_ok_def)

text \<open>
  C34. The three ways to encode agree: the zero-copy encoding gives the shards of the plain one,
  and encoding into a caller's buffer, whatever it held, leaves the shards one after another at its
  front and the rest of it untouched.
\<close>

theorem encodings_agree:
  assumes new: "codec_new c config = Inr codec" and shape: "isal_shape c"
  shows "encode_bytes c codec bs = encode_inner c codec bs \<and>
    (\<not> is_lrc codec \<and> stripe_len codec (length bs) \<le> length buf \<longrightarrow>
       encode_into c codec bs buf =
         and_then (encode_inner c codec bs) (\<lambda>shards.
           Inr (shard_size_for (length bs) (data_shards codec),
                concat shards @ drop (stripe_len codec (length bs)) buf)))"
  using new
proof (cases rule: codec_new_cases)
  case (lrc k l g)
  then show ?thesis by (simp add: encode_bytes_def is_lrc_def)
next
  case (mds k m)
  note n = mds_sizes [OF mds(1)]
  have nl: "\<not> is_lrc codec" using mds(1) by (simp add: is_lrc_def)
  have split: "split_shards (k + m) (shard_size_for (length bs) k) (concat shards) = shards"
    if enc: "encode_inner c codec bs = Inr shards" for shards
  proof -
    define L where "L = shard_size_for (length bs) k"
    let ?L = L and ?d = "data_of k bs"
    have d: "data_ok k ?L ?d" unfolding L_def by (rule data_of_ok [OF mds(2)])
    have "encode_inner c codec bs =
        (case encode_shards c codec ?d of Inl _ \<Rightarrow> Inl EncodingFailed | Inr s \<Rightarrow> Inr s)"
      using encode_inner_eq [of codec c bs] mds(2) n by simp
    then have e: "encode_shards c codec ?d = Inr shards" using enc by (simp split: sum.splits)
    have "?d \<noteq> []" "length (hd ?d) = ?L" using data_ok_hd [OF d] by blast+
    then have "encode_shards c codec ?d = isal_backend_encode c k m ?d ?L"
      using mds(1) by (cases ?d) (simp_all add: encode_shards_def)
    then obtain p where p: "isal_encode c k m ?d = Some p" "shards = ?d @ p"
      using e by (auto simp: isal_backend_encode_def split: if_splits option.splits)
    have "length p = m \<and> (\<forall>s \<in> set p. length s = ?L)"
      using shape p(1) d unfolding isal_shape_def data_ok_def by blast
    then have "length shards = k + m" "\<forall>s \<in> set shards. length s = ?L"
      using d p(2) by (auto simp only: data_ok_def length_append set_append)
    then show ?thesis using split_shards_concat [of shards L "[]"] by (simp add: L_def [symmetric])
  qed
  have "encode_bytes c codec bs = encode_inner c codec bs"
    using encode_into_eq [OF shape mds(1,2), of bs "replicate (stripe_len codec (length bs)) 0"] nl split
    by (cases "encode_inner c codec bs") (simp_all add: encode_bytes_def n)
  then show ?thesis using encode_into_eq [OF shape mds(1,2), of bs buf] n by simp
qed

theorem encodings_agree_witness:
  "encode_bytes xor_coders sample_mds [7, 8, 9] = encode_inner xor_coders sample_mds [7, 8, 9]"
  using encodings_agree [OF sample_mds_new xor_isal_shape, of "[7, 8, 9]"] by blast



end
