(* ===== verification/Spec2Isabelle.thy ===== *)
theory Spec2Isabelle
  imports Cache_View Volumes Meta_Progress Erasure_Properties
begin

text \<open>
  IOLake is a distributed object store with a block service on top. A gateway process serves
  volumes: it cuts byte ranges into chunks, keeps written bytes in a cache backed by a journal on
  its own disk, and in the background writes whole chunks as erasure-coded stripes to storage
  nodes. A replicated metadata service records, per volume and snapshot, which stripe holds each
  chunk, and who shares a stripe. This development covers the write path of the gateway (journal,
  cache, volume manager) and the block side of the metadata service.

  \<^bold>\<open>Theories and the code they model.\<close>

  \<^item> \<^verbatim>\<open>Prelude\<close>: bytes as 8-bit words, little-endian integers, wrap-around of machine integers,
    \<^verbatim>\<open>Result\<close> and panics as values, UTF-8; lemma collections the components share.
  \<^item> \<^verbatim>\<open>Chunk_Map\<close>: \<^verbatim>\<open>crates/block/src/chunk.rs\<close> (\<^verbatim>\<open>ChunkMapper\<close>), cutting ranges at chunk boundaries
    and naming chunk objects.
  \<^item> \<^verbatim>\<open>Btree_Map\<close>: ordered maps as sorted association lists, with an interface locale.
  \<^item> \<^verbatim>\<open>Log_Tail\<close>: \<^verbatim>\<open>crates/common/src/log_tail.rs\<close>, the search for a whole record after damage, over
    any record format (a locale).
  \<^item> \<^verbatim>\<open>Block_Journal\<close>, \<^verbatim>\<open>Journal_State\<close>: \<^verbatim>\<open>crates/block/src/journal.rs\<close>, entries and their encoding,
    opening, appending, recovering, rotating and syncing, over a disk whose unsynced bytes a power
    cut may change; a step relation of callers, syncs, failures and power cuts.
  \<^item> \<^verbatim>\<open>Write_Cache\<close>, \<^verbatim>\<open>Cache_View\<close>: \<^verbatim>\<open>crates/block/src/cache.rs\<close>, the cache and the bytes a volume
    reads through it.
  \<^item> \<^verbatim>\<open>Volumes\<close>: \<^verbatim>\<open>crates/block/src/volume.rs\<close>, the gateway's volumes, snapshots and clones.
  \<^item> \<^verbatim>\<open>Meta_Store\<close>: \<^verbatim>\<open>crates/meta-store/src/raft.rs\<close> and \<^verbatim>\<open>raft_storage.rs\<close>, the multi-row
    compare-and-swap command.
  \<^item> \<^verbatim>\<open>Block_Meta\<close>: \<^verbatim>\<open>crates/meta/src/service/block_meta.rs\<close>, every handler; \<^verbatim>\<open>Chunk_Keys\<close>: the order
    of its row keys; \<^verbatim>\<open>Stripe_Sharing\<close>: the abstract state of rows and registry and its three moves;
    \<^verbatim>\<open>Meta_Sharing\<close>: the handlers' builds perform those moves; \<^verbatim>\<open>Meta_Invariant\<close>, \<^verbatim>\<open>Meta_Handlers\<close>,
    \<^verbatim>\<open>Meta_Snapshots\<close>, \<^verbatim>\<open>Meta_Steps\<close>: the invariant and that every handler keeps it, however its
    writes end; \<^verbatim>\<open>Meta_Properties\<close>, \<^verbatim>\<open>Meta_Progress\<close>: what the service promises.

  \<^bold>\<open>Not modelled.\<close> The S3 gateway, the storage nodes and the erasure coding, placement, identity
  and policies, the catalogs (Iceberg, Delta, Unity), the consoles and the command line; of the
  metadata service everything but the block tables. Raft itself and the database are parameters:
  a write's outcome is a script, a committed command is applied to a map.
\<close>

end
